(* ===== verification/Prelude.thy ===== *)
theory Prelude
  imports Main "HOL-Library.Word"
begin

text \<open>
  Shared vocabulary of the kernel model: machine integers at their C widths, the outcome
  of a C call (it returns, it faults, or it never returns), and the byte-addressed memory
  with its little-endian loads and stores. Nothing here is specific to one component; the
  collections \<open>out_simps\<close> and \<open>mem_simps\<close> are the automation the component theories use.
\<close>

unbundle bit_operations_syntax

named_theorems out_simps \<open>evaluation of the outcome monad\<close>
named_theorems mem_simps \<open>loads after stores\<close>

section \<open>Machine integers\<close>

type_synonym u8 = "8 word"
type_synonym u16 = "16 word"
type_synonym u32 = "32 word"
type_synonym u64 = "64 word"

text \<open>
  C's logical negation of an integer: 1 for zero and 0 for everything else (not the
  bitwise complement).
\<close>

definition c_lnot :: "u64 \<Rightarrow> u64" where
  "c_lnot x = (if x = 0 then 1 else 0)"

lemma c_lnot_nonzero [simp]: "x \<noteq> 0 \<Longrightarrow> c_lnot x = 0"
  by (simp add: c_lnot_def)

text \<open>The range of C's 32-bit \<open>int\<close>: signed arithmetic outside it is undefined.\<close>

definition int32_ok :: "int \<Rightarrow> bool" where
  "int32_ok x \<longleftrightarrow> - (2 ^ 31) \<le> x \<and> x < 2 ^ 31"

section \<open>Outcomes\<close>

text \<open>
  What can stop the kernel: a failed \<open>assert\<close> (it calls \<open>_os_assert\<close>, which prints the
  expression and halts), an access the page tables do not map, an access outside an
  array, a division by zero, or C's undefined behaviour.
\<close>

datatype fault =
    Assert_failed string
  | Page_fault u64
  | Out_of_bounds
  | Divide_error
  | Undefined_behaviour

text \<open>
  An outcome is \<open>None\<close> if the call never returns, \<open>Some (Inl e)\<close> if it stops with a fault
  and \<open>Some (Inr x)\<close> if it returns \<open>x\<close>.
\<close>

type_synonym 'a out = "(fault + 'a) option"

definition ret :: "'a \<Rightarrow> 'a out" where
  "ret x = Some (Inr x)"

definition fail :: "fault \<Rightarrow> 'a out" where
  "fail e = Some (Inl e)"

definition obind :: "'a out \<Rightarrow> ('a \<Rightarrow> 'b out) \<Rightarrow> 'b out" where
  "obind m f = Option.bind m (\<lambda>r. case r of Inl e \<Rightarrow> Some (Inl e) | Inr x \<Rightarrow> f x)"

definition assert_c :: "bool \<Rightarrow> string \<Rightarrow> unit out" where
  "assert_c b ex = (if b then ret () else fail (Assert_failed ex))"

lemma obind_simps [simp, out_simps]:
  "obind (ret x) f = f x"
  "obind (fail e) f = fail e"
  "obind None f = None"
  by (simp_all add: obind_def ret_def fail_def)

lemma ret_inject [simp]: "ret x = ret y \<longleftrightarrow> x = y"
  by (simp add: ret_def)

lemma ret_not_fail [simp]:
  "ret x \<noteq> fail e" "fail e \<noteq> ret x" "ret x \<noteq> None" "None \<noteq> ret x" "fail e \<noteq> None" "None \<noteq> fail e"
  by (simp_all add: ret_def fail_def)

lemma fail_inject [simp]: "fail e = fail e' \<longleftrightarrow> e = e'"
  by (simp add: fail_def)

lemma out_cases:
  obtains (none) "m = None" | (fault) e where "m = fail e" | (ret) x where "m = ret x"
  by (cases m; cases "the m") (auto simp: ret_def fail_def)

lemma obind_assoc [simp]: "obind (obind m f) g = obind m (\<lambda>x. obind (f x) g)"
  by (cases m rule: out_cases) simp_all

lemma obind_ret_right [simp]: "obind m ret = m"
  by (cases m rule: out_cases) simp_all

lemma obind_eq_ret: "obind m f = ret y \<longleftrightarrow> (\<exists>x. m = ret x \<and> f x = ret y)"
  by (cases m rule: out_cases) simp_all

lemma assert_c_simps [simp, out_simps]:
  "assert_c True ex = ret ()"
  "assert_c False ex = fail (Assert_failed ex)"
  by (simp_all add: assert_c_def)

lemma obind_cong [cong, fundef_cong]: "m = m' \<Longrightarrow> (\<And>x. m' = ret x \<Longrightarrow> f x = g x) \<Longrightarrow> obind m f = obind m' g"
  by (cases m' rule: out_cases) simp_all

text \<open>Recursive calls under \<open>obind\<close> are admitted by \<^theory_text>\<open>partial_function (option)\<close>.\<close>

lemma obind_mono [partial_function_mono]:
  assumes "mono_option B" and "\<And>y. mono_option (\<lambda>f. C y f)"
  shows "mono_option (\<lambda>f. obind (B f) (\<lambda>y. C y f))"
  unfolding obind_def
proof (rule bind_mono [OF assms(1)])
  fix r
  show "mono_option (\<lambda>f. case r of Inl e \<Rightarrow> Some (Inl e) | Inr x \<Rightarrow> C x f)"
    by (cases r) (simp_all add: assms(2) option.const_mono)
qed

text \<open>A loop over a list whose body may fault, and the invariant rule for it.\<close>

fun foldM :: "('a \<Rightarrow> 's \<Rightarrow> 's out) \<Rightarrow> 'a list \<Rightarrow> 's \<Rightarrow> 's out" where
  "foldM f [] s = ret s"
| "foldM f (x # xs) s = obind (f x s) (foldM f xs)"

lemma foldM_ret: "(\<And>x s. x \<in> set xs \<Longrightarrow> f x s = ret (g x s)) \<Longrightarrow> foldM f xs s = ret (fold g xs s)"
  by (induction xs arbitrary: s) simp_all

lemma foldM_append [simp]: "foldM f (xs @ ys) s = obind (foldM f xs s) (foldM f ys)"
  by (induction xs arbitrary: s) simp_all

lemma foldM_inv:
  assumes "foldM f xs s = ret s'" and "I s"
    and "\<And>x s t. x \<in> set xs \<Longrightarrow> I s \<Longrightarrow> f x s = ret t \<Longrightarrow> I t"
  shows "I s'"
  using assms by (induction xs arbitrary: s) (auto simp: obind_eq_ret)

text \<open>
  The values of \<open>i\<close> in \<open>for(int i=0; i<n; ++i)\<close> for an unsigned \<open>n\<close>: when \<open>n\<close> is above the largest
  \<open>int\<close>, the increment overflows.
\<close>

definition int_range :: "u64 \<Rightarrow> nat list out" where
  "int_range n = (if unat n < 2 ^ 31 then ret [0..<unat n] else fail Undefined_behaviour)"

section \<open>Generic lemmas\<close>

lemma fold_inv: "I s \<Longrightarrow> (\<And>x s. x \<in> set xs \<Longrightarrow> I s \<Longrightarrow> I (f x s)) \<Longrightarrow> I (fold f xs s)"
  by (induction xs arbitrary: s) auto

lemma fold_proj:
  "(\<And>x s. x \<in> set xs \<Longrightarrow> p (f x s) = p s) \<Longrightarrow> p (fold f xs s) = p s"
  by (induction xs arbitrary: s) auto

lemma unat_of_nat64: "n < 2 ^ 64 \<Longrightarrow> unat (of_nat n :: u64) = n"
  by (simp add: unat_of_nat)

lemma of_nat64_eq_iff: "a < 2 ^ 64 \<Longrightarrow> b < 2 ^ 64 \<Longrightarrow> (of_nat a :: u64) = of_nat b \<longleftrightarrow> a = b"
  by (metis unat_of_nat64)

lemma unat64_lt: "unat (x :: u64) < 18446744073709551616"
  using unsigned_less [of x] by simp

lemma unat_plus64: "unat x + unat y < 2 ^ 64 \<Longrightarrow> unat (x + y) = unat x + unat (y :: u64)"
  by (simp add: unat_word_ariths)

lemma unat_Suc64: "x < y \<Longrightarrow> unat (x + 1) = Suc (unat (x :: u64))"
proof -
  assume "x < y"
  then have "unat x + 1 < 2 ^ 64"
    using unat64_lt [of y] by (simp add: word_less_nat_alt)
  then show ?thesis by (simp add: unat_plus64)
qed

end
