(* ===== verification/Terminal.thy ===== *)
theory Terminal
  imports Prelude
begin

text \<open>
  The VGA text terminal of src/terminal.c and src/terminal.h: the \<open>Terminal\<close> struct, the
  cell writes, newline, scrolling, tabs and text output. The model keeps the C names, in
  which \<open>row\<close> is the horizontal position (below \<open>row_max\<close> = 80) and \<open>col\<close> the line (below
  \<open>col_max\<close> = 25). \<open>buffer\<close> is the 16-bit cell array the C pointer 0xB8000 designates, as a
  total map, so that a write outside the screen would be visible in the model.
\<close>

section \<open>State and operations\<close>

datatype vga_color_code =
    VGA_COLOR_BLACK | VGA_COLOR_BLUE | VGA_COLOR_GREEN | VGA_COLOR_CYAN | VGA_COLOR_RED
  | VGA_COLOR_MAGENTA | VGA_COLOR_BROWN | VGA_COLOR_LIGHT_GREY | VGA_COLOR_DARK_GREY
  | VGA_COLOR_LIGHT_BLUE | VGA_COLOR_LIGHT_GREEN | VGA_COLOR_LIGHT_CYAN | VGA_COLOR_LIGHT_RED
  | VGA_COLOR_LIGHT_MAGENTA | VGA_COLOR_LIGHT_BROWN | VGA_COLOR_WHITE

primrec vga_code :: "vga_color_code \<Rightarrow> u32" where
  "vga_code VGA_COLOR_BLACK = 0"
| "vga_code VGA_COLOR_BLUE = 1"
| "vga_code VGA_COLOR_GREEN = 2"
| "vga_code VGA_COLOR_CYAN = 3"
| "vga_code VGA_COLOR_RED = 4"
| "vga_code VGA_COLOR_MAGENTA = 5"
| "vga_code VGA_COLOR_BROWN = 6"
| "vga_code VGA_COLOR_LIGHT_GREY = 7"
| "vga_code VGA_COLOR_DARK_GREY = 8"
| "vga_code VGA_COLOR_LIGHT_BLUE = 9"
| "vga_code VGA_COLOR_LIGHT_GREEN = 10"
| "vga_code VGA_COLOR_LIGHT_CYAN = 11"
| "vga_code VGA_COLOR_LIGHT_RED = 12"
| "vga_code VGA_COLOR_LIGHT_MAGENTA = 13"
| "vga_code VGA_COLOR_LIGHT_BROWN = 14"
| "vga_code VGA_COLOR_WHITE = 15"

record terminal =
  col :: u64
  row :: u64
  default_color :: u8
  color :: u8
  buffer :: "u64 \<Rightarrow> u16"
  col_max :: u64
  row_max :: u64

definition COL_MAX :: u64 where "COL_MAX = 25"
definition ROW_MAX :: u64 where "ROW_MAX = 80"
definition tab_space_num :: u64 where "tab_space_num = 4"

definition make_vga_color :: "vga_color_code \<Rightarrow> vga_color_code \<Rightarrow> u8" where
  "make_vga_color fg bg = ucast (vga_code fg OR push_bit 4 (vga_code bg))"

definition make_vga_char :: "u8 \<Rightarrow> u8 \<Rightarrow> u16" where
  "make_vga_char uc clr = ucast uc OR push_bit 8 (ucast clr)"

definition terminal_put_char_at :: "u16 \<Rightarrow> u64 \<Rightarrow> u64 \<Rightarrow> terminal \<Rightarrow> terminal" where
  "terminal_put_char_at c x y t = t\<lparr>buffer := (buffer t)(x + y * row_max t := c)\<rparr>"

text \<open>A blank cell: a space in the default colour.\<close>

definition blank_char :: "terminal \<Rightarrow> u16" where
  "blank_char t = make_vga_char (of_char (CHR '' '')) (default_color t)"

definition clear_terminal :: "terminal \<Rightarrow> terminal" where
  "clear_terminal t0 =
     fold (\<lambda>x. fold (\<lambda>y t. terminal_put_char_at (blank_char t) (of_nat x) (of_nat y) t)
                 [0..<unat (col_max t0)])
       [0..<unat (row_max t0)] t0"

text \<open>C strings are character lists; a string ends at its first NUL (or at the end of the list).\<close>

definition c_string :: "string \<Rightarrow> string" where
  "c_string s = takeWhile (\<lambda>c. c \<noteq> CHR 0x00) s"

definition strlen :: "string \<Rightarrow> nat" where
  "strlen s = length (c_string s)"

definition scroll_cell :: "nat \<Rightarrow> nat \<Rightarrow> terminal \<Rightarrow> terminal" where
  "scroll_cell x y t = t\<lparr>buffer := (buffer t)(of_nat x + of_nat y * row_max t :=
      buffer t (of_nat x + (1 + of_nat y) * row_max t))\<rparr>"

definition scroll_terminal :: "terminal \<Rightarrow> terminal" where
  "scroll_terminal t0 =
     (let t1 = fold (\<lambda>x. fold (scroll_cell x) [0..<unat (col_max t0 - 1)])
                 [0..<unat (row_max t0)] t0
      in fold (\<lambda>x t. terminal_put_char_at (blank_char t) (of_nat x) (col_max t - 1) t)
           [0..<unat (row_max t0)] t1)"

definition print_newline :: "terminal \<Rightarrow> terminal" where
  "print_newline t =
     (let t1 = t\<lparr>row := 0, col := col t + 1\<rparr>
      in if col t1 = col_max t1
         then (let t2 = scroll_terminal t1 in t2\<lparr>col := col t2 - 1\<rparr>)
         else t1)"

definition terminal_put_char :: "u16 \<Rightarrow> terminal \<Rightarrow> terminal" where
  "terminal_put_char c t =
     (let t1 = terminal_put_char_at c (row t) (col t) t;
          t2 = t1\<lparr>row := row t1 + 1\<rparr>
      in if row t2 = row_max t2 then print_newline (t2\<lparr>row := 0\<rparr>) else t2)"

definition newline :: char where "newline = CHR 0x0A"

definition terminal_print_char :: "char \<Rightarrow> terminal \<Rightarrow> terminal" where
  "terminal_print_char c t =
     (if c = newline then print_newline t
      else terminal_put_char (make_vga_char (of_char c) (default_color t)) t)"

definition print_text :: "string \<Rightarrow> terminal \<Rightarrow> terminal" where
  "print_text text = fold (\<lambda>i t.
       if text ! i = newline then print_newline t
       else terminal_put_char (make_vga_char (of_char (text ! i)) (default_color t)) t)
     [0..<strlen text]"

definition print_tab :: "terminal \<Rightarrow> terminal" where
  "print_tab t =
     (let cur_col = row t; spaces_needed = tab_space_num - cur_col mod tab_space_num
      in if spaces_needed + cur_col \<ge> ROW_MAX then print_newline t
         else (let sp = blank_char t
               in fold (\<lambda>i. terminal_put_char sp) [0..<unat spaces_needed] t))"

definition init_terminal :: "terminal \<Rightarrow> terminal" where
  "init_terminal t =
     (let dc = make_vga_color VGA_COLOR_LIGHT_GREEN VGA_COLOR_BLACK;
          t1 = t\<lparr>col := 0, row := 0, default_color := dc, color := dc,
                 col_max := COL_MAX, row_max := ROW_MAX\<rparr>
      in print_text (''Terminal init completed.'' @ [newline]) (clear_terminal t1))"

section \<open>Cells and geometry\<close>

text \<open>
  The screen is \<open>R\<close> cells wide and \<open>C\<close> lines high, with \<open>R * C\<close> below \<open>2^64\<close> so that no
  index computation wraps. \<open>cell t x y\<close> is the cell at horizontal position \<open>x\<close> of line \<open>y\<close>.
\<close>

definition width :: "terminal \<Rightarrow> nat" where "width t = unat (row_max t)"
definition height :: "terminal \<Rightarrow> nat" where "height t = unat (col_max t)"

definition geometry_ok :: "terminal \<Rightarrow> bool" where
  "geometry_ok t \<longleftrightarrow> 0 < width t \<and> 0 < height t \<and> width t * height t < 2 ^ 64"

definition terminal_ok :: "terminal \<Rightarrow> bool" where
  "terminal_ok t \<longleftrightarrow> geometry_ok t \<and> row t < row_max t \<and> col t < col_max t"

definition cell :: "terminal \<Rightarrow> nat \<Rightarrow> nat \<Rightarrow> u16" where
  "cell t x y = buffer t (of_nat x + of_nat y * row_max t)"

lemma cell_index_lt: "x < w \<Longrightarrow> y < h \<Longrightarrow> x + y * w < w * (h :: nat)"
proof -
  assume "x < w" "y < h"
  then have "x + y * w < Suc y * w" by simp
  also have "\<dots> \<le> h * w" using \<open>y < h\<close> by (intro mult_le_mono1) simp
  finally show ?thesis by (simp add: mult.commute)
qed

lemma unat_cell_index:
  assumes "geometry_ok t" "x < width t" "y < height t"
  shows "unat (of_nat x + of_nat y * row_max t) = x + y * width t"
proof -
  have lt: "x + y * width t < 2 ^ 64"
    using assms cell_index_lt [of x "width t" y "height t"] by (simp add: geometry_ok_def)
  have "of_nat x + of_nat y * row_max t = (of_nat (x + y * width t) :: u64)"
    by (simp add: width_def)
  then show ?thesis using lt unat_of_nat64 by presburger
qed

lemma cell_index_inj:
  assumes "geometry_ok t" "x < width t" "y < height t" "x' < width t" "y' < height t"
  shows "of_nat x + of_nat y * row_max t = of_nat x' + of_nat y' * row_max t \<longleftrightarrow> x = x' \<and> y = y'"
proof
  assume "of_nat x + of_nat y * row_max t = of_nat x' + of_nat y' * row_max t"
  then have eq: "x + y * width t = x' + y' * width t"
    using unat_cell_index [OF assms(1-3)] unat_cell_index [OF assms(1,4,5)] by simp
  then have "(x + y * width t) mod width t = (x' + y' * width t) mod width t" by simp
  then have "x = x'" using assms by simp
  with eq assms show "x = x' \<and> y = y'" by (simp add: geometry_ok_def)
qed simp

text \<open>The parts of the terminal that output never changes.\<close>

definition same_frame :: "terminal \<Rightarrow> terminal \<Rightarrow> bool" where
  "same_frame t t' \<longleftrightarrow> row_max t' = row_max t \<and> col_max t' = col_max t \<and>
     default_color t' = default_color t \<and> color t' = color t"

text \<open>Every store is inside the screen: memory past the last cell keeps its contents.\<close>

definition only_screen :: "terminal \<Rightarrow> terminal \<Rightarrow> bool" where
  "only_screen t t' \<longleftrightarrow> same_frame t t' \<and>
     (\<forall>k. width t * height t \<le> unat k \<longrightarrow> buffer t' k = buffer t k)"

lemma same_frame_refl [simp]: "same_frame t t"
  by (simp add: same_frame_def)

lemma only_screen_refl [simp]: "only_screen t t"
  by (simp add: only_screen_def)

lemma same_frame_width: "same_frame t t' \<Longrightarrow> width t' = width t \<and> height t' = height t"
  by (simp add: same_frame_def width_def height_def)

lemma only_screen_trans: "only_screen t t' \<Longrightarrow> only_screen t' t'' \<Longrightarrow> only_screen t t''"
  using same_frame_width [of t t'] by (auto simp: only_screen_def same_frame_def)

lemma only_screen_geometry:
  assumes "only_screen t t'"
  shows "row_max t' = row_max t" "col_max t' = col_max t" "default_color t' = default_color t"
    "width t' = width t" "height t' = height t" "geometry_ok t' = geometry_ok t"
    "blank_char t' = blank_char t"
  using assms
  by (simp_all add: only_screen_def same_frame_def width_def height_def geometry_ok_def blank_char_def)

lemma put_at_simps [simp]:
  "row (terminal_put_char_at c x y t) = row t"
  "col (terminal_put_char_at c x y t) = col t"
  "row_max (terminal_put_char_at c x y t) = row_max t"
  "col_max (terminal_put_char_at c x y t) = col_max t"
  "default_color (terminal_put_char_at c x y t) = default_color t"
  "blank_char (terminal_put_char_at c x y t) = blank_char t"
  "width (terminal_put_char_at c x y t) = width t"
  "height (terminal_put_char_at c x y t) = height t"
  "geometry_ok (terminal_put_char_at c x y t) = geometry_ok t"
  by (simp_all add: terminal_put_char_at_def width_def height_def geometry_ok_def blank_char_def)

lemma scroll_cell_simps [simp]:
  "row (scroll_cell x y t) = row t"
  "col (scroll_cell x y t) = col t"
  "row_max (scroll_cell x y t) = row_max t"
  "col_max (scroll_cell x y t) = col_max t"
  "default_color (scroll_cell x y t) = default_color t"
  "blank_char (scroll_cell x y t) = blank_char t"
  "width (scroll_cell x y t) = width t"
  "height (scroll_cell x y t) = height t"
  "geometry_ok (scroll_cell x y t) = geometry_ok t"
  by (simp_all add: scroll_cell_def width_def height_def geometry_ok_def blank_char_def)

lemma index_in_screen:
  assumes "geometry_ok t" "x < width t" "y < height t" "width t * height t \<le> unat k"
  shows "k \<noteq> of_nat x + of_nat y * row_max t"
  using assms unat_cell_index [of t x y] cell_index_lt [of x "width t" y "height t"] by auto

lemma put_at_only_screen:
  assumes "geometry_ok t" "x < width t" "y < height t"
  shows "only_screen t (terminal_put_char_at c (of_nat x) (of_nat y) t)"
  using index_in_screen [OF assms]
  by (auto simp: only_screen_def same_frame_def terminal_put_char_at_def)

lemma scroll_cell_only_screen:
  assumes "geometry_ok t" "x < width t" "y < height t"
  shows "only_screen t (scroll_cell x y t)"
  using index_in_screen [OF assms] by (auto simp: only_screen_def same_frame_def scroll_cell_def)

lemma cell_put_at:
  assumes "geometry_ok t" "x < width t" "y < height t" "x' < width t" "y' < height t"
  shows "cell (terminal_put_char_at c (of_nat x) (of_nat y) t) x' y' =
    (if x' = x \<and> y' = y then c else cell t x' y')"
  using cell_index_inj [OF assms] by (auto simp: cell_def terminal_put_char_at_def)

lemma cell_scroll_cell:
  assumes "geometry_ok t" "x < width t" "y < height t" "x' < width t" "y' < height t"
  shows "cell (scroll_cell x y t) x' y' =
    (if x' = x \<and> y' = y then cell t x (Suc y) else cell t x' y')"
  using cell_index_inj [OF assms] by (auto simp: cell_def scroll_cell_def)

section \<open>Loops over the screen\<close>

text \<open>
  What a loop has done to the screen: it kept the cursor and everything off the screen, and
  its cells are those the function \<open>g\<close> gives.
\<close>

definition redraws :: "terminal \<Rightarrow> (nat \<Rightarrow> nat \<Rightarrow> u16) \<Rightarrow> terminal \<Rightarrow> bool" where
  "redraws t g t' \<longleftrightarrow> only_screen t t' \<and> row t' = row t \<and> col t' = col t \<and>
     (\<forall>x < width t. \<forall>y < height t. cell t' x y = g x y)"

lemma redraws_refl: "(\<And>x y. x < width t \<Longrightarrow> y < height t \<Longrightarrow> g x y = cell t x y) \<Longrightarrow> redraws t g t"
  by (simp add: redraws_def)

lemma redraws_trans:
  assumes "redraws t g t'" "redraws t' h t''"
    "\<And>x y. x < width t \<Longrightarrow> y < height t \<Longrightarrow> h x y = k x y"
  shows "redraws t k t''"
  using assms only_screen_trans [of t t' t''] only_screen_geometry [of t t']
  unfolding redraws_def by simp

lemma put_at_redraws:
  assumes "geometry_ok t" "x < width t" "y < height t"
  shows "redraws t (\<lambda>x' y'. if x' = x \<and> y' = y then c else cell t x' y')
           (terminal_put_char_at c (of_nat x) (of_nat y) t)"
  using assms by (simp add: redraws_def put_at_only_screen cell_put_at)

lemma scroll_cell_redraws:
  assumes "geometry_ok t" "x < width t" "Suc y < height t"
  shows "redraws t (\<lambda>x' y'. if x' = x \<and> y' = y then cell t x (Suc y) else cell t x' y') (scroll_cell x y t)"
  using assms by (simp add: redraws_def scroll_cell_only_screen cell_scroll_cell)

text \<open>
  The induction every loop over the screen needs: if iteration \<open>n\<close> turns a screen that
  shows \<open>g n\<close> into one that shows \<open>g (Suc n)\<close>, the loop turns \<open>g 0\<close> into \<open>g N\<close>.
\<close>

lemma loop_redraws:
  assumes "redraws t (g 0) t"
    and step: "\<And>n s. n < N \<Longrightarrow> redraws t (g n) s \<Longrightarrow> redraws t (g (Suc n)) (f n s)"
  shows "redraws t (g N) (fold f [0..<N] t)"
proof -
  have "n \<le> N \<Longrightarrow> redraws t (g n) (fold f [0..<n] t)" for n
    using assms by (induction n) auto
  then show ?thesis by blast
qed

lemma redraws_simps:
  assumes "redraws t g s"
  shows "row_max s = row_max t" "col_max s = col_max t" "width s = width t" "height s = height t"
    "geometry_ok s = geometry_ok t" "blank_char s = blank_char t" "default_color s = default_color t"
    "row s = row t" "col s = col t" "x < width t \<Longrightarrow> y < height t \<Longrightarrow> cell s x y = g x y"
    "only_screen t s"
  using assms only_screen_geometry [of t s] by (simp_all add: redraws_def)

lemma scroll_column_redraws:
  assumes "geometry_ok t" "x < width t" "n < height t"
  shows "redraws t (\<lambda>x' y'. if x' = x \<and> y' < n then cell t x (Suc y') else cell t x' y')
           (fold (scroll_cell x) [0..<n] t)"
proof (rule loop_redraws [where g = "\<lambda>n x' y'. if x' = x \<and> y' < n then cell t x (Suc y') else cell t x' y'"])
  fix k s
  assume "k < n" and s: "redraws t (\<lambda>x' y'. if x' = x \<and> y' < k then cell t x (Suc y') else cell t x' y') s"
  then have "redraws s (\<lambda>x' y'. if x' = x \<and> y' = k then cell s x (Suc k) else cell s x' y') (scroll_cell x k s)"
    using assms redraws_simps [OF s] by (intro scroll_cell_redraws) simp_all
  then show "redraws t (\<lambda>x' y'. if x' = x \<and> y' < Suc k then cell t x (Suc y') else cell t x' y') (scroll_cell x k s)"
    by (rule redraws_trans [OF s])
      (use assms \<open>k < n\<close> redraws_simps(10) [OF s] in \<open>auto simp: less_Suc_eq\<close>)
qed (simp add: redraws_refl)

lemma scroll_columns_redraws:
  assumes "geometry_ok t" "n < height t" "m \<le> width t"
  shows "redraws t (\<lambda>x' y'. if x' < m \<and> y' < n then cell t x' (Suc y') else cell t x' y')
           (fold (\<lambda>x. fold (scroll_cell x) [0..<n]) [0..<m] t)"
proof (rule loop_redraws [where g = "\<lambda>m x' y'. if x' < m \<and> y' < n then cell t x' (Suc y') else cell t x' y'"])
  fix k s
  assume "k < m" and s: "redraws t (\<lambda>x' y'. if x' < k \<and> y' < n then cell t x' (Suc y') else cell t x' y') s"
  then have "redraws s (\<lambda>x' y'. if x' = k \<and> y' < n then cell s k (Suc y') else cell s x' y')
      (fold (scroll_cell k) [0..<n] s)"
    using assms redraws_simps [OF s] by (intro scroll_column_redraws) simp_all
  then show "redraws t (\<lambda>x' y'. if x' < Suc k \<and> y' < n then cell t x' (Suc y') else cell t x' y')
      (fold (scroll_cell k) [0..<n] s)"
    by (rule redraws_trans [OF s])
      (use assms \<open>k < m\<close> redraws_simps(10) [OF s] in \<open>auto simp: less_Suc_eq\<close>)
qed (simp add: redraws_refl)

lemma blank_cells_redraws:
  assumes "geometry_ok t" "\<And>n. n < N \<Longrightarrow> px n < width t \<and> py n < height t"
  shows "redraws t (\<lambda>x y. if \<exists>k < N. x = px k \<and> y = py k then blank_char t else cell t x y)
           (fold (\<lambda>n t. terminal_put_char_at (blank_char t) (of_nat (px n)) (of_nat (py n)) t) [0..<N] t)"
proof (rule loop_redraws [where g = "\<lambda>n x y. if \<exists>k < n. x = px k \<and> y = py k then blank_char t else cell t x y"])
  fix n s
  assume n: "n < N" and s: "redraws t (\<lambda>x y. if \<exists>k < n. x = px k \<and> y = py k then blank_char t else cell t x y) s"
  then have "redraws s (\<lambda>x y. if x = px n \<and> y = py n then blank_char t else cell s x y)
      (terminal_put_char_at (blank_char s) (of_nat (px n)) (of_nat (py n)) s)"
    using assms redraws_simps [OF s] put_at_redraws [of s "px n" "py n" "blank_char t"] by simp
  then show "redraws t (\<lambda>x y. if \<exists>k < Suc n. x = px k \<and> y = py k then blank_char t else cell t x y)
      (terminal_put_char_at (blank_char s) (of_nat (px n)) (of_nat (py n)) s)"
    by (rule redraws_trans [OF s]) (use redraws_simps(10) [OF s] in \<open>auto simp: less_Suc_eq\<close>)
qed (simp add: redraws_refl)

lemma blank_line_redraws:
  assumes "geometry_ok t" "y < height t"
  shows "redraws t (\<lambda>x' y'. if y' = y then blank_char t else cell t x' y')
           (fold (\<lambda>x t. terminal_put_char_at (blank_char t) (of_nat x) (of_nat y) t) [0..<width t] t)"
  using blank_cells_redraws [of t "width t" "\<lambda>n. n" "\<lambda>n. y"] assms
  by (auto simp: redraws_def)

lemma blank_column_redraws:
  assumes "geometry_ok t" "x < width t"
  shows "redraws t (\<lambda>x' y'. if x' = x then blank_char t else cell t x' y')
           (fold (\<lambda>y t. terminal_put_char_at (blank_char t) (of_nat x) (of_nat y) t) [0..<height t] t)"
  using blank_cells_redraws [of t "height t" "\<lambda>n. x" "\<lambda>n. n"] assms
  by (auto simp: redraws_def)

lemma scroll_terminal_redraws:
  assumes "geometry_ok t"
  shows "redraws t (\<lambda>x y. if Suc y < height t then cell t x (Suc y) else blank_char t) (scroll_terminal t)"
proof -
  let ?n = "height t - 1"
  have n: "unat (col_max t - 1) = ?n" "?n < height t"
    using assms by (simp_all add: height_def geometry_ok_def unat_sub word_le_nat_alt)
  define s where "s = fold (\<lambda>x. fold (scroll_cell x) [0..<?n]) [0..<width t] t"
  have s: "redraws t (\<lambda>x' y'. if x' < width t \<and> y' < ?n then cell t x' (Suc y') else cell t x' y') s"
    unfolding s_def using assms n by (intro scroll_columns_redraws) simp_all
  have cm: "col_max t - 1 = of_nat ?n" unfolding n(1) [symmetric] by simp
  have scroll: "scroll_terminal t =
      fold (\<lambda>x t. terminal_put_char_at (blank_char t) (of_nat x) (col_max t - 1) t) [0..<width t] s"
    by (simp add: scroll_terminal_def s_def width_def n(1))
  have "col_max u = col_max t \<Longrightarrow> fold (\<lambda>x t. terminal_put_char_at (blank_char t) (of_nat x) (col_max t - 1) t) xs u =
      fold (\<lambda>x t. terminal_put_char_at (blank_char t) (of_nat x) (of_nat ?n) t) xs u" for xs u
    using cm by (induction xs arbitrary: u) simp_all
  then have eq: "scroll_terminal t =
      fold (\<lambda>x t. terminal_put_char_at (blank_char t) (of_nat x) (of_nat ?n) t) [0..<width s] s"
    using redraws_simps [OF s] by (simp add: scroll)
  have "redraws s (\<lambda>x' y'. if y' = ?n then blank_char s else cell s x' y') (scroll_terminal t)"
    unfolding eq using assms n redraws_simps [OF s] by (intro blank_line_redraws) simp_all
  then show ?thesis
    by (rule redraws_trans [OF s]) (use redraws_simps [OF s] n(2) in auto)
qed

section \<open>The abstract screen and the refinement\<close>

text \<open>
  What the terminal promises: a list of lines with a cursor. A newline moves to the start of
  the next line; on the last line it drops the first line and appends a blank one. Writing a
  cell at the end of a line wraps to the next line.
\<close>

record screen =
  text_lines :: "u16 list list"
  cursor_x :: nat
  cursor_y :: nat

definition lines_of :: "terminal \<Rightarrow> u16 list list" where
  "lines_of t = map (\<lambda>y. map (\<lambda>x. cell t x y) [0..<width t]) [0..<height t]"

definition screen_of :: "terminal \<Rightarrow> screen" where
  "screen_of t = \<lparr>text_lines = lines_of t, cursor_x = unat (row t), cursor_y = unat (col t)\<rparr>"

definition spec_newline :: "u16 \<Rightarrow> screen \<Rightarrow> screen" where
  "spec_newline blank s =
     (let ls = text_lines s
      in if Suc (cursor_y s) = length ls
         then s\<lparr>text_lines := tl ls @ [replicate (length (hd ls)) blank], cursor_x := 0\<rparr>
         else s\<lparr>cursor_x := 0, cursor_y := Suc (cursor_y s)\<rparr>)"

definition spec_put :: "u16 \<Rightarrow> u16 \<Rightarrow> screen \<Rightarrow> screen" where
  "spec_put blank c s =
     (let ls = text_lines s; x = cursor_x s; y = cursor_y s;
          s' = s\<lparr>text_lines := ls[y := (ls ! y)[x := c]]\<rparr>
      in if Suc x = length (hd ls) then spec_newline blank s' else s'\<lparr>cursor_x := Suc x\<rparr>)"

lemma lines_of_simps [simp]:
  "length (lines_of t) = height t"
  "y < height t \<Longrightarrow> lines_of t ! y = map (\<lambda>x. cell t x y) [0..<width t]"
  "0 < height t \<Longrightarrow> length (hd (lines_of t)) = width t"
  by (simp_all add: lines_of_def hd_map)

lemma lines_of_redraws:
  "redraws t g t' \<Longrightarrow> lines_of t' = map (\<lambda>y. map (\<lambda>x. g x y) [0..<width t]) [0..<height t]"
  using redraws_simps [of t g t'] by (simp add: lines_of_def)

lemma scroll_lines:
  assumes "geometry_ok t"
  shows "lines_of (scroll_terminal t) = tl (lines_of t) @ [replicate (width t) (blank_char t)]"
proof -
  have h: "0 < height t" using assms by (simp add: geometry_ok_def)
  show ?thesis
    unfolding lines_of_redraws [OF scroll_terminal_redraws [OF assms]]
  proof (rule nth_equalityI)
    fix y assume "y < length (map (\<lambda>y. map (\<lambda>x. if Suc y < height t then cell t x (Suc y)
        else blank_char t) [0..<width t]) [0..<height t])"
    then show "map (\<lambda>y. map (\<lambda>x. if Suc y < height t then cell t x (Suc y) else blank_char t)
        [0..<width t]) [0..<height t] ! y =
      (tl (lines_of t) @ [replicate (width t) (blank_char t)]) ! y"
      using h by (cases "Suc y < height t") (auto simp: nth_append nth_tl map_replicate_const)
  qed (use h in simp)
qed

lemma put_at_lines:
  assumes "geometry_ok t" "x < width t" "y < height t"
  shows "lines_of (terminal_put_char_at c (of_nat x) (of_nat y) t) =
           (lines_of t)[y := (lines_of t ! y)[x := c]]"
proof (rule nth_equalityI)
  show "length (lines_of (terminal_put_char_at c (of_nat x) (of_nat y) t)) =
      length ((lines_of t)[y := (lines_of t ! y)[x := c]])" by simp
  fix y' assume "y' < length (lines_of (terminal_put_char_at c (of_nat x) (of_nat y) t))"
  then show "lines_of (terminal_put_char_at c (of_nat x) (of_nat y) t) ! y' =
      (lines_of t)[y := (lines_of t ! y)[x := c]] ! y'"
    using assms by (auto simp: nth_list_update cell_put_at intro!: nth_equalityI)
qed

lemma terminal_ok_simps:
  "terminal_ok t \<Longrightarrow> geometry_ok t"
  "terminal_ok t \<Longrightarrow> unat (row t) < width t"
  "terminal_ok t \<Longrightarrow> unat (col t) < height t"
  by (simp_all add: terminal_ok_def width_def height_def word_less_nat_alt)

lemma same_geometry_updates [simp]:
  "geometry_ok (t\<lparr>row := r\<rparr>) = geometry_ok t" "geometry_ok (t\<lparr>col := k\<rparr>) = geometry_ok t"
  "width (t\<lparr>row := r\<rparr>) = width t" "width (t\<lparr>col := k\<rparr>) = width t"
  "height (t\<lparr>row := r\<rparr>) = height t" "height (t\<lparr>col := k\<rparr>) = height t"
  "lines_of (t\<lparr>row := r\<rparr>) = lines_of t" "lines_of (t\<lparr>col := k\<rparr>) = lines_of t"
  "blank_char (t\<lparr>row := r\<rparr>) = blank_char t" "blank_char (t\<lparr>col := k\<rparr>) = blank_char t"
  "only_screen (t\<lparr>row := r\<rparr>) t' = only_screen t t'" "only_screen (t\<lparr>col := k\<rparr>) t' = only_screen t t'"
  "only_screen t (t'\<lparr>row := r\<rparr>) = only_screen t t'" "only_screen t (t'\<lparr>col := k\<rparr>) = only_screen t t'"
  by (simp_all add: geometry_ok_def width_def height_def lines_of_def cell_def blank_char_def
      only_screen_def same_frame_def)

lemma print_newline_scrolls:
  assumes "terminal_ok t" "col t + 1 = col_max t"
  shows "print_newline t = (scroll_terminal (t\<lparr>row := 0, col := col_max t\<rparr>))\<lparr>col := col t\<rparr>"
proof -
  have "geometry_ok (t\<lparr>row := 0, col := col_max t\<rparr>)" using terminal_ok_simps(1) [OF assms(1)] by simp
  from redraws_simps(9) [OF scroll_terminal_redraws [OF this]]
  have "col (scroll_terminal (t\<lparr>row := 0, col := col_max t\<rparr>)) = col_max t" by simp
  moreover have "col_max t - 1 = col t" unfolding assms(2) [symmetric] by simp
  ultimately show ?thesis by (simp add: print_newline_def Let_def assms(2))
qed

lemma print_newline_ok:
  assumes "terminal_ok t"
  shows "terminal_ok (print_newline t)" "only_screen t (print_newline t)"
    "screen_of (print_newline t) = spec_newline (blank_char t) (screen_of t)"
proof -
  note ok = terminal_ok_simps [OF assms]
  have last: "col t + 1 = col_max t \<longleftrightarrow> Suc (unat (col t)) = height t"
    using assms unat_Suc64 [of "col t" "col_max t"]
    by (metis height_def terminal_ok_def unsigned_word_eqI)
  have "terminal_ok (print_newline t) \<and> only_screen t (print_newline t) \<and>
    screen_of (print_newline t) = spec_newline (blank_char t) (screen_of t)"
  proof (cases "col t + 1 = col_max t")
    case True
    let ?t = "t\<lparr>row := 0, col := col_max t\<rparr>"
    have g: "geometry_ok ?t" using ok by simp
    note r = redraws_simps [OF scroll_terminal_redraws [OF g]]
    have "screen_of (print_newline t) = spec_newline (blank_char t) (screen_of t)"
      using True last ok r scroll_lines [OF g]
      by (simp add: print_newline_scrolls [OF assms] screen_of_def spec_newline_def)
    then show ?thesis
      using True assms ok r g by (auto simp: print_newline_scrolls terminal_ok_def word_gt_0)
  next
    case False
    then have "unat (col t + 1) < height t" "unat (col t + 1) = Suc (unat (col t))"
      using ok last assms unat_Suc64 [of "col t" "col_max t"] by (auto simp: terminal_ok_def)
    then show ?thesis
      using False last assms ok
      by (simp add: print_newline_def Let_def screen_of_def spec_newline_def terminal_ok_def
          word_less_nat_alt height_def)
  qed
  then show "terminal_ok (print_newline t)" "only_screen t (print_newline t)"
    "screen_of (print_newline t) = spec_newline (blank_char t) (screen_of t)" by blast+
qed

lemma row_last_iff:
  assumes "terminal_ok t"
  shows "row t + 1 = row_max t \<longleftrightarrow> Suc (unat (row t)) = width t"
  using assms unat_Suc64 [of "row t" "row_max t"]
  by (metis width_def terminal_ok_def unsigned_word_eqI)

lemma terminal_put_char_ok:
  assumes "terminal_ok t"
  shows "terminal_ok (terminal_put_char c t)" "only_screen t (terminal_put_char c t)"
    "screen_of (terminal_put_char c t) = spec_put (blank_char t) c (screen_of t)"
proof -
  note ok = terminal_ok_simps [OF assms]
  let ?t1 = "terminal_put_char_at c (row t) (col t) t"
  have at: "?t1 = terminal_put_char_at c (of_nat (unat (row t))) (of_nat (unat (col t))) t" by simp
  have t1: "only_screen t ?t1"
    unfolding at using ok by (rule put_at_only_screen)
  have l1: "lines_of ?t1 = (lines_of t)[unat (col t) := (lines_of t ! unat (col t))[unat (row t) := c]]"
    unfolding at using ok by (rule put_at_lines)
  have hd: "length (hd (lines_of t)) = width t" using ok by simp
  have "terminal_ok (terminal_put_char c t) \<and> only_screen t (terminal_put_char c t) \<and>
    screen_of (terminal_put_char c t) = spec_put (blank_char t) c (screen_of t)"
  proof (cases "row t + 1 = row_max t")
    case True
    let ?t2 = "?t1\<lparr>row := 0\<rparr>"
    have ok2: "terminal_ok ?t2" using assms ok by (auto simp: terminal_ok_def word_gt_0)
    have eq: "terminal_put_char c t = print_newline ?t2"
      using True by (simp add: terminal_put_char_def Let_def)
    have "print_newline (?t2\<lparr>row := r\<rparr>) = print_newline ?t2" for r
      by (simp add: print_newline_def Let_def)
    then have "screen_of (print_newline ?t2) = spec_newline (blank_char t) (screen_of ?t1)"
      using print_newline_ok(3) [OF ok2] by (simp add: screen_of_def spec_newline_def Let_def)
    then show ?thesis
      using True row_last_iff [OF assms] l1 hd print_newline_ok(1,2) [OF ok2] t1 only_screen_trans
      by (auto simp: eq screen_of_def spec_put_def Let_def)
  next
    case False
    then have "unat (row t + 1) < width t" "unat (row t + 1) = Suc (unat (row t))"
      using ok row_last_iff [OF assms] assms unat_Suc64 [of "row t" "row_max t"]
      by (auto simp: terminal_ok_def)
    then show ?thesis
      using False row_last_iff [OF assms] assms ok l1 hd t1
      by (simp add: terminal_put_char_def Let_def screen_of_def spec_put_def terminal_ok_def
          word_less_nat_alt width_def)
  qed
  then show "terminal_ok (terminal_put_char c t)" "only_screen t (terminal_put_char c t)"
    "screen_of (terminal_put_char c t) = spec_put (blank_char t) c (screen_of t)" by blast+
qed

section \<open>Character output as an interface\<close>

text \<open>
  What the rest of the kernel relies on when it prints: an operation on the terminal that
  emits one character (or one cell) keeps the terminal well formed and writes nothing
  outside the screen. Whole strings then do the same.
\<close>

locale console =
  fixes emit :: "'c \<Rightarrow> terminal \<Rightarrow> terminal"
  assumes emit_ok: "terminal_ok t \<Longrightarrow> terminal_ok (emit c t)"
    and emit_only_screen: "terminal_ok t \<Longrightarrow> only_screen t (emit c t)"
begin

lemma emits_ok: "terminal_ok t \<Longrightarrow> terminal_ok (fold emit cs t) \<and> only_screen t (fold emit cs t)"
proof (induction cs arbitrary: t)
  case Nil
  then show ?case by simp
next
  case (Cons c cs)
  then have "terminal_ok (emit c t)" "only_screen t (emit c t)"
    using emit_ok emit_only_screen by blast+
  with Cons.IH [of "emit c t"] show ?case using only_screen_trans by auto
qed

end

text \<open>A character as \<open>print_string\<close> and \<open>print_char\<close> emit it: newline is not special.\<close>

definition put_raw :: "char \<Rightarrow> terminal \<Rightarrow> terminal" where
  "put_raw c t = terminal_put_char (make_vga_char (of_char c) (default_color t)) t"

interpretation raw: console put_raw
  by unfold_locales (simp_all add: put_raw_def terminal_put_char_ok)

interpretation cooked: console terminal_print_char
  by unfold_locales (simp_all add: terminal_print_char_def terminal_put_char_ok print_newline_ok)

interpretation cells: console terminal_put_char
  by unfold_locales (simp_all add: terminal_put_char_ok)

lemma fold_nth: "n \<le> length xs \<Longrightarrow> fold (\<lambda>i. f (xs ! i)) [0..<n] s = fold f (take n xs) s"
  by (induction n) (simp_all add: take_Suc_conv_app_nth)

lemma c_string_prefix: "c_string s = take (strlen s) s"
  by (metis c_string_def strlen_def takeWhile_eq_take)

lemma strlen_le: "strlen s \<le> length s"
  by (simp add: strlen_def c_string_def length_takeWhile_le)

lemma print_text_fold: "print_text s = fold terminal_print_char (c_string s)"
proof
  fix t
  have "print_text s t = fold (\<lambda>i. terminal_print_char (s ! i)) [0..<strlen s] t"
    unfolding print_text_def by (intro fold_cong) (simp_all add: fun_eq_iff terminal_print_char_def)
  also have "\<dots> = fold terminal_print_char (c_string s) t"
    using strlen_le [of s] by (simp add: fold_nth c_string_prefix)
  finally show "print_text s t = fold terminal_print_char (c_string s) t" .
qed

lemma print_text_ok: "terminal_ok t \<Longrightarrow> terminal_ok (print_text s t) \<and> only_screen t (print_text s t)"
  by (simp add: print_text_fold cooked.emits_ok)

lemma print_tab_ok: "terminal_ok t \<Longrightarrow> terminal_ok (print_tab t) \<and> only_screen t (print_tab t)"
proof -
  assume ok: "terminal_ok t"
  have "fold (\<lambda>i. terminal_put_char sp) [0..<n] t = fold terminal_put_char (map (\<lambda>i. sp) [0..<n]) t" for sp n
    by (simp add: fold_map comp_def)
  then show ?thesis using ok by (simp add: print_tab_def Let_def print_newline_ok cells.emits_ok)
qed

lemma clear_terminal_redraws:
  assumes "geometry_ok t"
  shows "redraws t (\<lambda>x y. blank_char t) (clear_terminal t)"
proof -
  have "redraws t (\<lambda>x y. if x < width t then blank_char t else cell t x y) (clear_terminal t)"
    unfolding clear_terminal_def width_def [symmetric] height_def [symmetric]
  proof (rule loop_redraws [where g = "\<lambda>n x y. if x < n then blank_char t else cell t x y"])
    fix n s
    assume n: "n < width t" and s: "redraws t (\<lambda>x y. if x < n then blank_char t else cell t x y) s"
    have "redraws s (\<lambda>x' y'. if x' = n then blank_char s else cell s x' y')
        (fold (\<lambda>y t. terminal_put_char_at (blank_char t) (of_nat n) (of_nat y) t) [0..<height s] s)"
      using assms n redraws_simps [OF s] by (intro blank_column_redraws) simp_all
    then show "redraws t (\<lambda>x y. if x < Suc n then blank_char t else cell t x y)
        (fold (\<lambda>y t. terminal_put_char_at (blank_char t) (of_nat n) (of_nat y) t) [0..<height t] s)"
      unfolding redraws_simps(4) [OF s]
      by (rule redraws_trans [OF s]) (use redraws_simps [OF s] in \<open>auto simp: less_Suc_eq\<close>)
  qed (simp add: redraws_refl)
  then show ?thesis by (simp add: redraws_def)
qed

section \<open>Text on a line\<close>

lemma put_raw_within:
  assumes "terminal_ok t" "Suc (unat (row t)) < width t"
  shows "redraws t (\<lambda>x y. if x = unat (row t) \<and> y = unat (col t)
           then make_vga_char (of_char c) (default_color t) else cell t x y)
         (put_raw c t\<lparr>row := row t\<rparr>)"
    and "row (put_raw c t) = row t + 1"
proof -
  let ?v = "make_vga_char (of_char c) (default_color t)"
  have "row t + 1 \<noteq> row_max t" using row_last_iff [OF assms(1)] assms(2) by simp
  then have eq: "put_raw c t = terminal_put_char_at ?v (row t) (col t) t\<lparr>row := row t + 1\<rparr>"
    by (simp add: put_raw_def terminal_put_char_def Let_def)
  then show "row (put_raw c t) = row t + 1" by simp
  have "redraws t (\<lambda>x y. if x = unat (row t) \<and> y = unat (col t) then ?v else cell t x y)
      (terminal_put_char_at ?v (of_nat (unat (row t))) (of_nat (unat (col t))) t)"
    using terminal_ok_simps [OF assms(1)] by (rule put_at_redraws)
  moreover have "put_raw c t\<lparr>row := row t\<rparr> = terminal_put_char_at ?v (row t) (col t) t"
    unfolding eq by (simp add: terminal_put_char_at_def)
  ultimately show "redraws t (\<lambda>x y. if x = unat (row t) \<and> y = unat (col t) then ?v else cell t x y)
      (put_raw c t\<lparr>row := row t\<rparr>)" by simp
qed

text \<open>Text that fits on the current line is written from the cursor on, and nothing else changes.\<close>

lemma put_text_cells:
  assumes "terminal_ok t" "unat (row t) + length cs < width t" "x < width t" "y < height t"
  shows "cell (fold put_raw cs t) x y =
    (if y = unat (col t) \<and> unat (row t) \<le> x \<and> x < unat (row t) + length cs
     then make_vga_char (of_char (cs ! (x - unat (row t)))) (default_color t) else cell t x y)
    \<and> unat (row (fold put_raw cs t)) = unat (row t) + length cs \<and> col (fold put_raw cs t) = col t"
  using assms
proof (induction cs arbitrary: t)
  case Nil
  then show ?case by auto
next
  case (Cons c cs)
  let ?t = "put_raw c t"
  have fit: "Suc (unat (row t)) < width t" using Cons.prems(2) by simp
  note r = put_raw_within [OF Cons.prems(1) fit]
  note g = redraws_simps [OF r(1), simplified]
  have ok: "terminal_ok ?t" using Cons.prems(1) by (rule raw.emit_ok)
  have row: "unat (row ?t) = Suc (unat (row t))"
    using r(2) Cons.prems(1) unat_Suc64 [of "row t" "row_max t"] by (simp add: terminal_ok_def)
  have cell: "cell ?t x' y' = cell (?t\<lparr>row := row t\<rparr>) x' y'" for x' y' by (simp add: cell_def)
  show ?case
    using Cons.IH [OF ok] Cons.prems row g cell [of x y]
    by (auto simp: nth_Cons' le_Suc_eq Suc_le_eq)
qed

lemma clear_terminal_ok:
  assumes "terminal_ok t"
  shows "terminal_ok (clear_terminal t)" "only_screen t (clear_terminal t)"
    "x < width t \<Longrightarrow> y < height t \<Longrightarrow> cell (clear_terminal t) x y = blank_char t"
  using redraws_simps [OF clear_terminal_redraws [OF terminal_ok_simps(1) [OF assms]]] assms
  by (simp_all add: terminal_ok_def)

lemma print_text_line:
  assumes "CHR 0x00 \<notin> set cs" "newline \<notin> set cs"
  shows "print_text (cs @ [newline]) t = print_newline (fold put_raw cs t)"
proof -
  have "c_string (cs @ [newline]) = cs @ [newline]"
    using assms(1) by (auto simp: c_string_def newline_def takeWhile_eq_all_conv)
  moreover have "fold terminal_print_char cs t = fold put_raw cs t"
    using assms(2) by (intro fold_cong) (auto simp: fun_eq_iff terminal_print_char_def put_raw_def)
  ultimately show ?thesis by (simp add: print_text_fold terminal_print_char_def)
qed

lemma print_newline_within:
  assumes "col t + 1 \<noteq> col_max t"
  shows "print_newline t = t\<lparr>row := 0, col := col t + 1\<rparr>"
  using assms by (simp add: print_newline_def)

definition init_message :: string where "init_message = ''Terminal init completed.''"

lemma init_message_facts:
  "CHR 0x00 \<notin> set init_message" "newline \<notin> set init_message" "length init_message = 24"
  by (simp_all add: init_message_def newline_def)

lemma init_terminal_facts:
  defines "b \<equiv> make_vga_char 0x20 0x0A"
  shows "terminal_ok (init_terminal t)" "row (init_terminal t) = 0" "col (init_terminal t) = 1"
    "width (init_terminal t) = 80" "height (init_terminal t) = 25"
    "default_color (init_terminal t) = 0x0A"
    "2000 \<le> unat k \<Longrightarrow> buffer (init_terminal t) k = buffer t k"
    "lines_of (init_terminal t) =
      (map (\<lambda>c. make_vga_char (of_char c) 0x0A) init_message @ replicate 56 b) # replicate 24 (replicate 80 b)"
proof -
  let ?t1 = "t\<lparr>col := 0, row := 0, default_color := 0x0A, color := 0x0A, col_max := COL_MAX, row_max := ROW_MAX\<rparr>"
  let ?c = "clear_terminal ?t1"
  let ?u = "fold put_raw init_message ?c"
  have t1: "terminal_ok ?t1" "width ?t1 = 80" "height ?t1 = 25" "blank_char ?t1 = b"
    by (simp_all add: terminal_ok_def geometry_ok_def width_def height_def COL_MAX_def ROW_MAX_def
        blank_char_def b_def)
  note c = clear_terminal_ok [OF t1(1)]
  note g = redraws_simps [OF clear_terminal_redraws [OF terminal_ok_simps(1) [OF t1(1)]]]
  have os: "only_screen ?t1 ?u" "terminal_ok ?u"
    using raw.emits_ok [OF c(1), of init_message] only_screen_trans [OF c(2)] by blast+
  note gu = only_screen_geometry [OF os(1)]
  have pos: "row ?c = 0" "col ?c = 0" "width ?c = 80" "height ?c = 25" "default_color ?c = 0x0A"
    using g t1 by simp_all
  have cell: "cell ?u x y = (if y = 0 \<and> x < 24 then make_vga_char (of_char (init_message ! x)) 0x0A else b)
      \<and> col ?u = 0" if "x < 80" "y < 25" for x y
    using put_text_cells [OF c(1), of init_message x y] that c(3) [of x y] t1 pos init_message_facts
    by (simp add: pos)
  have "make_vga_color VGA_COLOR_LIGHT_GREEN VGA_COLOR_BLACK = 0x0A" by (simp add: make_vga_color_def)
  then have "init_terminal t = print_newline ?u"
    using print_text_line [OF init_message_facts(1,2), of ?c]
    by (simp add: init_terminal_def Let_def init_message_def)
  also have "\<dots> = ?u\<lparr>row := 0, col := 1\<rparr>"
    using cell [of 0 0] gu by (simp add: print_newline_within COL_MAX_def)
  finally have init: "init_terminal t = ?u\<lparr>row := 0, col := 1\<rparr>" .
  show "row (init_terminal t) = 0" "col (init_terminal t) = 1" unfolding init by simp_all
  show "terminal_ok (init_terminal t)" "width (init_terminal t) = 80" "height (init_terminal t) = 25"
    "default_color (init_terminal t) = 0x0A"
    unfolding init using os t1 gu by (simp_all add: terminal_ok_def COL_MAX_def ROW_MAX_def)
  show "2000 \<le> unat k \<Longrightarrow> buffer (init_terminal t) k = buffer t k"
    unfolding init using os(1) t1(2,3) by (simp add: only_screen_def)
  have "lines_of ?u = map (\<lambda>y. map (\<lambda>x. cell ?u x y) [0..<80]) [0..<25]"
    using gu t1 by (simp add: lines_of_def)
  also have "\<dots> = map (\<lambda>y. map (\<lambda>x. if y = 0 \<and> x < 24
      then make_vga_char (of_char (init_message ! x)) 0x0A else b) [0..<80]) [0..<25]"
    using cell by simp
  also have "\<dots> = (map (\<lambda>c. make_vga_char (of_char c) 0x0A) init_message @ replicate 56 b) #
      replicate 24 (replicate 80 b)"
    using init_message_facts(3)
    by (intro nth_equalityI) (auto simp: nth_Cons' nth_append map_replicate_const intro!: nth_equalityI)
  finally show "lines_of (init_terminal t) =
      (map (\<lambda>c. make_vga_char (of_char c) 0x0A) init_message @ replicate 56 b) # replicate 24 (replicate 80 b)"
    unfolding init by simp
qed

lemma blanks_as_text:
  "terminal_ok t \<Longrightarrow> fold (\<lambda>i. terminal_put_char (blank_char t)) [0..<n] t =
     fold put_raw (replicate n (CHR '' '')) t"
proof (induction n)
  case (Suc n)
  let ?u = "fold put_raw (replicate n (CHR '' '')) t"
  have "blank_char ?u = blank_char t"
    using raw.emits_ok [OF Suc.prems] only_screen_geometry(7) by blast
  then have "terminal_put_char (blank_char t) ?u = put_raw (CHR '' '') ?u"
    by (simp add: put_raw_def blank_char_def)
  moreover have "fold put_raw (replicate (Suc n) (CHR '' '')) t = put_raw (CHR '' '') ?u"
    unfolding replicate_append_same [symmetric] replicate_Suc by simp
  ultimately show ?case using Suc by simp
qed simp

lemma print_tab_within:
  assumes "terminal_ok t" "width t = 80" "4 * (unat (row t) div 4 + 1) < 80"
  shows "unat (row (print_tab t)) = 4 * (unat (row t) div 4 + 1)" "col (print_tab t) = col t"
proof -
  let ?n = "4 - unat (row t) mod 4"
  have sp: "unat (tab_space_num - row t mod tab_space_num) = ?n"
  proof -
    have "unat (row t mod 4) < 4" by (simp add: unat_mod)
    then have "row t mod 4 \<le> 4" by (simp add: word_le_nat_alt)
    then show ?thesis by (simp add: tab_space_num_def unat_sub unat_mod)
  qed
  have fit: "unat (row t) + ?n = 4 * (unat (row t) div 4 + 1)"
    by presburger
  have "\<not> ROW_MAX \<le> (tab_space_num - row t mod tab_space_num) + row t"
    using fit assms(3) sp unat_plus64 [of "tab_space_num - row t mod tab_space_num" "row t"]
    by (simp add: ROW_MAX_def word_le_nat_alt)
  then have "print_tab t = fold put_raw (replicate ?n (CHR '' '')) t"
    using blanks_as_text [OF assms(1)] by (simp add: print_tab_def Let_def sp)
  then show "unat (row (print_tab t)) = 4 * (unat (row t) div 4 + 1)" "col (print_tab t) = col t"
    using put_text_cells [OF assms(1), of "replicate ?n (CHR '' '')" 0 0] assms fit
      terminal_ok_simps [OF assms(1)] by simp_all
qed

section \<open>Properties\<close>

text \<open>A four by two terminal on its last line, for the closed instances of the properties.\<close>

definition sample_terminal :: terminal where
  "sample_terminal = \<lparr>col = 1, row = 3, default_color = 7, color = 7,
     buffer = (\<lambda>k. ucast k), col_max = 2, row_max = 4\<rparr>"

lemma sample_terminal_ok: "terminal_ok sample_terminal"
  by (simp add: terminal_ok_def geometry_ok_def width_def height_def sample_terminal_def)

text \<open>C12. A newline on a well-formed terminal is the newline of the abstract screen: the
  cursor goes to the start of the next line, and on the last line the screen scrolls up by one
  line, dropping the first and appending a blank one.\<close>

theorem newline_refines:
  assumes "terminal_ok t"
  shows "screen_of (print_newline t) = spec_newline (blank_char t) (screen_of t)"
  using assms by (rule print_newline_ok)

theorem newline_refines_witness:
  "text_lines (screen_of (print_newline sample_terminal)) = [[4, 5, 6, 7], [0x720, 0x720, 0x720, 0x720]]"
  unfolding newline_refines [OF sample_terminal_ok]
  by code_simp

text \<open>C20. Writing a cell on a well-formed terminal is the write of the abstract screen: the
  cell under the cursor is replaced, the cursor advances, and at the end of a line it wraps with
  a newline.\<close>

theorem put_char_refines:
  assumes "terminal_ok t"
  shows "screen_of (terminal_put_char c t) = spec_put (blank_char t) c (screen_of t)"
  using assms by (rule terminal_put_char_ok)

theorem put_char_refines_witness:
  "text_lines (screen_of (terminal_put_char 0x741 sample_terminal)) =
     [[4, 5, 6, 0x741], [0x720, 0x720, 0x720, 0x720]]"
  unfolding put_char_refines [OF sample_terminal_ok]
  by code_simp

text \<open>Clearing a well-formed terminal blanks every line, keeps the cursor and writes
  nothing outside the screen.\<close>

theorem clear_terminal_blanks:
  assumes "terminal_ok t"
  shows "lines_of (clear_terminal t) = replicate (height t) (replicate (width t) (blank_char t)) \<and>
    row (clear_terminal t) = row t \<and> col (clear_terminal t) = col t \<and> only_screen t (clear_terminal t)"
  using lines_of_redraws [OF clear_terminal_redraws [OF terminal_ok_simps(1) [OF assms]]]
    redraws_simps [OF clear_terminal_redraws [OF terminal_ok_simps(1) [OF assms]]]
  by (simp add: map_replicate_const)

theorem clear_terminal_blanks_witness:
  "lines_of (clear_terminal sample_terminal) = [[0x720, 0x720, 0x720, 0x720], [0x720, 0x720, 0x720, 0x720]]"
  unfolding conjunct1 [OF clear_terminal_blanks [OF sample_terminal_ok]]
  by code_simp

text \<open>C27. Whatever the video memory held, \<open>init_terminal\<close> leaves a well-formed 80 by 25
  terminal with the cursor on the second line, the message on the first line, every other cell
  blank in light green on black, and memory past the 2000 cells untouched.\<close>

theorem init_terminal_screen:
  "terminal_ok (init_terminal t) \<and>
   screen_of (init_terminal t) = \<lparr>text_lines =
      (map (\<lambda>c. make_vga_char (of_char c) 0x0A) ''Terminal init completed.'' @
         replicate 56 (make_vga_char 0x20 0x0A)) # replicate 24 (replicate 80 (make_vga_char 0x20 0x0A)),
      cursor_x = 0, cursor_y = 1\<rparr> \<and>
   (\<lambda>k. if unat k < 2000 then 0 else buffer (init_terminal t) k) =
   (\<lambda>k. if unat k < 2000 then 0 else buffer t k)"
  using init_terminal_facts [where t = t] by (simp add: screen_of_def init_message_def fun_eq_iff not_less)

text \<open>A tab on an 80-column terminal moves the cursor to the next multiple of four on the
  same line when that is a column of the line, and otherwise to the start of the next line.\<close>

theorem print_tab_stops:
  assumes "terminal_ok t" "width t = 80"
  shows "unat (row (print_tab t)) = (4 * (unat (row t) div 4 + 1)) mod 80"
proof (cases "4 * (unat (row t) div 4 + 1) < 80")
  case True
  then show ?thesis using print_tab_within [OF assms] by simp
next
  case False
  have "unat (row t) < 80" using terminal_ok_simps(2) [OF assms(1)] assms(2) by simp
  with False have d: "unat (row t) div 4 = 19" by simp
  then have "76 \<le> unat (row t)" by presburger
  then have "unat (row t mod 4) < 4" "80 \<le> 4 - unat (row t) mod 4 + unat (row t)"
    using d by (simp_all add: unat_mod) presburger
  then have "ROW_MAX \<le> (tab_space_num - row t mod tab_space_num) + row t"
    using \<open>unat (row t) < 80\<close>
    by (simp add: ROW_MAX_def tab_space_num_def word_le_nat_alt unat_plus64 unat_sub unat_mod)
  then have "print_tab t = print_newline t" by (simp add: print_tab_def Let_def)
  moreover have "cursor_x (screen_of (print_newline t)) = 0"
    unfolding print_newline_ok(3) [OF assms(1)] by (simp add: spec_newline_def Let_def)
  ultimately show ?thesis using d by (simp add: screen_of_def)
qed

theorem print_tab_stops_witness:
  "unat (row (print_tab (init_terminal sample_terminal))) = 4"
  using print_tab_stops [of "init_terminal sample_terminal"] init_terminal_facts [where t = sample_terminal]
  by simp

end
