(* ===== verification/Memory.thy ===== *)
theory Memory
  imports Prelude
begin

text \<open>
  Byte-addressed memory and its little-endian loads and stores, as the C code and the
  inline assembly of an x86-64 kernel see it: a total map from 64-bit addresses to bytes.
  The lemmas say what a load returns after a store, at the same address, at a disjoint
  one, and at another slot of the same 8-byte grid.
\<close>

type_synonym mem = "u64 \<Rightarrow> u8"

fun ld_le :: "nat \<Rightarrow> mem \<Rightarrow> u64 \<Rightarrow> nat" where
  "ld_le 0 m a = 0"
| "ld_le (Suc k) m a = unat (m a) + 256 * ld_le k m (a + 1)"

fun st_le :: "nat \<Rightarrow> nat \<Rightarrow> u64 \<Rightarrow> mem \<Rightarrow> mem" where
  "st_le 0 v a m = m"
| "st_le (Suc k) v a m = st_le k (v div 256) (a + 1) (m(a := of_nat v))"

definition ld32 :: "mem \<Rightarrow> u64 \<Rightarrow> u32" where
  "ld32 m a = of_nat (ld_le 4 m a)"

definition ld64 :: "mem \<Rightarrow> u64 \<Rightarrow> u64" where
  "ld64 m a = of_nat (ld_le 8 m a)"

definition st64 :: "mem \<Rightarrow> u64 \<Rightarrow> u64 \<Rightarrow> mem" where
  "st64 m a v = st_le 8 (unat v) a m"

section \<open>The bytes of an access\<close>

definition span :: "u64 \<Rightarrow> nat \<Rightarrow> u64 set" where
  "span a k = (\<lambda>i. a + of_nat i) ` {..<k}"

lemma span_Suc: "span a (Suc k) = insert a (span (a + 1) k)"
  by (simp add: span_def lessThan_Suc_eq_insert_0 image_image add.assoc)

lemma span_0 [simp]: "span a 0 = {}"
  by (simp add: span_def)

lemma st_le_other: "b \<notin> span a k \<Longrightarrow> st_le k v a m b = m b"
  by (induction k arbitrary: v a m) (auto simp: span_Suc)

lemma ld_le_cong: "(\<And>b. b \<in> span a k \<Longrightarrow> m b = m' b) \<Longrightarrow> ld_le k m a = ld_le k m' a"
  by (induction k arbitrary: a) (auto simp: span_Suc)

lemma not_in_span_Suc: "k < 2 ^ 64 \<Longrightarrow> a \<notin> span (a + 1) k"
proof
  assume k: "k < 2 ^ 64" and "a \<in> span (a + 1) k"
  then obtain i where "a = a + 1 + of_nat i" "i < k" by (auto simp: span_def)
  then have "(of_nat (Suc i) :: u64) = of_nat 0" by (simp add: add.assoc)
  then show False using k \<open>i < k\<close> of_nat64_eq_iff [of "Suc i" 0] by simp
qed

lemma ld_st_le_same: "k < 2 ^ 64 \<Longrightarrow> ld_le k (st_le k v a m) a = v mod 256 ^ k"
proof (induction k arbitrary: v a m)
  case 0
  then show ?case by simp
next
  case (Suc k)
  have "st_le k (v div 256) (a + 1) (m(a := of_nat v)) a = of_nat v"
    using Suc.prems by (simp add: st_le_other not_in_span_Suc)
  moreover have "unat (of_nat v :: u8) = v mod 256"
    by (simp add: unat_of_nat)
  moreover have "v mod 256 + 256 * (v div 256 mod 256 ^ k) = v mod (256 * 256 ^ k)"
    by (simp add: mod_mult2_eq)
  ultimately show ?case using Suc by simp
qed

lemma ld_st_le_other: "span b j \<inter> span a k = {} \<Longrightarrow> ld_le j (st_le k v a m) b = ld_le j m b"
  by (rule ld_le_cong) (auto intro: st_le_other)

section \<open>Loads after stores\<close>

lemma ld64_st64_same [simp, mem_simps]: "ld64 (st64 m a v) a = v"
  using unat64_lt [of v] by (simp add: ld64_def st64_def ld_st_le_same)

definition disj64 :: "u64 \<Rightarrow> u64 \<Rightarrow> bool" where
  "disj64 a b \<longleftrightarrow> span a 8 \<inter> span b 8 = {}"

lemma disj64_sym: "disj64 a b \<longleftrightarrow> disj64 b a"
  by (auto simp: disj64_def)

lemma ld64_st64_other [mem_simps]: "disj64 a b \<Longrightarrow> ld64 (st64 m a v) b = ld64 m b"
  by (simp add: ld64_def st64_def disj64_def ld_st_le_other Int_commute)

lemma st64_byte_other: "b \<notin> span a 8 \<Longrightarrow> st64 m a v b = m b"
  by (simp add: st64_def st_le_other)

lemma ld64_cong: "(\<And>b. b \<in> span a 8 \<Longrightarrow> m b = m' b) \<Longrightarrow> ld64 m a = ld64 m' a"
  by (metis ld64_def ld_le_cong)

lemma span_unat:
  assumes "unat a + k \<le> 2 ^ 64"
  shows "x \<in> span a k \<longleftrightarrow> unat a \<le> unat x \<and> unat x < unat a + k"
proof
  assume "x \<in> span a k"
  then obtain i where i: "x = a + of_nat i" "i < k" by (auto simp: span_def)
  then have "unat (of_nat i :: u64) = i" using assms by (intro unat_of_nat64) simp
  then show "unat a \<le> unat x \<and> unat x < unat a + k"
    using i assms unat_plus64 [of a "of_nat i"] by simp
next
  assume x: "unat a \<le> unat x \<and> unat x < unat a + k"
  then have "x = a + of_nat (unat x - unat a)"
    by simp
  then show "x \<in> span a k" using x by (auto simp: span_def intro!: image_eqI [of _ _ "unat x - unat a"])
qed

lemma disj64_apart:
  assumes "unat a + 8 \<le> unat b \<or> unat b + 8 \<le> unat a" "unat a + 8 \<le> 2 ^ 64" "unat b + 8 \<le> 2 ^ 64"
  shows "disj64 a b"
  unfolding disj64_def using assms span_unat [of a 8] span_unat [of b 8] by auto

text \<open>Two different 8-aligned addresses do not overlap.\<close>

lemma aligned64_fits: "8 dvd unat (a :: u64) \<Longrightarrow> unat a + 8 \<le> 2 ^ 64"
  using unat64_lt [of a] by simp presburger

lemma disj64_aligned:
  assumes "8 dvd unat a" "8 dvd unat b" "a \<noteq> b"
  shows "disj64 a b"
proof (rule disj64_apart)
  have "unat a \<noteq> unat b" using assms(3) unsigned_word_eqI by blast
  then show "unat a + 8 \<le> unat b \<or> unat b + 8 \<le> unat a" using assms(1,2) by presburger
qed (simp_all only: aligned64_fits assms)

lemma ld64_st64_aligned [mem_simps]:
  "8 dvd unat a \<Longrightarrow> 8 dvd unat b \<Longrightarrow>
     ld64 (st64 m a v) b = (if a = b then v else ld64 m b)"
  using ld64_st64_other [OF disj64_aligned] by auto

section \<open>Stores to zero words\<close>

definition st32 :: "mem \<Rightarrow> u64 \<Rightarrow> u32 \<Rightarrow> mem" where
  "st32 m a v = st_le 4 (unat v) a m"

lemma st_le_append: "st_le (j + k) v a m = st_le k (v div 256 ^ j) (a + of_nat j) (st_le j v a m)"
  by (induction j arbitrary: v a m) (simp_all add: div_mult2_eq add.assoc)

lemma st_le_zeros: "(\<And>b. b \<in> span a k \<Longrightarrow> m b = 0) \<Longrightarrow> st_le k 0 a m = m"
  by (induction k arbitrary: a m) (simp_all add: span_Suc fun_upd_idem)

lemma ld_le_zero: "ld_le k m a = 0 \<Longrightarrow> b \<in> span a k \<Longrightarrow> m b = 0"
  by (induction k arbitrary: a) (auto simp: span_Suc unat_eq_zero)

lemma ld_le_bound: "ld_le k m a < 256 ^ k"
proof (induction k arbitrary: a)
  case (Suc k)
  have "unat (m a) < 256" using unsigned_less [of "m a"] by simp
  then show ?case using Suc.IH [of "a + 1"] by simp
qed simp

lemma ld64_zero: "ld64 m a = 0 \<Longrightarrow> b \<in> span a 8 \<Longrightarrow> m b = 0"
proof -
  assume "ld64 m a = 0"
  moreover have "unat (ld64 m a) = ld_le 8 m a" using ld_le_bound [of 8 m a] by (simp add: ld64_def unat_of_nat64)
  ultimately show "b \<in> span a 8 \<Longrightarrow> m b = 0" using ld_le_zero [of 8 m a b] by simp
qed

lemma st64_zero: "ld64 m a = 0 \<Longrightarrow> st64 m a 0 = m"
  using ld64_zero [of m a] by (simp add: st64_def st_le_zeros)

lemma span_halves: "b \<in> span (a + 4) 4 \<Longrightarrow> b \<notin> span a 4 \<and> b \<in> span a 8"
proof -
  assume "b \<in> span (a + 4) 4"
  then obtain i where i: "b = a + of_nat (4 + i)" "i < 4" by (auto simp: span_def add.assoc)
  have "b \<notin> span a 4"
  proof
    assume "b \<in> span a 4"
    then obtain j where "b = a + of_nat j" "j < 4" by (auto simp: span_def)
    then have "(of_nat (4 + i) :: u64) = of_nat j" "j < 4" using i(1) by (metis add_left_cancel)+
    then show False using i(2) of_nat64_eq_iff [of "4 + i" j] by simp
  qed
  then show ?thesis using i by (auto simp: span_def intro!: image_eqI [of _ _ "4 + i"])
qed

text \<open>A 32-bit store to a zero word is the 64-bit store of the zero-extended value.\<close>

lemma st32_blank:
  assumes "ld64 m a = 0"
  shows "st32 m a v = st64 m a (ucast v)"
proof -
  have z: "st_le 4 (unat v) a m b = 0" if "b \<in> span (a + 4) 4" for b
    using span_halves [OF that] ld64_zero [OF assms] by (simp add: st_le_other)
  have "unat v < 2 ^ 32" using unsigned_less [of v] by simp
  then have v: "unat v div 256 ^ 4 = 0" "unat (ucast v :: u64) = unat v"
    by (simp_all add: unsigned_ucast_eq take_bit_nat_eq_self)
  have "st64 m a (ucast v) = st_le (4 + 4) (unat v) a m" by (simp add: st64_def v(2))
  also have "\<dots> = st_le 4 0 (a + 4) (st_le 4 (unat v) a m)" unfolding st_le_append v by simp
  also have "\<dots> = st32 m a v" unfolding st32_def by (rule st_le_zeros [OF z])
  finally show ?thesis ..
qed

section \<open>Evaluation\<close>

text \<open>Loads spelled out, for evaluating them on a concrete memory.\<close>

lemma ld32_bytes: "ld32 m a = of_nat (unat (m a) + 256 * (unat (m (a + 1)) +
    256 * (unat (m (a + 2)) + 256 * unat (m (a + 3)))))"
proof -
  have "(4 :: nat) = Suc (Suc (Suc (Suc 0)))" by simp
  then show ?thesis unfolding ld32_def by (simp only: ld_le.simps) (simp add: add.assoc)
qed

lemma ld64_bytes: "ld64 m a = of_nat (unat (m a) + 256 * (unat (m (a + 1)) + 256 * (unat (m (a + 2)) +
    256 * (unat (m (a + 3)) + 256 * (unat (m (a + 4)) + 256 * (unat (m (a + 5)) +
    256 * (unat (m (a + 6)) + 256 * unat (m (a + 7)))))))))"
proof -
  have "(8 :: nat) = Suc (Suc (Suc (Suc (Suc (Suc (Suc (Suc 0)))))))" by simp
  then show ?thesis unfolding ld64_def by (simp only: ld_le.simps) (simp add: add.assoc)
qed

text \<open>A memory that holds a list of bytes from a base address on, and zeros elsewhere.\<close>

definition bytes_mem :: "u64 \<Rightarrow> u8 list \<Rightarrow> mem" where
  "bytes_mem b bs = (\<lambda>a. if unat (a - b) < length bs then bs ! unat (a - b) else 0)"

text \<open>The little-endian bytes of a 32-bit and of a 64-bit number.\<close>

definition le32 :: "nat \<Rightarrow> u8 list" where
  "le32 n = [of_nat n, of_nat (n div 256), of_nat (n div 256 ^ 2), of_nat (n div 256 ^ 3)]"

definition le64 :: "nat \<Rightarrow> u8 list" where
  "le64 n = le32 n @ le32 (n div 256 ^ 4)"

lemmas load_eval = ld32_bytes ld64_bytes bytes_mem_def le32_def le64_def

end
