(* ===== verification/Printf.thy ===== *)
theory Printf
  imports Terminal Memory
begin

text \<open>
  Formatted output, the second half of src/terminal.c: parsing of a conversion
  specification (\<open>get_flags\<close>, \<open>get_width\<close>, \<open>get_precision\<close>, \<open>get_length_and_specifier\<close>,
  \<open>get_format\<close>), the integer and string printers, and \<open>terminal_printf\<close> itself. A pointer
  into a format string is the suffix it points at; the variadic arguments are the list of
  64-bit argument slots that \<open>va_arg\<close> pops, and \<open>%s\<close> reads its string from memory.
\<close>

section \<open>Conversion specifications\<close>

datatype types =
    T_INT | T_S_CHAR | T_CHAR | T_SHORT_INT | T_LONG_INT | T_LONG_LONG_INT | T_INTMAX_T
  | T_SIZE_T | T_PTRDIFF_T | T_LONG_DOUBLE | T_WINT_T | T_WCHAR_T | T_VOID | T_DOUBLE | T_NO_FORMAT

definition NO_FLAGS :: u32 where "NO_FLAGS = 0x0"
definition LEFT_JUSTIFY :: u32 where "LEFT_JUSTIFY = 0x01"
definition ALWAYS_SHOW_SIGN :: u32 where "ALWAYS_SHOW_SIGN = 0x02"
definition ALWAYS_SHOW_SPACE :: u32 where "ALWAYS_SHOW_SPACE = 0x04"
definition ALWAYS_SHOW_0x_OR_DECIMAL_POINT :: u32 where "ALWAYS_SHOW_0x_OR_DECIMAL_POINT = 0x08"
definition LEFT_PAD_WITH_ZEROS :: u32 where "LEFT_PAD_WITH_ZEROS = 0x10"

definition FORMAT_ARG_SPECIFIED :: int where "FORMAT_ARG_SPECIFIED = -2"

record printf_format =
  pf_flags :: u32
  pf_width :: int
  pf_precision :: int
  pf_type :: types
  pf_unsigned :: bool
  pf_pointer :: bool
  pf_specifier :: char

text \<open>\<open>str[i]\<close>: the character, or the terminating NUL at the end.\<close>

definition char_at :: "string \<Rightarrow> nat \<Rightarrow> char" where
  "char_at s i = (if i < length s then s ! i else CHR 0x00)"

definition get_flags :: "printf_format \<Rightarrow> string \<Rightarrow> nat \<times> printf_format" where
  "get_flags f str =
     (let f0 = f\<lparr>pf_flags := NO_FLAGS\<rparr>; c = char_at str 0;
          hit = (\<lambda>fl. (1, f0\<lparr>pf_flags := pf_flags f0 OR fl\<rparr>))
      in if c = CHR ''-'' then hit LEFT_JUSTIFY
         else if c = CHR ''+'' then hit ALWAYS_SHOW_SIGN
         else if c = CHR '' '' then hit ALWAYS_SHOW_SPACE
         else if c = CHR ''#'' then hit ALWAYS_SHOW_0x_OR_DECIMAL_POINT
         else if c = CHR ''0'' then hit LEFT_PAD_WITH_ZEROS
         else (0, f0))"

definition is_digit :: "char \<Rightarrow> bool" where
  "is_digit c \<longleftrightarrow> 48 \<le> (of_char c :: nat) \<and> (of_char c :: nat) \<le> 57"

text \<open>The loop of \<open>read_decimal\<close>; \<open>int\<close> overflow in it is undefined behaviour.\<close>

function read_decimal_loop :: "string \<Rightarrow> nat \<Rightarrow> int \<Rightarrow> int \<Rightarrow> (int \<times> nat) out" where
  "read_decimal_loop str i d pw =
     (if i < length str \<and> is_digit (char_at str i) then
        (let dig = pw * (int (of_char (char_at str i)) - 48)
         in if int32_ok dig \<and> int32_ok (d + dig) \<and> int32_ok (pw * 10)
            then read_decimal_loop str (i + 1) (d + dig) (pw * 10)
            else fail Undefined_behaviour)
      else ret (d, i))"
  by pat_completeness auto
termination
  by (relation "measure (\<lambda>(str, i, d, p). length str - i)") auto

definition read_decimal :: "string \<Rightarrow> nat \<Rightarrow> (int \<times> nat) out" where
  "read_decimal str pos = read_decimal_loop str pos 0 1"

definition get_width :: "printf_format \<Rightarrow> string \<Rightarrow> (nat \<times> printf_format) out" where
  "get_width f str =
     (if char_at str 0 = CHR ''*'' then ret (1, f\<lparr>pf_width := FORMAT_ARG_SPECIFIED\<rparr>)
      else obind (read_decimal str 0) (\<lambda>(spec, i). ret (i, f\<lparr>pf_width := spec\<rparr>)))"

text \<open>
  \<open>get_precision\<close> calls \<open>read_decimal(&str[i], &i)\<close> with \<open>i = 1\<close>, so that reading starts at
  position 1 of the suffix that already starts after the dot: the first digit is skipped.
  After a star, \<open>FORMAT_ARG_SPECIFIED\<close> is stored and then overwritten.
\<close>

definition get_precision :: "printf_format \<Rightarrow> string \<Rightarrow> (nat \<times> printf_format) out" where
  "get_precision f str =
     (if char_at str 0 \<noteq> CHR ''.'' then ret (0, f\<lparr>pf_precision := 0\<rparr>)
      else (let f1 = (if char_at str 1 = CHR ''*'' then f\<lparr>pf_precision := FORMAT_ARG_SPECIFIED\<rparr> else f)
            in obind (read_decimal (drop 1 str) 1)
                 (\<lambda>(p, i). ret (i, f1\<lparr>pf_precision := p\<rparr>))))"

definition get_length :: "string \<Rightarrow> nat \<times> types" where
  "get_length str =
     (let c = char_at str 0
      in if c = CHR ''h'' then (if char_at str 1 = CHR ''h'' then (2, T_S_CHAR) else (1, T_SHORT_INT))
         else if c = CHR ''l'' then (if char_at str 1 = CHR ''l'' then (2, T_LONG_LONG_INT) else (1, T_LONG_INT))
         else if c = CHR ''j'' then (1, T_INTMAX_T)
         else if c = CHR ''z'' then (1, T_SIZE_T)
         else if c = CHR ''t'' then (1, T_PTRDIFF_T)
         else if c = CHR ''L'' then (1, T_LONG_DOUBLE)
         else (0, T_INT))"

definition get_specifier :: "printf_format \<Rightarrow> char \<Rightarrow> printf_format out" where
  "get_specifier f0 c =
     (let f = f0\<lparr>pf_unsigned := False, pf_pointer := False\<rparr>
      in if c \<in> set ''di'' then
           obind (assert_c (pf_type f \<noteq> T_LONG_DOUBLE) ''format->type != LONG_DOUBLE'') (\<lambda>_. ret f)
         else if c \<in> set ''uoxX'' then ret (f\<lparr>pf_unsigned := True\<rparr>)
         else if c \<in> set ''fFeEgGaA'' then
           obind (assert_c (pf_type f = T_LONG_DOUBLE \<or> pf_type f = T_INT)
               ''format->type == LONG_DOUBLE || format->type == INT'')
             (\<lambda>_. ret (if pf_type f = T_INT then f\<lparr>pf_type := T_DOUBLE\<rparr> else f))
         else if c = CHR ''c'' then
           obind (assert_c (pf_type f = T_LONG_INT \<or> pf_type f = T_INT)
               ''format->type == LONG_INT || format->type == INT'')
             (\<lambda>_. ret (if pf_type f = T_LONG_INT then f\<lparr>pf_type := T_WINT_T\<rparr> else f))
         else if c = CHR ''s'' then
           (let f1 = f\<lparr>pf_pointer := True\<rparr>
            in obind (assert_c (pf_type f1 = T_LONG_INT \<or> pf_type f1 = T_INT)
                 ''format->type == LONG_INT || format->type == INT'')
                 (\<lambda>_. ret (f1\<lparr>pf_type := (if pf_type f1 = T_INT then T_CHAR else T_WCHAR_T)\<rparr>)))
         else if c = CHR ''p'' then
           (let f1 = f\<lparr>pf_pointer := True\<rparr>
            in obind (assert_c (pf_type f1 = T_INT) ''format->type == INT'')
                 (\<lambda>_. ret (f1\<lparr>pf_type := T_VOID\<rparr>)))
         else if c = CHR ''n'' then
           obind (assert_c (pf_type f \<noteq> T_LONG_DOUBLE) ''format->type != LONG_DOUBLE'')
             (\<lambda>_. obind (assert_c False ''0!=0'') (\<lambda>_. ret (f\<lparr>pf_pointer := True\<rparr>)))
         else obind (assert_c False ''0!=0'') (\<lambda>_. ret f))"

definition get_length_and_specifier :: "printf_format \<Rightarrow> string \<Rightarrow> (nat \<times> printf_format) out" where
  "get_length_and_specifier f str =
     (let (i, ty) = get_length str
      in obind (get_specifier (f\<lparr>pf_type := ty\<rparr>) (char_at str i))
           (\<lambda>f'. ret (i, f'\<lparr>pf_specifier := char_at str i\<rparr>)))"

text \<open>
  The asserts that \<open>get_format\<close> makes on the returned offsets (\<open>!= -1\<close>) hold because every
  offset is a \<open>nat\<close> here and no parser of the code returns a negative one.
\<close>

definition get_format :: "printf_format \<Rightarrow> string \<Rightarrow> (nat \<times> printf_format) out" where
  "get_format f0 str =
     (let (i1, f1) = get_flags f0 str
      in obind (get_width f1 (drop i1 str)) (\<lambda>(r2, f2). let i2 = i1 + r2
      in obind (get_precision f2 (drop i2 str)) (\<lambda>(r3, f3). let i3 = i2 + r3
      in obind (get_length_and_specifier f3 (drop i3 str)) (\<lambda>(r4, f4). ret (i3 + r4, f4)))))"

section \<open>Printing values\<close>

text \<open>
  The digit loop of \<open>print_integer_as_hex\<close>: it fills \<open>buf\<close> from index 15 downwards.
  A store outside the 17 characters is a fault.
\<close>

definition hex_offset :: "char \<Rightarrow> nat" where
  "hex_offset sp = (if sp = CHR ''X'' then 0x37 else 0x57)"

definition hex_char :: "char \<Rightarrow> nat \<Rightarrow> char" where
  "hex_char sp d = char_of (if d < 10 then d + 0x30 else d + hex_offset sp)"

function hex_loop :: "char \<Rightarrow> u64 \<Rightarrow> int \<Rightarrow> string \<Rightarrow> string out" where
  "hex_loop sp num i buf =
     (if num > 0 then
        (if 0 \<le> i \<and> i < int (length buf)
         then hex_loop sp (drop_bit 4 num) (i - 1) (buf[nat i := hex_char sp (unat (num mod 16))])
         else fail Out_of_bounds)
      else ret buf)"
  by pat_completeness auto
termination
proof (relation "measure (\<lambda>(sp, num, i, buf). unat num)", goal_cases)
  case (2 sp num i buf)
  then have "unat (drop_bit 4 num) < unat num"
    by (simp add: drop_bit_eq_div unat_div word_gt_0 unat_gt_0)
  then show ?case by simp
qed simp

function first_nonzero :: "string \<Rightarrow> nat \<Rightarrow> nat" where
  "first_nonzero buf i = (if i < 16 \<and> char_at buf i = CHR ''0'' then first_nonzero buf (Suc i) else i)"
  by pat_completeness auto
termination
  by (relation "measure (\<lambda>(buf, i). 16 - i)") auto

definition print_integer_as_hex :: "printf_format \<Rightarrow> u64 \<Rightarrow> terminal \<Rightarrow> terminal out" where
  "print_integer_as_hex f num t =
     obind (hex_loop (pf_specifier f) num 15 (replicate 16 (CHR ''0'') @ [CHR 0x00])) (\<lambda>buf.
       if \<not> int32_ok (15 - pf_width f) then fail Undefined_behaviour
       else (let i = min (int (first_nonzero buf 0)) (15 - pf_width f);
                 t1 = (if pf_flags f AND ALWAYS_SHOW_0x_OR_DECIMAL_POINT \<noteq> 0
                       then print_text (if pf_specifier f = CHR ''X'' then ''0X'' else ''0x'') t else t)
             in if i < 0 then fail Out_of_bounds
                else ret (print_text (drop (nat i) buf) t1)))"

definition print_integer_as_decimal :: "printf_format \<Rightarrow> u64 \<Rightarrow> terminal \<Rightarrow> terminal out" where
  "print_integer_as_decimal f num t = ret t"

definition print_integer :: "printf_format \<Rightarrow> u64 \<Rightarrow> terminal \<Rightarrow> terminal out" where
  "print_integer f num t =
     (if pf_specifier f = CHR ''X'' \<or> pf_specifier f = CHR ''x''
      then print_integer_as_hex f num t else print_integer_as_decimal f num t)"

definition print_unsigned_int :: "printf_format \<Rightarrow> u64 \<Rightarrow> terminal \<Rightarrow> terminal out" where
  "print_unsigned_int f n t = print_integer f n t"

definition print_signed_int :: "printf_format \<Rightarrow> u64 \<Rightarrow> terminal \<Rightarrow> terminal out" where
  "print_signed_int f n t = print_integer f n t"

definition print_short_int :: "printf_format \<Rightarrow> u16 \<Rightarrow> terminal \<Rightarrow> terminal out" where
  "print_short_int f n t = print_integer f (scast n) t"

definition print_char :: "printf_format \<Rightarrow> u8 \<Rightarrow> terminal \<Rightarrow> terminal out" where
  "print_char f c t = ret (terminal_put_char (make_vga_char c (default_color t)) t)"

text \<open>The printers of 64-bit types, and those with an empty body; \<open>double\<close> arguments have no model.\<close>

definition print_long_int :: "printf_format \<Rightarrow> u64 \<Rightarrow> terminal \<Rightarrow> terminal out" where
  "print_long_int f n t = print_integer f n t"

definition print_long_long_int :: "printf_format \<Rightarrow> u64 \<Rightarrow> terminal \<Rightarrow> terminal out" where
  "print_long_long_int f n t = print_integer f n t"

definition print_intmax_t :: "printf_format \<Rightarrow> u64 \<Rightarrow> terminal \<Rightarrow> terminal out" where
  "print_intmax_t f n t = print_integer f n t"

definition print_size_t :: "printf_format \<Rightarrow> u64 \<Rightarrow> terminal \<Rightarrow> terminal out" where
  "print_size_t f n t = print_integer f n t"

definition print_ptrdiff_t :: "printf_format \<Rightarrow> u64 \<Rightarrow> terminal \<Rightarrow> terminal out" where
  "print_ptrdiff_t f n t = print_integer f n t"

definition print_wchar_t :: "printf_format \<Rightarrow> u32 \<Rightarrow> terminal \<Rightarrow> terminal out" where
  "print_wchar_t f n t = ret t"

definition print_long_double :: "printf_format \<Rightarrow> terminal \<Rightarrow> terminal out" where
  "print_long_double f t = ret t"

definition print_double :: "printf_format \<Rightarrow> terminal \<Rightarrow> terminal out" where
  "print_double f t = ret t"

lemmas long_printers = print_long_int_def print_long_long_int_def print_intmax_t_def print_size_t_def print_ptrdiff_t_def

partial_function (option) print_string :: "mem \<Rightarrow> u64 \<Rightarrow> terminal \<Rightarrow> terminal out" where
  "print_string m p t =
     (if m p = 0 then ret t
      else print_string m (p + 1) (terminal_put_char (make_vga_char (m p) (default_color t)) t))"

declare print_string.simps [code]

section \<open>terminal_printf\<close>

text \<open>
  \<open>va_arg\<close> on an integer type pops the next 64-bit slot; popping more arguments than were
  passed is undefined. Floating-point arguments are not in these slots (they are passed in
  other registers) and the code prints nothing for them.
\<close>

definition va_arg :: "u64 list \<Rightarrow> (u64 \<times> u64 list) out" where
  "va_arg args = (case args of [] \<Rightarrow> fail Undefined_behaviour | a # as \<Rightarrow> ret (a, as))"

definition as_uint :: "u64 \<Rightarrow> u64" where "as_uint a = ucast (ucast a :: u32)"
definition as_int :: "u64 \<Rightarrow> u64" where "as_int a = scast (ucast a :: u32)"
definition as_short :: "u64 \<Rightarrow> u16" where "as_short a = ucast a"

definition star_width :: "printf_format \<Rightarrow> u64 list \<Rightarrow> (printf_format \<times> u64 list) out" where
  "star_width f args =
     (if pf_width f = FORMAT_ARG_SPECIFIED
      then obind (va_arg args) (\<lambda>(a, as). ret (f\<lparr>pf_width := sint (ucast a :: u32)\<rparr>, as))
      else ret (f, args))"

definition star_precision :: "printf_format \<Rightarrow> u64 list \<Rightarrow> (printf_format \<times> u64 list) out" where
  "star_precision f args =
     (if pf_precision f = FORMAT_ARG_SPECIFIED
      then obind (va_arg args) (\<lambda>(a, as). ret (f\<lparr>pf_precision := sint (ucast a :: u32)\<rparr>, as))
      else ret (f, args))"

text \<open>The \<open>switch(format.type)\<close>: the remaining arguments and the terminal after it.\<close>

definition with_arg :: "(u64 \<Rightarrow> terminal out) \<Rightarrow> u64 list \<Rightarrow> (u64 list \<times> terminal) out" where
  "with_arg pr args = obind (va_arg args) (\<lambda>(a, as). obind (pr a) (\<lambda>t'. ret (as, t')))"

definition print_arg ::
  "mem \<Rightarrow> printf_format \<Rightarrow> u64 list \<Rightarrow> terminal \<Rightarrow> (u64 list \<times> terminal) out" where
  "print_arg m f args t =
     (case pf_type f of
        T_NO_FORMAT \<Rightarrow> ret (args, t)
      | T_INT \<Rightarrow> (if pf_unsigned f then with_arg (\<lambda>a. print_unsigned_int f (as_uint a) t) args
                  else with_arg (\<lambda>a. print_signed_int f (as_int a) t) args)
      | T_S_CHAR \<Rightarrow> ret (args, t)
      | T_CHAR \<Rightarrow> (if pf_pointer f then with_arg (\<lambda>a. print_string m (as_int a) t) args
                   else with_arg (\<lambda>a. print_char f (ucast a) t) args)
      | T_SHORT_INT \<Rightarrow> with_arg (\<lambda>a. print_short_int f (as_short a) t) args
      | T_LONG_INT \<Rightarrow> with_arg (\<lambda>a. print_long_int f a t) args
      | T_LONG_LONG_INT \<Rightarrow> with_arg (\<lambda>a. print_long_long_int f a t) args
      | T_INTMAX_T \<Rightarrow> with_arg (\<lambda>a. print_intmax_t f a t) args
      | T_SIZE_T \<Rightarrow> with_arg (\<lambda>a. print_size_t f a t) args
      | T_PTRDIFF_T \<Rightarrow> with_arg (\<lambda>a. print_ptrdiff_t f a t) args
      | T_LONG_DOUBLE \<Rightarrow> obind (print_long_double f t) (\<lambda>t'. ret (args, t'))
      | T_WINT_T \<Rightarrow> ret (args, t)
      | T_WCHAR_T \<Rightarrow> with_arg (\<lambda>a. print_wchar_t f (ucast a) t) args
      | T_DOUBLE \<Rightarrow> obind (print_double f t) (\<lambda>t'. ret (args, t'))
      | T_VOID \<Rightarrow> fail (Assert_failed ''0!=0''))"

definition format_init :: printf_format where
  "format_init = \<lparr>pf_flags = 0, pf_width = 0, pf_precision = 0, pf_type = T_INT,
     pf_unsigned = False, pf_pointer = False, pf_specifier = CHR 0x00\<rparr>"

text \<open>A conversion: parse it, take starred width and precision, print the argument.\<close>

definition convert :: "mem \<Rightarrow> string \<Rightarrow> u64 list \<Rightarrow> terminal \<Rightarrow> (nat \<times> u64 list \<times> terminal) out" where
  "convert m str args t =
     obind (get_format format_init str) (\<lambda>(n, f).
     obind (star_width f args) (\<lambda>(f1, args1).
     obind (star_precision f1 args1) (\<lambda>(f2, args2).
     obind (print_arg m f2 args2 t) (\<lambda>(args3, t'). ret (n, args3, t')))))"

definition print_plain :: "char \<Rightarrow> terminal \<Rightarrow> terminal" where
  "print_plain c t =
     (if c = newline then print_newline t
      else if c = CHR 0x09 then print_tab t
      else put_raw c t)"

function printf_loop :: "mem \<Rightarrow> string \<Rightarrow> nat \<Rightarrow> u64 list \<Rightarrow> terminal \<Rightarrow> terminal out" where
  "printf_loop m str i args t =
     (if i < strlen str then
        (if char_at str i = CHR 0x5C then
           printf_loop m str (i + 2) args (print_plain (char_at str (i + 1)) t)
         else if char_at str i = CHR ''%'' then
           (if char_at str (i + 1) \<noteq> CHR ''%'' then
              obind (convert m (drop (i + 1) str) args t)
                (\<lambda>(n, args', t'). printf_loop m str (i + 1 + n + 1) args' t')
            else printf_loop m str (i + 2) args (print_plain (char_at str (i + 1)) t))
         else printf_loop m str (i + 1) args (print_plain (char_at str i) t))
      else ret t)"
  by pat_completeness auto
termination
  by (relation "measure (\<lambda>(m, str, i, args, t). strlen str - i)") auto

definition terminal_printf :: "mem \<Rightarrow> string \<Rightarrow> u64 list \<Rightarrow> terminal \<Rightarrow> terminal out" where
  "terminal_printf m str args t = printf_loop m str 0 args t"

declare read_decimal_loop.simps [simp del] hex_loop.simps [simp del] first_nonzero.simps [simp del]
  printf_loop.simps [simp del]

section \<open>Hexadecimal output\<close>

text \<open>The digits a number should be printed with (none for zero), and what digits denote.\<close>

fun hex_digits :: "char \<Rightarrow> nat \<Rightarrow> string" where
  "hex_digits sp n = (if n = 0 then [] else hex_digits sp (n div 16) @ [hex_char sp (n mod 16)])"

definition hex_digit_value :: "char \<Rightarrow> nat" where
  "hex_digit_value c =
     (if is_digit c then of_char c - 48
      else if 97 \<le> (of_char c :: nat) then of_char c - 87 else of_char c - 55)"

definition hex_value :: "string \<Rightarrow> nat" where
  "hex_value s = foldl (\<lambda>v c. 16 * v + hex_digit_value c) 0 s"

declare hex_digits.simps [simp del]

lemma hex_digits_0 [simp]: "hex_digits sp 0 = []"
  by (simp add: hex_digits.simps)

lemma hex_digits_pos: "0 < n \<Longrightarrow> hex_digits sp n = hex_digits sp (n div 16) @ [hex_char sp (n mod 16)]"
  by (simp add: hex_digits.simps)

lemma of_hex_char: "d < 16 \<Longrightarrow> of_char (hex_char sp d) = (if d < 10 then d + 48 else d + hex_offset sp)"
  by (simp add: hex_char_def hex_offset_def)

lemma hex_char_value: "d < 16 \<Longrightarrow> hex_digit_value (hex_char sp d) = d"
  by (simp add: hex_digit_value_def is_digit_def of_hex_char hex_offset_def)

lemma hex_char_zero: "d < 16 \<Longrightarrow> hex_char sp d = CHR ''0'' \<longleftrightarrow> d = 0"
  by (simp add: hex_char_def char_of_eq_iff take_bit_eq_mod hex_offset_def)

lemma hex_char_not_NUL: "d < 16 \<Longrightarrow> hex_char sp d \<noteq> CHR 0x00"
  using of_hex_char [of d sp] by (auto split: if_splits)

lemma hex_value_digits: "hex_value (hex_digits sp n) = n"
proof (induction n rule: less_induct)
  case (less n)
  show ?case
  proof (cases "n = 0")
    case False
    then have "hex_value (hex_digits sp (n div 16)) = n div 16" by (intro less) simp
    then show ?thesis using False by (simp add: hex_digits_pos hex_value_def hex_char_value)
  qed (simp add: hex_value_def)
qed

lemma hex_value_zeros: "hex_value (replicate k (CHR ''0'') @ s) = hex_value s"
  by (induction k) (simp_all add: hex_value_def hex_digit_value_def is_digit_def)

lemma hex_digits_length: "n < 16 ^ k \<Longrightarrow> length (hex_digits sp n) \<le> k"
proof (induction k arbitrary: n)
  case (Suc k)
  then have "length (hex_digits sp (n div 16)) \<le> k" by (intro Suc.IH) (simp add: less_mult_imp_div_less)
  then show ?case by (cases "n = 0") (simp_all add: hex_digits_pos)
qed simp

lemma hex_digits_not_NUL: "c \<in> set (hex_digits sp n) \<Longrightarrow> c \<noteq> CHR 0x00"
proof (induction n rule: less_induct)
  case (less n)
  then show ?case using hex_char_not_NUL [of "n mod 16" sp] less.IH [of "n div 16"]
    by (cases "n = 0") (auto simp: hex_digits_pos [of n])
qed

lemma hex_digits_hd: "0 < n \<Longrightarrow> hex_digits sp n \<noteq> [] \<and> hd (hex_digits sp n) \<noteq> CHR ''0''"
proof (induction n rule: less_induct)
  case (less n)
  show ?case
  proof (cases "n div 16 = 0")
    case True
    then have "n < 16" by simp
    then show ?thesis using less.prems by (simp add: hex_digits_pos hex_char_zero)
  next
    case False
    then show ?thesis using less.IH [of "n div 16"] less.prems by (simp add: hex_digits_pos [of n] hd_append)
  qed
qed

text \<open>The loop writes exactly the digits, right-justified, and never leaves the buffer.\<close>

lemma hex_loop_digits:
  assumes "unat num < 16 ^ k" "k \<le> length buf"
  shows "hex_loop sp num (int k - 1) buf =
    ret (take (k - length (hex_digits sp (unat num))) buf @ hex_digits sp (unat num) @ drop k buf)"
  using assms
proof (induction k arbitrary: num buf)
  case 0
  then have "num = 0" by (simp add: unat_eq_zero)
  then show ?case by (simp add: hex_loop.simps)
next
  case (Suc k)
  show ?case
  proof (cases "num = 0")
    case True
    then show ?thesis by (simp add: hex_loop.simps)
  next
    case False
    let ?num = "drop_bit 4 num" and ?c = "hex_char sp (unat (num mod 16))"
    have div: "unat ?num = unat num div 16" by (simp add: drop_bit_eq_div unat_div)
    have lt: "unat ?num < 16 ^ k" using Suc.prems(1) by (simp add: div less_mult_imp_div_less)
    have len: "length (hex_digits sp (unat ?num)) \<le> k" using lt by (rule hex_digits_length)
    have "hex_loop sp num (int (Suc k) - 1) buf = hex_loop sp ?num (int k - 1) (buf[k := ?c])"
      using False Suc.prems(2) by (subst hex_loop.simps) (simp add: word_gt_0)
    also have "\<dots> = ret (take (k - length (hex_digits sp (unat ?num))) buf @
        hex_digits sp (unat ?num) @ ?c # drop (Suc k) buf)"
      using Suc.prems(2) lt
      by (simp add: Suc.IH take_update_cancel drop_update_swap Cons_nth_drop_Suc [symmetric])
    also have "\<dots> = ret (take (Suc k - length (hex_digits sp (unat num))) buf @
        hex_digits sp (unat num) @ drop (Suc k) buf)"
      using False len by (simp add: hex_digits_pos div unat_gt_0 unat_mod)
    finally show ?thesis .
  qed
qed

lemma first_nonzero_skip:
  assumes "k \<le> 16" "\<And>i. i < k \<Longrightarrow> char_at buf i = CHR ''0''" "k < 16 \<Longrightarrow> char_at buf k \<noteq> CHR ''0''" "j \<le> k"
  shows "first_nonzero buf j = k"
  using assms(4)
proof (induction "k - j" arbitrary: j)
  case 0
  then show ?case using assms by (subst first_nonzero.simps) auto
next
  case (Suc n)
  then show ?case using assms by (subst first_nonzero.simps) simp
qed

definition hex_prefix :: "printf_format \<Rightarrow> string" where
  "hex_prefix f = (if pf_flags f AND ALWAYS_SHOW_0x_OR_DECIMAL_POINT = 0 then []
     else if pf_specifier f = CHR ''X'' then ''0X'' else ''0x'')"

text \<open>The text \<open>print_integer_as_hex\<close> should put on the screen: at least \<open>width + 1\<close> digits.\<close>

definition hex_text :: "printf_format \<Rightarrow> nat \<Rightarrow> string" where
  "hex_text f n = (let ds = hex_digits (pf_specifier f) n
     in replicate (nat (pf_width f) + 1 - length ds) (CHR ''0'') @ ds)"

lemma c_string_noNUL [simp]: "CHR 0x00 \<notin> set s \<Longrightarrow> c_string s = s"
  by (auto simp: c_string_def takeWhile_eq_all_conv)

lemma c_string_terminated [simp]: "CHR 0x00 \<notin> set s \<Longrightarrow> c_string (s @ CHR 0x00 # r) = s"
  by (induction s) (auto simp: c_string_def)

lemma print_text_append:
  "CHR 0x00 \<notin> set a \<Longrightarrow> CHR 0x00 \<notin> set b \<Longrightarrow> print_text b (print_text a t) = print_text (a @ b) t"
  by (simp add: print_text_fold)

lemma hex_text_noNUL: "CHR 0x00 \<notin> set (hex_text f n)"
  using hex_digits_not_NUL by (auto simp: hex_text_def Let_def)

lemma hex_text_value: "hex_value (hex_text f n) = n"
  by (simp add: hex_text_def Let_def hex_value_zeros hex_value_digits)

lemma print_integer_as_hex_text:
  assumes "0 \<le> pf_width f" "pf_width f \<le> 15"
  shows "print_integer_as_hex f num t = ret (print_text (hex_prefix f @ hex_text f (unat num)) t)"
proof -
  let ?ds = "hex_digits (pf_specifier f) (unat num)" and ?z = "CHR ''0''"
  let ?k = "16 - length ?ds" and ?w = "nat (pf_width f)"
  let ?buf = "replicate ?k ?z @ ?ds @ [CHR 0x00]"
  have len: "length ?ds \<le> 16" using unat64_lt [of num] by (intro hex_digits_length) simp
  have loop: "hex_loop (pf_specifier f) num 15 (replicate 16 ?z @ [CHR 0x00]) = ret ?buf"
    using hex_loop_digits [of num 16 "replicate 16 ?z @ [CHR 0x00]" "pf_specifier f"] unat64_lt [of num]
    by (simp add: min_def)
  have "?ds \<noteq> [] \<Longrightarrow> hd ?ds \<noteq> ?z"
    using hex_digits_hd [of "unat num" "pf_specifier f"] by (cases "unat num = 0") simp_all
  then have "first_nonzero ?buf 0 = ?k"
    using len
    by (intro first_nonzero_skip)
      (auto simp: char_at_def nth_append hd_conv_nth not_less intro: Suc_leI)
  then have i: "min (int (first_nonzero ?buf 0)) (15 - pf_width f) = int (min ?k (15 - ?w))"
    using assms len by (simp only:)
  have drop: "drop (min ?k (15 - ?w)) ?buf = hex_text f (unat num) @ [CHR 0x00]"
    using len assms by (simp add: hex_text_def Let_def min_def)
  have "int32_ok (15 - pf_width f)" using assms by (simp add: int32_ok_def)
  then have "print_integer_as_hex f num t =
      ret (print_text (hex_text f (unat num) @ [CHR 0x00]) (print_text (hex_prefix f) t))"
    unfolding print_integer_as_hex_def loop obind_simps Let_def i nat_int drop
    by (simp add: hex_prefix_def print_text_fold)
  also have "\<dots> = ret (print_text (hex_prefix f @ hex_text f (unat num)) t)"
    using hex_text_noNUL [of f "unat num"]
    by (simp add: print_text_fold hex_prefix_def)
  finally show ?thesis .
qed

text \<open>A width above 15 makes the code read in front of its 17-character buffer.\<close>

lemma print_integer_as_hex_wide:
  assumes "15 < pf_width f" "pf_width f < 2 ^ 31"
  shows "print_integer_as_hex f num t = fail Out_of_bounds"
proof -
  obtain buf where "hex_loop (pf_specifier f) num 15 (replicate 16 (CHR ''0'') @ [CHR 0x00]) = ret buf"
    using hex_loop_digits [of num 16 "replicate 16 (CHR ''0'') @ [CHR 0x00]" "pf_specifier f"] unat64_lt [of num]
    by simp
  then show ?thesis
    using assms by (simp add: print_integer_as_hex_def Let_def int32_ok_def min_def)
qed

section \<open>Formats without conversions\<close>

text \<open>Printing a string that holds no conversion and no backslash is printing its characters.\<close>

definition plain :: "string \<Rightarrow> bool" where
  "plain s \<longleftrightarrow> (\<forall>c \<in> set s. c \<noteq> CHR ''%'' \<and> c \<noteq> CHR 0x5C \<and> c \<noteq> CHR 0x00)"

lemma strlen_plain: "plain s \<Longrightarrow> strlen s = length s"
  unfolding plain_def by (subst strlen_def, subst c_string_noNUL) blast+

lemma printf_loop_plain:
  "plain s \<Longrightarrow> i \<le> length s \<Longrightarrow> printf_loop m s i args t = ret (fold print_plain (drop i s) t)"
proof (induction "length s - i" arbitrary: i t)
  case 0
  then show ?case by (subst printf_loop.simps) (simp add: strlen_plain)
next
  case (Suc n)
  then have i: "i < length s" by simp
  then have nth: "char_at s i = s ! i" by (simp add: char_at_def)
  have "s ! i \<in> set s" using i by simp
  then have c: "s ! i \<noteq> CHR ''%''" "s ! i \<noteq> CHR 0x5C" using Suc.prems(1) unfolding plain_def by blast+
  have "printf_loop m s (i + 1) args (print_plain (s ! i) t) =
      ret (fold print_plain (drop (i + 1) s) (print_plain (s ! i) t))"
    using Suc.hyps(2) Suc.prems i by (intro Suc.hyps(1)) simp_all
  then show ?case
    using i nth c Suc.prems(1)
    by (subst printf_loop.simps) (simp add: strlen_plain Cons_nth_drop_Suc [symmetric])
qed

lemma terminal_printf_plain [out_simps]:
  "plain s \<Longrightarrow> terminal_printf m s args t = ret (fold print_plain s t)"
  using printf_loop_plain [of s 0] by (simp add: terminal_printf_def)

section \<open>Safety of formatted output\<close>

interpretation plain: console print_plain
  by unfold_locales (simp_all add: print_plain_def put_raw_def print_newline_ok print_tab_ok terminal_put_char_ok)

text \<open>What every outcome of a printer must satisfy: if it returns a terminal, it only drew.\<close>

definition draws :: "terminal \<Rightarrow> terminal \<Rightarrow> bool" where
  "draws t t' \<longleftrightarrow> terminal_ok t' \<and> only_screen t t'"

lemma draws_trans: "draws t t' \<Longrightarrow> draws t' t'' \<Longrightarrow> draws t t''"
  using only_screen_trans by (auto simp: draws_def)

lemma print_string_draws:
  assumes "terminal_ok t" "print_string m p t = ret t'"
  shows "draws t t'"
proof -
  have "(\<forall>t'. r = Inr t' \<longrightarrow> terminal_ok t \<longrightarrow> draws t t')" if "print_string m p t = Some r" for r
  proof (rule print_string.raw_induct [where P = "\<lambda>m p t r. \<forall>t'. r = Inr t' \<longrightarrow> terminal_ok t \<longrightarrow> draws t t'", OF _ that])
    fix pr m p t r
    assume IH: "\<And>m p t r. pr m p t = Some r \<Longrightarrow> \<forall>t'. r = Inr t' \<longrightarrow> terminal_ok t \<longrightarrow> draws t t'"
      and eq: "(if m p = 0 then ret t
        else pr m (p + 1) (terminal_put_char (make_vga_char (m p) (default_color t)) t)) = Some r"
    show "\<forall>t'. r = Inr t' \<longrightarrow> terminal_ok t \<longrightarrow> draws t t'"
    proof (cases "m p = 0")
      case True
      then show ?thesis using eq by (auto simp: ret_def draws_def)
    next
      case False
      let ?t = "terminal_put_char (make_vga_char (m p) (default_color t)) t"
      have "\<forall>t'. r = Inr t' \<longrightarrow> terminal_ok ?t \<longrightarrow> draws ?t t'" using False eq by (intro IH) simp
      moreover have "terminal_ok t \<Longrightarrow> draws t ?t" by (simp add: draws_def terminal_put_char_ok)
      ultimately show ?thesis using draws_trans [of t ?t] by (auto simp: draws_def)
    qed
  qed
  then show ?thesis using assms by (auto simp: ret_def)
qed

lemma print_text_draws: "terminal_ok t \<Longrightarrow> draws t (print_text s t)"
  by (simp add: draws_def print_text_ok)

lemma draws_refl: "terminal_ok t \<Longrightarrow> draws t t"
  by (simp add: draws_def)

lemma print_texts_draw: "terminal_ok t \<Longrightarrow> draws t (print_text s (print_text r t))"
  using print_text_draws [of t r] print_text_draws [of "print_text r t" s] draws_trans
  by (auto simp: draws_def)

lemma print_integer_draws:
  "terminal_ok t \<Longrightarrow> print_integer f n t = ret t' \<Longrightarrow> draws t t'"
  by (auto simp: print_integer_def print_integer_as_decimal_def print_integer_as_hex_def Let_def
      obind_eq_ret print_texts_draw print_text_draws draws_refl split: if_splits)

lemma with_arg_draws:
  "with_arg pr args = ret (args', t') \<Longrightarrow> (\<And>a. pr a = ret t' \<Longrightarrow> draws t t') \<Longrightarrow> draws t t'"
  by (auto simp: with_arg_def obind_eq_ret split: prod.splits)

lemma print_char_draws: "terminal_ok t \<Longrightarrow> print_char f c t = ret t' \<Longrightarrow> draws t t'"
  by (auto simp: print_char_def draws_def terminal_put_char_ok)

lemmas printers_draw =
  print_integer_draws [folded print_unsigned_int_def] print_integer_draws [folded print_signed_int_def]
  print_integer_draws [folded print_long_int_def] print_integer_draws [folded print_long_long_int_def]
  print_integer_draws [folded print_intmax_t_def] print_integer_draws [folded print_size_t_def]
  print_integer_draws [folded print_ptrdiff_t_def] print_integer_draws
  print_char_draws print_string_draws

lemma print_arg_draws:
  assumes "terminal_ok t" "print_arg m f args t = ret (args', t')"
  shows "draws t t'"
  using assms
  by (cases "pf_type f"; cases "pf_unsigned f"; cases "pf_pointer f")
    (auto simp: print_arg_def print_short_int_def print_wchar_t_def print_long_double_def print_double_def draws_refl
      elim!: with_arg_draws intro: printers_draw)

lemma convert_draws: "terminal_ok t \<Longrightarrow> convert m str args t = ret (n, args', t') \<Longrightarrow> draws t t'"
  by (auto simp: convert_def obind_eq_ret dest: print_arg_draws split: prod.splits)

lemma print_plain_draws: "terminal_ok t \<Longrightarrow> draws t (print_plain c t)"
  using plain.emit_ok plain.emit_only_screen by (simp add: draws_def)

lemma printf_loop_draws:
  "terminal_ok t \<Longrightarrow> printf_loop m str i args t = ret t' \<Longrightarrow> draws t t'"
proof (induction m str i args t rule: printf_loop.induct)
  case (1 m str i args t)
  have pl: "draws t (print_plain c t)" "terminal_ok (print_plain c t)" for c
    using print_plain_draws [OF "1.prems"(1)] by (simp_all add: draws_def)
  show ?case
  proof (cases "i < strlen str")
    case False
    then show ?thesis using "1.prems" by (subst (asm) printf_loop.simps) (simp add: draws_def)
  next
    case True
    show ?thesis
    proof (cases "char_at str i = CHR ''%'' \<and> char_at str (i + 1) \<noteq> CHR ''%''")
      case False
      then obtain j c where "printf_loop m str j args (print_plain c t) = ret t'"
        and "draws (print_plain c t) t'"
        using "1.prems" True pl "1.IH"(1,3,4) by (subst (asm) (2) printf_loop.simps) (auto split: if_splits)
      then show ?thesis using pl draws_trans by blast
    next
      case conv: True
      then obtain n args' u where u: "convert m (drop (i + 1) str) args t = ret (n, args', u)"
        and r: "printf_loop m str (i + 1 + n + 1) args' u = ret t'"
        using "1.prems"(2) True by (subst (asm) printf_loop.simps) (auto simp: obind_eq_ret)
      have "draws t u" using "1.prems"(1) u by (rule convert_draws)
      moreover have "draws u t'"
        using "1.IH"(2) True conv u r \<open>draws t u\<close> by (simp add: draws_def)
      ultimately show ?thesis by (rule draws_trans)
    qed
  qed
qed

section \<open>Formats read from left to right\<close>

text \<open>
  The index loop only looks at the rest of the format, so that a format can be evaluated
  one character or one conversion at a time.
\<close>

lemma char_at_append [simp]: "char_at (p @ s) (length p + i) = char_at s i"
  by (simp add: char_at_def)

lemma strlen_append: "CHR 0x00 \<notin> set p \<Longrightarrow> strlen (p @ s) = length p + strlen s"
  by (induction p) (auto simp: strlen_def c_string_def)

lemma printf_loop_append:
  assumes "CHR 0x00 \<notin> set p"
  shows "printf_loop m (p @ s) (length p + i) args t = printf_loop m s i args t"
proof (induction m s i args t rule: printf_loop.induct)
  case (1 m s i args t)
  note sh = char_at_append [of p s i] char_at_append [of p s "i + 1"] strlen_append [OF assms, of s]
  show ?case
  proof (cases "i < strlen s")
    case False
    then show ?thesis using sh by (simp add: printf_loop.simps [of m s i args t]
      printf_loop.simps [of m "p @ s" "length p + i" args t])
  next
    case True
    have "obind (convert m (drop (i + 1) s) args t)
        (\<lambda>(n, args', t'). printf_loop m (p @ s) (length p + (i + 1 + n + 1)) args' t') =
      obind (convert m (drop (i + 1) s) args t) (\<lambda>(n, args', t'). printf_loop m s (i + 1 + n + 1) args' t')"
      if "char_at s i = CHR ''%''" "char_at s (i + 1) \<noteq> CHR ''%''"
      using "1.IH"(2) [OF True] that by (intro obind_cong refl) (auto split: prod.splits)
    then show ?thesis
      using True sh "1.IH"(1,3,4) [OF True]
      by (simp add: printf_loop.simps [of m s i args t]
      printf_loop.simps [of m "p @ s" "length p + i" args t] add.assoc)
  qed
qed

lemma printf_nil [out_simps]: "terminal_printf m [] args t = ret t"
  by (simp add: terminal_printf_def printf_loop.simps strlen_def c_string_def)

lemma printf_char [out_simps]:
  assumes "c \<noteq> CHR ''%''" "c \<noteq> CHR 0x5C" "c \<noteq> CHR 0x00"
  shows "terminal_printf m (c # s) args t = terminal_printf m s args (print_plain c t)"
proof -
  have "char_at (c # s) 0 = c" "0 < strlen (c # s)"
    using assms by (simp_all add: char_at_def strlen_def c_string_def)
  then have "terminal_printf m (c # s) args t = printf_loop m (c # s) 1 args (print_plain c t)"
    using assms by (simp add: terminal_printf_def printf_loop.simps [of m _ 0])
  also have "\<dots> = printf_loop m s 0 args (print_plain c t)"
    using printf_loop_append [of "[c]" m s 0] assms by simp
  finally show ?thesis by (simp add: terminal_printf_def)
qed

text \<open>A conversion \<open>spec\<close> (the text after the percent sign) that \<open>convert\<close> accepts in full.\<close>

lemma printf_convert:
  assumes "CHR 0x00 \<notin> set spec" "spec = c # spec'" "c \<noteq> CHR ''%''"
    and "convert m (spec @ s) args t = ret (length spec - 1, args', t')"
  shows "terminal_printf m (CHR ''%'' # spec @ s) args t = terminal_printf m s args' t'"
proof -
  have "char_at (CHR ''%'' # spec @ s) 0 = CHR ''%''" "char_at (CHR ''%'' # spec @ s) 1 = c"
    "0 < strlen (CHR ''%'' # spec @ s)"
    using assms(2) by (simp_all add: char_at_def strlen_def c_string_def)
  then have "terminal_printf m (CHR ''%'' # spec @ s) args t =
      printf_loop m (CHR ''%'' # spec @ s) (Suc (length spec)) args' t'"
    using assms(2,3,4) by (simp add: terminal_printf_def printf_loop.simps [of m _ 0])
  also have "\<dots> = printf_loop m s 0 args' t'"
    using printf_loop_append [of "CHR ''%'' # spec" m s 0] assms(1) by simp
  finally show ?thesis by (simp add: terminal_printf_def)
qed

lemma convert_fault:
  assumes "c \<noteq> CHR ''%''" "convert m (c # s) args t = fail e"
  shows "terminal_printf m (CHR ''%'' # c # s) args t = fail e"
proof -
  have "char_at (CHR ''%'' # c # s) 0 = CHR ''%''" "char_at (CHR ''%'' # c # s) 1 = c"
    "0 < strlen (CHR ''%'' # c # s)"
    by (simp_all add: char_at_def strlen_def c_string_def)
  then show ?thesis using assms by (simp add: terminal_printf_def printf_loop.simps [of m _ 0])
qed

section \<open>The conversions the kernel uses\<close>

lemma char_at_simps [simp]: "char_at (c # s) 0 = c" "char_at (c # s) (Suc i) = char_at s i" "char_at [] i = CHR 0x00"
  by (simp_all add: char_at_def)

lemma read_decimal_none: "\<not> is_digit (char_at s 0) \<Longrightarrow> read_decimal s 0 = ret (0, 0)"
  by (simp add: read_decimal_def read_decimal_loop.simps)

lemmas parse_simps = get_format_def get_flags_def get_width_def get_precision_def
  get_length_and_specifier_def get_length_def get_specifier_def read_decimal_none is_digit_def
  star_width_def star_precision_def FORMAT_ARG_SPECIFIED_def format_init_def va_arg_def

text \<open>The text of \<open>%#zx\<close> and \<open>%#zX\<close>: prefix and digits, at least one.\<close>

definition addr_text :: "char \<Rightarrow> nat \<Rightarrow> string" where
  "addr_text sp n = (if sp = CHR ''X'' then ''0X'' else ''0x'') @
     (if n = 0 then ''0'' else hex_digits sp n)"

lemma hex_text_width0:
  assumes "pf_width f = 0" "pf_specifier f = sp" "pf_flags f AND ALWAYS_SHOW_0x_OR_DECIMAL_POINT \<noteq> 0"
  shows "hex_prefix f @ hex_text f n = addr_text sp n"
proof -
  have "0 < n \<Longrightarrow> 0 < length (hex_digits sp n)" using hex_digits_hd [of n sp] by simp
  then show ?thesis
    using assms by (cases "n = 0") (auto simp: addr_text_def hex_prefix_def hex_text_def Let_def Suc_le_eq)
qed

lemma convert_zx [out_simps]:
  assumes "sp = CHR ''x'' \<or> sp = CHR ''X''"
  shows "convert m (CHR ''#'' # CHR ''z'' # sp # s) (v # args) t =
    ret (2, args, print_text (addr_text sp (unat v)) t)"
  using assms
  by (auto simp: convert_def parse_simps print_arg_def with_arg_def long_printers print_integer_def
      print_integer_as_hex_text hex_text_width0 ALWAYS_SHOW_0x_OR_DECIMAL_POINT_def NO_FLAGS_def)

lemma printf_zx [out_simps]:
  "terminal_printf m (CHR ''%'' # CHR ''#'' # CHR ''z'' # CHR ''x'' # s) (v # args) t =
     terminal_printf m s args (print_text (addr_text (CHR ''x'') (unat v)) t)"
  "terminal_printf m (CHR ''%'' # CHR ''#'' # CHR ''z'' # CHR ''X'' # s) (v # args) t =
     terminal_printf m s args (print_text (addr_text (CHR ''X'') (unat v)) t)"
  using printf_convert [of "''#zx''" _ "''zx''" m s "v # args" t]
    printf_convert [of "''#zX''" _ "''zX''" m s "v # args" t]
  by (simp_all add: convert_zx)

text \<open>\<open>%zx\<close> prints the digits without a prefix; \<open>%#x\<close> prints the low 32 bits with one.\<close>

definition digits_text :: "char \<Rightarrow> nat \<Rightarrow> string" where
  "digits_text sp n = (if n = 0 then ''0'' else hex_digits sp n)"

lemma hex_text_bare:
  assumes "pf_width f = 0" "pf_specifier f = sp" "pf_flags f AND ALWAYS_SHOW_0x_OR_DECIMAL_POINT = 0"
  shows "hex_prefix f @ hex_text f n = digits_text sp n"
proof -
  have "0 < n \<Longrightarrow> 0 < length (hex_digits sp n)" using hex_digits_hd [of n sp] by simp
  then show ?thesis
    using assms by (cases "n = 0") (auto simp: digits_text_def hex_prefix_def hex_text_def Let_def Suc_le_eq)
qed

lemma convert_zx_bare: "convert m (CHR ''z'' # CHR ''x'' # s) (v # args) t =
    ret (1, args, print_text (digits_text (CHR ''x'') (unat v)) t)"
  by (simp add: convert_def parse_simps print_arg_def with_arg_def long_printers print_integer_def
      print_integer_as_hex_text hex_text_bare ALWAYS_SHOW_0x_OR_DECIMAL_POINT_def NO_FLAGS_def)

lemma convert_hash_x: "convert m (CHR ''#'' # CHR ''x'' # s) (v # args) t =
    ret (1, args, print_text (addr_text (CHR ''x'') (unat (as_uint v))) t)"
  by (simp add: convert_def parse_simps print_arg_def with_arg_def print_unsigned_int_def print_integer_def
      print_integer_as_hex_text hex_text_width0 ALWAYS_SHOW_0x_OR_DECIMAL_POINT_def NO_FLAGS_def)

lemma printf_x [out_simps]:
  "terminal_printf m (CHR ''%'' # CHR ''z'' # CHR ''x'' # s) (v # args) t =
     terminal_printf m s args (print_text (digits_text (CHR ''x'') (unat v)) t)"
  "terminal_printf m (CHR ''%'' # CHR ''#'' # CHR ''x'' # s) (v # args) t =
     terminal_printf m s args (print_text (addr_text (CHR ''x'') (unat (as_uint v))) t)"
  using printf_convert [of "''zx''" _ "''x''" m s "v # args" t] printf_convert [of "''#x''" _ "''x''" m s "v # args" t]
  by (simp_all add: convert_zx_bare convert_hash_x)

section \<open>Numbers inside a conversion\<close>

definition dec_value :: "string \<Rightarrow> int" where
  "dec_value ds = foldl (\<lambda>v c. 10 * v + (int (of_char c) - 48)) 0 ds"

lemma dec_value_snoc [simp]: "dec_value (ds @ [c]) = 10 * dec_value ds + (int (of_char c) - 48)"
  by (simp add: dec_value_def)

lemma dec_value_Nil [simp]: "dec_value [] = 0"
  by (simp add: dec_value_def)

lemma is_digit_bounds: "is_digit c \<Longrightarrow> 0 \<le> int (of_char c) - 48 \<and> int (of_char c) - 48 \<le> 9"
  by (simp add: is_digit_def)

text \<open>
  The loop weighs the first digit it reads by 1, the next by 10 and so on: it computes the
  value of the digits read backwards. Up to nine digits nothing overflows.
\<close>

lemma read_decimal_loop_rev:
  assumes "\<forall>c \<in> set ds. is_digit c" "\<not> is_digit (char_at rest 0)" "k + length ds \<le> 9"
    "0 \<le> d" "d < 10 ^ k"
  shows "read_decimal_loop (p @ ds @ rest) (length p) d (10 ^ k) =
    ret (d + 10 ^ k * dec_value (rev ds), length p + length ds)"
  using assms
proof (induction ds arbitrary: p d k)
  case Nil
  then show ?case using char_at_append [of p rest 0] by (subst read_decimal_loop.simps) simp
next
  case (Cons c ds)
  let ?v = "int (of_char c) - 48"
  have v: "0 \<le> ?v" "?v \<le> 9" using is_digit_bounds [of c] Cons.prems(1) by auto
  have k: "k \<le> 8" using Cons.prems(3) by simp
  then have p10: "(10 :: int) ^ k \<le> 10 ^ 8" by (intro power_increasing) simp_all
  define x where "x = 10 ^ k * ?v"
  have "10 ^ k * ?v \<le> 10 ^ k * 9" "0 \<le> 10 ^ k * ?v" using v by (simp_all add: mult_left_mono)
  then have b: "0 \<le> x" "x \<le> 10 ^ k * 9" by (simp_all only: x_def)
  have ok: "int32_ok x" "int32_ok (d + x)" "int32_ok (10 ^ k * 10)"
    using b p10 Cons.prems(4,5) by (simp_all add: int32_ok_def)
  have bd: "0 \<le> d + x" "d + x < 10 ^ Suc k" using b Cons.prems(4,5) by simp_all
  have "read_decimal_loop (p @ (c # ds) @ rest) (length p) d (10 ^ k) =
      read_decimal_loop ((p @ [c]) @ ds @ rest) (length (p @ [c])) (d + x) (10 ^ Suc k)"
    using char_at_append [of p "c # ds @ rest" 0] Cons.prems(1) ok
    by (subst read_decimal_loop.simps) (simp add: mult.commute Let_def flip: x_def)
  also have "\<dots> = ret (d + x + 10 ^ Suc k * dec_value (rev ds), length (p @ [c]) + length ds)"
    using Cons.prems bd by (intro Cons.IH) simp_all
  finally show ?case by (simp add: x_def algebra_simps)
qed

lemma read_decimal_rev:
  assumes "\<forall>c \<in> set ds. is_digit c" "\<not> is_digit (char_at rest 0)" "length ds \<le> 9"
  shows "read_decimal (p @ ds @ rest) (length p) = ret (dec_value (rev ds), length p + length ds)"
  using read_decimal_loop_rev [of ds rest 0 0 p] assms by (simp add: read_decimal_def)

text \<open>A precision that has a digit leaves a digit as the conversion specifier, which asserts.\<close>

lemma digit_neq:
  assumes "is_digit c" "\<not> is_digit d"
  shows "c \<noteq> d"
  using assms by blast

lemma is_digit_letters [simp]:
  "\<not> is_digit (CHR ''h'')" "\<not> is_digit (CHR ''l'')" "\<not> is_digit (CHR ''j'')" "\<not> is_digit (CHR ''z'')"
  "\<not> is_digit (CHR ''t'')" "\<not> is_digit (CHR ''L'')" "\<not> is_digit (CHR ''.'')" "\<not> is_digit (CHR 0x00)"
  by (simp_all add: is_digit_def)

lemma specifiers_not_digits: "is_digit c \<Longrightarrow> c \<notin> set ''diuoxXfFeEgGaAcspn''"
  by (rule notI, simp, elim disjE) (simp_all add: is_digit_def)

lemma get_length_digit: "is_digit c \<Longrightarrow> get_length (c # s) = (0, T_INT)"
  using digit_neq [of c "CHR ''h''"] digit_neq [of c "CHR ''l''"] digit_neq [of c "CHR ''j''"]
    digit_neq [of c "CHR ''z''"] digit_neq [of c "CHR ''t''"] digit_neq [of c "CHR ''L''"]
  by (simp add: get_length_def)

lemma get_specifier_digit: "is_digit c \<Longrightarrow> get_specifier f c = fail (Assert_failed ''0!=0'')"
  using specifiers_not_digits [of c] by (simp add: get_specifier_def Let_def)

lemma get_format_precision:
  assumes "\<forall>c \<in> set ds. is_digit c" "ds \<noteq> []" "\<not> is_digit (char_at rest 0)" "length ds \<le> 10"
  shows "get_format f (CHR ''.'' # ds @ rest) = fail (Assert_failed ''0!=0'')"
proof -
  obtain d ds' where ds: "ds = d # ds'" using assms(2) by (cases ds) auto
  have rd: "read_decimal (ds @ rest) 1 = ret (dec_value (rev ds'), 1 + length ds')"
    using read_decimal_rev [of ds' rest "[d]"] assms ds by simp
  have "last ds \<in> set ds" using assms(2) by (rule last_in_set)
  then have dg: "is_digit (last ds)" using assms(1) by blast
  have dr: "drop (length ds') (ds @ rest) = last ds # rest"
    using ds by (cases ds' rule: rev_cases) simp_all
  let ?f = "f\<lparr>pf_flags := NO_FLAGS, pf_width := 0, pf_precision := dec_value (rev ds')\<rparr>"
  have "get_flags f (CHR ''.'' # ds @ rest) = (0, f\<lparr>pf_flags := NO_FLAGS\<rparr>)"
    by (simp add: get_flags_def)
  moreover have "get_width g (CHR ''.'' # ds @ rest) = ret (0, g\<lparr>pf_width := 0\<rparr>)" for g
    by (simp add: get_width_def read_decimal_none)
  moreover have "get_precision g (CHR ''.'' # ds @ rest) = ret (length ds, g\<lparr>pf_precision := dec_value (rev ds')\<rparr>)" for g
    using rd ds by (simp add: get_precision_def Let_def)
  ultimately have "get_format f (CHR ''.'' # ds @ rest) =
      obind (get_length_and_specifier ?f (last ds # rest)) (\<lambda>(r4, f4). ret (length ds + r4, f4))"
    using dr ds by (simp add: get_format_def)
  then show ?thesis using dg
    by (simp add: get_length_and_specifier_def get_length_digit get_specifier_digit)
qed

lemma convert_precision_asserts:
  assumes "\<forall>c \<in> set ds. is_digit c" "ds \<noteq> []" "\<not> is_digit (char_at rest 0)" "length ds \<le> 10"
  shows "terminal_printf m (CHR ''%'' # CHR ''.'' # ds @ rest) args t = fail (Assert_failed ''0!=0'')"
  using assms by (intro convert_fault) (simp_all add: convert_def get_format_precision)

lemma get_width_rev:
  assumes "\<forall>c \<in> set ds. is_digit c" "ds \<noteq> []" "\<not> is_digit (char_at rest 0)" "length ds \<le> 9"
  shows "get_width f (ds @ rest) = ret (length ds, f\<lparr>pf_width := dec_value (rev ds)\<rparr>)"
proof -
  have "char_at (ds @ rest) 0 \<noteq> CHR ''*''"
    using assms(1,2) by (cases ds) (auto simp: is_digit_def)
  then show ?thesis
    using read_decimal_rev [of ds rest "[]"] assms by (simp add: get_width_def)
qed

text \<open>Conversions that put nothing on the screen, and one that stops the kernel.\<close>

lemma convert_d: "convert m (CHR ''d'' # s) (v # args) t = ret (0, args, t)"
  by (simp add: convert_def parse_simps print_arg_def with_arg_def print_signed_int_def
      print_integer_def print_integer_as_decimal_def)

lemma convert_u: "convert m (CHR ''u'' # s) (v # args) t = ret (0, args, t)"
  by (simp add: convert_def parse_simps print_arg_def with_arg_def print_unsigned_int_def
      print_integer_def print_integer_as_decimal_def)

lemma convert_c: "convert m (CHR ''c'' # s) (v # args) t = ret (0, args, t)"
  by (simp add: convert_def parse_simps print_arg_def with_arg_def print_signed_int_def
      print_integer_def print_integer_as_decimal_def)

lemma convert_s: "convert m (CHR ''s'' # s) (v # args) t =
    obind (print_string m (as_int v) t) (\<lambda>t'. ret (0, args, t'))"
  by (simp add: convert_def parse_simps print_arg_def with_arg_def)

lemma convert_p: "convert m (CHR ''p'' # s) args t = fail (Assert_failed ''0!=0'')"
  by (simp add: convert_def parse_simps print_arg_def)

text \<open>A NUL-terminated string in memory, and what printing it does.\<close>

fun stored_string :: "mem \<Rightarrow> u64 \<Rightarrow> u8 list \<Rightarrow> bool" where
  "stored_string m p [] \<longleftrightarrow> m p = 0"
| "stored_string m p (b # bs) \<longleftrightarrow> b \<noteq> 0 \<and> m p = b \<and> stored_string m (p + 1) bs"

definition put_byte :: "u8 \<Rightarrow> terminal \<Rightarrow> terminal" where
  "put_byte b t = terminal_put_char (make_vga_char b (default_color t)) t"

lemma print_string_stored: "stored_string m p bs \<Longrightarrow> print_string m p t = ret (fold put_byte bs t)"
  by (induction bs arbitrary: p t) (auto simp: print_string.simps [of m] put_byte_def)

lemma printf_s [out_simps]:
  assumes "stored_string m (as_int v) bs"
  shows "terminal_printf m (CHR ''%'' # CHR ''s'' # s) (v # args) t = terminal_printf m s args (fold put_byte bs t)"
  using printf_convert [of "''s''" _ "[]" m s "v # args" t args "fold put_byte bs t"]
  by (simp add: convert_s print_string_stored [OF assms])

section \<open>Properties\<close>

text \<open>Whatever the format, the arguments and memory are: if \<open>terminal_printf\<close> returns then
  the terminal is still well formed, keeps its size and colours, and no memory outside the
  screen was written.\<close>

lemma terminal_printf_draws: "terminal_ok t \<Longrightarrow> terminal_printf m str args t = ret t' \<Longrightarrow> draws t t'"
  using printf_loop_draws by (simp add: terminal_printf_def)

definition no_memory :: mem where "no_memory = (\<lambda>a. 0)"

text \<open>Everything the rest of the kernel can do to the terminal.\<close>

inductive terminal_step :: "mem \<Rightarrow> terminal \<Rightarrow> terminal \<Rightarrow> bool" for m where
  put_char: "terminal_step m t (terminal_put_char c t)"
| print_char: "terminal_step m t (terminal_print_char ch t)"
| new_line: "terminal_step m t (print_newline t)"
| put_text: "terminal_step m t (print_text s t)"
| put_tab: "terminal_step m t (print_tab t)"
| clear: "terminal_step m t (clear_terminal t)"
| formatted: "terminal_printf m fmt args t = ret t' \<Longrightarrow> terminal_step m t t'"

lemma terminal_step_draws: "terminal_step m t t' \<Longrightarrow> terminal_ok t \<Longrightarrow> draws t t'"
proof (induction rule: terminal_step.induct)
  case (formatted fmt args t t')
  then show ?case by (intro terminal_printf_draws)
qed (simp_all add: draws_def terminal_put_char_ok terminal_print_char_def print_newline_ok print_text_ok
    print_tab_ok clear_terminal_ok)

lemma terminal_steps_draw: "(terminal_step m)\<^sup>*\<^sup>* t t' \<Longrightarrow> terminal_ok t \<Longrightarrow> draws t t'"
proof (induction rule: rtranclp_induct)
  case (step u v)
  then show ?case using terminal_step_draws [of m u v] draws_trans [of t u v] by (simp add: draws_def)
qed (rule draws_refl)

text \<open>C24. Once \<open>init_terminal\<close> has run, the terminal is an 80 by 25 screen for ever: whatever text,
  characters, tabs, newlines, clearings and formatted output follow, in any order and number,
  the cursor stays on the screen, the size and the colour stay as they are, and the memory
  behind the 2000 cells is never written.\<close>

theorem terminal_stays_screen:
  assumes "(terminal_step m)\<^sup>*\<^sup>* (init_terminal t0) t"
  shows "row_max t = 80 \<and> col_max t = 25 \<and> row t < 80 \<and> col t < 25 \<and> default_color t = 0x0A \<and>
    (\<forall>k. 2000 \<le> unat k \<longrightarrow> buffer t k = buffer t0 k)"
proof -
  note i = init_terminal_facts [where t = t0]
  have d: "terminal_ok t" "only_screen (init_terminal t0) t"
    using terminal_steps_draw [OF assms i(1)] by (simp_all add: draws_def)
  have "row_max (init_terminal t0) = 80" "col_max (init_terminal t0) = 25"
    using i(4,5) by (simp_all add: width_def height_def word_unat_eq_iff)
  then show ?thesis
    using d i by (auto simp: terminal_ok_def only_screen_def same_frame_def)
qed

theorem terminal_stays_screen_witness:
  "row (print_tab (print_text ''ok'' (init_terminal sample_terminal))) < 80"
proof -
  let ?t = "init_terminal sample_terminal"
  have "(terminal_step no_memory)\<^sup>*\<^sup>* ?t (print_tab (print_text ''ok'' ?t))"
    by (meson terminal_step.put_text terminal_step.put_tab rtranclp.rtrancl_refl rtranclp.rtrancl_into_rtrancl)
  then show ?thesis using terminal_stays_screen by blast
qed

text \<open>C19. For a field width of 0 to 15, \<open>print_integer_as_hex\<close> prints the optional prefix
  and then digits that denote exactly the number, with the digits of the number preceded by
  zeros up to \<open>width + 1\<close> digits (one more than the width asked for).\<close>

theorem print_hex_digits:
  assumes "0 \<le> pf_width f" "pf_width f \<le> 15"
  shows "print_integer_as_hex f num t = ret (print_text (hex_prefix f @ hex_text f (unat num)) t) \<and>
    hex_value (hex_text f (unat num)) = unat num \<and>
    length (hex_text f (unat num)) =
      max (nat (pf_width f) + 1) (length (hex_digits (pf_specifier f) (unat num)))"
  using print_integer_as_hex_text [OF assms] hex_text_value [of f "unat num"]
  by (simp add: hex_text_def Let_def)

theorem print_hex_digits_witness:
  "print_integer_as_hex (format_init\<lparr>pf_width := 3, pf_specifier := CHR ''x''\<rparr>) 0xBEE sample_terminal =
     ret (print_text ''0bee'' sample_terminal)"
proof -
  have "hex_prefix (format_init\<lparr>pf_width := 3, pf_specifier := CHR ''x''\<rparr>) @
      hex_text (format_init\<lparr>pf_width := 3, pf_specifier := CHR ''x''\<rparr>) 3054 = ''0bee''"
    by code_simp
  then show ?thesis
    using print_hex_digits [of "format_init\<lparr>pf_width := 3, pf_specifier := CHR ''x''\<rparr>" "0xBEE" sample_terminal] by simp
qed

text \<open>A field width above 15 makes \<open>print_integer_as_hex\<close> read in front of its buffer,
  for every number.\<close>

theorem print_hex_wide_faults:
  assumes "15 < pf_width f" "pf_width f < 2 ^ 31"
  shows "print_integer_as_hex f num t = fail Out_of_bounds"
  using assms by (rule print_integer_as_hex_wide)

theorem print_hex_wide_faults_witness:
  "print_integer_as_hex (format_init\<lparr>pf_width := 16, pf_specifier := CHR ''x''\<rparr>) 1 sample_terminal =
     fail Out_of_bounds"
  using print_hex_wide_faults [of "format_init\<lparr>pf_width := 16, pf_specifier := CHR ''x''\<rparr>" 1 sample_terminal]
  by simp

text \<open>A field width of one to nine digits is consumed in full and never overflows, but it is
  read with its digits in reverse order (a width of 12 means 21).\<close>

theorem width_digits_reversed:
  assumes "\<forall>c \<in> set ds. is_digit c" "ds \<noteq> []" "\<not> is_digit (char_at rest 0)" "length ds \<le> 9"
  shows "get_width f (ds @ rest) = ret (length ds, f\<lparr>pf_width := dec_value (rev ds)\<rparr>)"
  using assms by (rule get_width_rev)

theorem width_digits_reversed_witness:
  "get_width format_init ''12x'' = ret (2, format_init\<lparr>pf_width := 21\<rparr>)"
  using width_digits_reversed [of "''12''" "''x''" format_init]
  by (simp add: is_digit_def dec_value_def)

text \<open>A conversion with a precision of one to ten digits always stops the kernel with the
  failed assertion of the unknown specifier, whatever follows.\<close>

theorem precision_asserts:
  assumes "\<forall>c \<in> set ds. is_digit c" "ds \<noteq> []" "\<not> is_digit (char_at rest 0)" "length ds \<le> 10"
  shows "terminal_printf m (''%.'' @ ds @ rest) args t = fail (Assert_failed ''0!=0'')"
  using convert_precision_asserts [OF assms] by simp

theorem precision_asserts_witness:
  "terminal_printf no_memory ''%.2x'' [7] sample_terminal = fail (Assert_failed ''0!=0'')"
  using precision_asserts [of "''2''" "''x''" no_memory "[7]" sample_terminal] by (simp add: is_digit_def)

text \<open>The conversions \<open>%d\<close>, \<open>%u\<close> and \<open>%c\<close> consume their argument and print nothing, and
  \<open>%p\<close> stops the kernel with a failed assertion.\<close>

theorem silent_conversions:
  "terminal_printf m (''%d'' @ s) (v # args) t = terminal_printf m s args t \<and>
   terminal_printf m (''%u'' @ s) (v # args) t = terminal_printf m s args t \<and>
   terminal_printf m (''%c'' @ s) (v # args) t = terminal_printf m s args t \<and>
   terminal_printf m (''%p'' @ s) args t = fail (Assert_failed ''0!=0'')"
  using printf_convert [of "''d''" _ "[]" m s "v # args" t args t]
    printf_convert [of "''u''" _ "[]" m s "v # args" t args t]
    printf_convert [of "''c''" _ "[]" m s "v # args" t args t]
    convert_fault [of "CHR ''p''" m s args t]
  by (simp add: convert_d convert_u convert_c convert_p)

text \<open>A \<open>%s\<close> whose argument points at a NUL-terminated string prints exactly its bytes and goes on
  with the rest of the format, newlines in the string being drawn as glyphs.\<close>

theorem string_conversion:
  assumes "stored_string m (as_int v) bs"
  shows "terminal_printf m (''%s'' @ s) (v # args) t = terminal_printf m s args (fold put_byte bs t)"
  using printf_s [OF assms] by simp

theorem string_conversion_witness:
  "terminal_printf (\<lambda>a. if a = 64 then 10 else 0) ''%s'' [64] sample_terminal =
     ret (put_byte 10 sample_terminal)"
  using string_conversion [of "\<lambda>a. if a = 64 then 10 else 0" 64 "[10]" "[]" "[]" sample_terminal]
  by (simp add: as_int_def printf_nil)

end
