(* ===== verification/Multiboot.thy ===== *)
theory Multiboot
  imports Printf
begin

text \<open>
  The multiboot2 boot information (src/multiboot.h, src/multiboot.c): the packed structures as
  records read from memory at their C offsets, the walk over the tags, the pointers it
  leaves in the globals, and the ELF section flags. Boot information is memory the kernel
  only reads; argument slots of 32-bit fields are zero-extended, as the compiler loads them.
\<close>

section \<open>Structures in memory\<close>

record multiboot_tag =
  tag_type :: u32
  tag_size :: u32

definition tag_at :: "mem \<Rightarrow> u64 \<Rightarrow> multiboot_tag" where
  "tag_at m p = \<lparr>tag_type = ld32 m p, tag_size = ld32 m (p + 4)\<rparr>"

definition total_size_at :: "mem \<Rightarrow> u64 \<Rightarrow> u32" where
  "total_size_at m p = ld32 m p"

record multiboot_memory_information =
  mem_lower :: u32
  mem_upper :: u32

definition memory_information_at :: "mem \<Rightarrow> u64 \<Rightarrow> multiboot_memory_information" where
  "memory_information_at m p = \<lparr>mem_lower = ld32 m (p + 8), mem_upper = ld32 m (p + 12)\<rparr>"

record multiboot_memory_map_entry =
  base_addr :: u64
  entry_length :: u64
  entry_type :: u32

definition map_entry_at :: "mem \<Rightarrow> u64 \<Rightarrow> multiboot_memory_map_entry" where
  "map_entry_at m a = \<lparr>base_addr = ld64 m a, entry_length = ld64 m (a + 8), entry_type = ld32 m (a + 16)\<rparr>"

text \<open>A \<open>multiboot_memory_map\<close> at \<open>p\<close>: its header fields and its flexible array.\<close>

definition map_size :: "mem \<Rightarrow> u64 \<Rightarrow> u32" where "map_size m p = ld32 m (p + 4)"
definition map_entry_size :: "mem \<Rightarrow> u64 \<Rightarrow> u32" where "map_entry_size m p = ld32 m (p + 8)"

definition memory_maps :: "mem \<Rightarrow> u64 \<Rightarrow> u64 \<Rightarrow> multiboot_memory_map_entry" where
  "memory_maps m p i = map_entry_at m (p + 16 + 24 * i)"

record multiboot_elf_section_header =
  sh_name :: u32
  sh_type :: u32
  sh_flags :: u64
  sh_addr :: u64
  sh_offset :: u64
  sh_size :: u64
  sh_link :: u32
  sh_info :: u32
  sh_addralign :: u64
  sh_entsize :: u64

definition section_header_at :: "mem \<Rightarrow> u64 \<Rightarrow> multiboot_elf_section_header" where
  "section_header_at m a =
     \<lparr>sh_name = ld32 m a, sh_type = ld32 m (a + 4), sh_flags = ld64 m (a + 8), sh_addr = ld64 m (a + 16),
      sh_offset = ld64 m (a + 24), sh_size = ld64 m (a + 32), sh_link = ld32 m (a + 40),
      sh_info = ld32 m (a + 44), sh_addralign = ld64 m (a + 48), sh_entsize = ld64 m (a + 56)\<rparr>"

text \<open>A \<open>multiboot_elf_symbols\<close> at \<open>p\<close>.\<close>

definition elf_num :: "mem \<Rightarrow> u64 \<Rightarrow> u32" where "elf_num m p = ld32 m (p + 8)"
definition elf_entsize :: "mem \<Rightarrow> u64 \<Rightarrow> u32" where "elf_entsize m p = ld32 m (p + 12)"
definition elf_shndx :: "mem \<Rightarrow> u64 \<Rightarrow> u32" where "elf_shndx m p = ld32 m (p + 16)"

definition sectionheaders :: "mem \<Rightarrow> u64 \<Rightarrow> u64 \<Rightarrow> multiboot_elf_section_header" where
  "sectionheaders m p i = section_header_at m (p + 20 + 64 * i)"

section \<open>ELF section flags\<close>

datatype ef_sh_flags =
    shf_write | shf_alloc | shf_execinstr | shf_merge | shf_strings | shf_info_link
  | shf_link_order | shf_os_nonconforming | shf_group | shf_tls | shf_maskos | shf_maskproc
  | shf_ordered | shf_exclude

fun sh_flag :: "ef_sh_flags \<Rightarrow> u32" where
  "sh_flag shf_write = 0x1"
| "sh_flag shf_alloc = 0x2"
| "sh_flag shf_execinstr = 0x4"
| "sh_flag shf_merge = 0x10"
| "sh_flag shf_strings = 0x20"
| "sh_flag shf_info_link = 0x40"
| "sh_flag shf_link_order = 0x80"
| "sh_flag shf_os_nonconforming = 0x100"
| "sh_flag shf_group = 0x200"
| "sh_flag shf_tls = 0x400"
| "sh_flag shf_maskos = 0x0ff00000"
| "sh_flag shf_maskproc = 0xf0000000"
| "sh_flag shf_ordered = 0x4000000"
| "sh_flag shf_exclude = 0x8000000"

definition elf_section_is_allocated :: "multiboot_elf_section_header \<Rightarrow> bool" where
  "elf_section_is_allocated h \<longleftrightarrow> sh_flags h AND ucast (sh_flag shf_alloc) \<noteq> 0"

definition elf_section_is_writable :: "multiboot_elf_section_header \<Rightarrow> bool" where
  "elf_section_is_writable h \<longleftrightarrow> sh_flags h AND ucast (sh_flag shf_write) \<noteq> 0"

definition elf_section_is_exectuable :: "multiboot_elf_section_header \<Rightarrow> bool" where
  "elf_section_is_exectuable h \<longleftrightarrow> sh_flags h AND ucast (sh_flag shf_execinstr) \<noteq> 0"

definition ef_sh_flags_str :: "string list" where
  "ef_sh_flags_str = ['''', ''W'', ''A'', ''X'', ''M'', ''S'', ''IL'', ''LO'', ''OS'', ''G'', ''T'', ''MO'', ''MP'', ''ORD'', ''EXC'']"

text \<open>The index \<open>get_sh_flag_string\<close> computes into \<open>ef_sh_flags_str\<close>.\<close>

definition get_sh_flag_index :: "u32 \<Rightarrow> nat" where
  "get_sh_flag_index flag =
     (if flag = sh_flag shf_write then 1
      else if flag = sh_flag shf_alloc then 2
      else if flag = sh_flag shf_execinstr then 3
      else if flag = sh_flag shf_merge then 4
      else if flag = sh_flag shf_strings then 5
      else if flag = sh_flag shf_info_link then 6
      else if flag = sh_flag shf_link_order then 7
      else if flag = sh_flag shf_os_nonconforming then 8
      else if flag = sh_flag shf_group then 9
      else if flag = sh_flag shf_tls then 10
      else if flag = sh_flag shf_maskos then 11
      else if flag = sh_flag shf_maskproc then 12
      else if flag = sh_flag shf_ordered then 13
      else if flag = sh_flag shf_exclude then 14
      else 0)"

text \<open>
  The string literals live where the linker put them: \<open>lit i\<close> is the pointer stored in
  \<open>ef_sh_flags_str[i]\<close>, a parameter of the model.
\<close>

definition get_sh_flag_string :: "(nat \<Rightarrow> u64) \<Rightarrow> u32 \<Rightarrow> u64" where
  "get_sh_flag_string lit flag = lit (get_sh_flag_index flag)"

section \<open>Globals and the tag walk\<close>

record multiboot_data =
  md_start :: u64
  md_memory_map :: u64
  md_elf_symbols :: u64

record multiboot_state =
  start_ptr :: u64
  start :: u64
  info :: u64
  loader_name :: u64
  device :: u64
  command_line :: u64
  symbols :: u64
  maps :: u64
  data :: multiboot_data

definition find_next_tag_address :: "mem \<Rightarrow> u64 \<Rightarrow> u64" where
  "find_next_tag_address m curr_tag =
     (if tag_type (tag_at m curr_tag) \<noteq> 0 then
        (let next_tag = curr_tag + ucast (tag_size (tag_at m curr_tag))
         in if next_tag mod 8 \<noteq> 0 then next_tag + (8 - next_tag mod 8) else next_tag)
      else 0)"

text \<open>
  \<open>(size - 4*sizeof(uint32_t)) / entry_size\<close> in 64-bit arithmetic; the callers store it in an
  \<open>int\<close> or a \<open>size_t\<close>. A zero entry size divides by zero.
\<close>

definition entry_count :: "mem \<Rightarrow> u64 \<Rightarrow> u64 out" where
  "entry_count m p =
     (if map_entry_size m p = 0 then fail Divide_error
      else ret ((ucast (map_size m p) - 16) div ucast (map_entry_size m p)))"

definition int_of_u64 :: "u64 \<Rightarrow> int" where
  "int_of_u64 x = sint (ucast x :: u32)"

definition print_map_entry :: "mem \<Rightarrow> u64 \<Rightarrow> nat \<Rightarrow> terminal \<Rightarrow> terminal out" where
  "print_map_entry m p i t =
     (let e = memory_maps m p (of_nat i)
      in terminal_printf m (''Addr: %#zx '' @ [CHR 0x09] @ '' Length: %#zx'' @ [newline])
           [base_addr e, entry_length e] t)"

definition handle_memory_map :: "mem \<Rightarrow> u64 \<Rightarrow> terminal \<Rightarrow> terminal out" where
  "handle_memory_map m p t =
     obind (terminal_printf m (''Memory map tag'' @ [newline]) [] t) (\<lambda>t1.
     obind (entry_count m p) (\<lambda>n. foldM (print_map_entry m p) [0..<nat (int_of_u64 n)] t1))"

datatype multiboot_tags =
    multiboot_end_tag | multiboot_boot_command_line_tag | multiboot_boot_load_name_tag
  | multiboot_modules_tag | multiboot_memory_info_tag | multiboot_bios_boot_device_tag
  | multiboot_memory_map_tag | multiboot_elf_symbols_tag | multiboot_apm_table_tag
  | multiboot_vbe_info_tag | multiboot_framebuffer_info_tag
  | multiboot_EFI32_system_table_tag | multiboot_EFI64_system_table_tag
  | multiboot_SMSBIOS_tables_tag | multiboot_ACPI_old_RSDP_tag
  | multiboot_ACPI_new_RSDP_tag | multiboot_networking_information_tag
  | multiboot_EFI_memory_map_tag | multiboot_EFI_boot_services_tag
  | multiboot_EFI32_image_ptr_tag | multiboot_EFI64_image_ptr_tag
  | multiboot_image_load_base_phys_addr_tag

fun tag_number :: "multiboot_tags \<Rightarrow> u32" where
  "tag_number multiboot_end_tag = 0"
| "tag_number multiboot_boot_command_line_tag = 1"
| "tag_number multiboot_boot_load_name_tag = 2"
| "tag_number multiboot_modules_tag = 3"
| "tag_number multiboot_memory_info_tag = 4"
| "tag_number multiboot_bios_boot_device_tag = 5"
| "tag_number multiboot_memory_map_tag = 6"
| "tag_number multiboot_elf_symbols_tag = 9"
| "tag_number multiboot_apm_table_tag = 10"
| "tag_number multiboot_vbe_info_tag = 7"
| "tag_number multiboot_framebuffer_info_tag = 8"
| "tag_number multiboot_EFI32_system_table_tag = 11"
| "tag_number multiboot_EFI64_system_table_tag = 12"
| "tag_number multiboot_SMSBIOS_tables_tag = 13"
| "tag_number multiboot_ACPI_old_RSDP_tag = 14"
| "tag_number multiboot_ACPI_new_RSDP_tag = 15"
| "tag_number multiboot_networking_information_tag = 16"
| "tag_number multiboot_EFI_memory_map_tag = 17"
| "tag_number multiboot_EFI_boot_services_tag = 18"
| "tag_number multiboot_EFI32_image_ptr_tag = 19"
| "tag_number multiboot_EFI64_image_ptr_tag = 20"
| "tag_number multiboot_image_load_base_phys_addr_tag = 21"

definition tag_message :: "u32 \<Rightarrow> string" where
  "tag_message ty =
     (if ty = tag_number multiboot_end_tag then ''End tag''
      else if ty = tag_number multiboot_modules_tag then ''Modules tag''
      else if ty = tag_number multiboot_apm_table_tag then ''APM table tag''
      else if ty = tag_number multiboot_vbe_info_tag then ''VBE info tag''
      else if ty = tag_number multiboot_framebuffer_info_tag then ''Framebuffer tag''
      else if ty = tag_number multiboot_EFI32_system_table_tag then ''EFI32_system_table_tag tag''
      else if ty = tag_number multiboot_EFI64_system_table_tag then ''EFI64_system_table_tag tag''
      else if ty = tag_number multiboot_SMSBIOS_tables_tag then ''SMSBIOS_tables_tag tag''
      else if ty = tag_number multiboot_ACPI_old_RSDP_tag then ''ACPI_old_RSDP_tag tag''
      else if ty = tag_number multiboot_ACPI_new_RSDP_tag then ''ACPI_new_RSDP_tag tag''
      else if ty = tag_number multiboot_networking_information_tag then ''networking_information_tag tag''
      else if ty = tag_number multiboot_EFI_memory_map_tag then ''EFI_memory_map_tag tag''
      else if ty = tag_number multiboot_EFI_boot_services_tag then ''EFI_boot_services_tag tag''
      else if ty = tag_number multiboot_EFI32_image_ptr_tag then ''EFI32_image_ptr_tag tag''
      else if ty = tag_number multiboot_EFI64_image_ptr_tag then ''EFI64_image_ptr_tag tag''
      else ''image_load_base_phys_add tag'') @ [newline]"

text \<open>The texts of a boot loader name and of a command line, which follow the type and the size.\<close>

definition load_name_string :: "u64 \<Rightarrow> u64" where "load_name_string p = p + 8"
definition command_line_string :: "u64 \<Rightarrow> u64" where "command_line_string p = p + 8"

text \<open>The body of the \<open>switch\<close>: what a tag stores in the globals and prints.\<close>

definition handle_tag ::
  "mem \<Rightarrow> u64 \<Rightarrow> multiboot_state \<times> terminal \<Rightarrow> (multiboot_state \<times> terminal) out" where
  "handle_tag m p st =
     (let (s, t) = st; ty = tag_type (tag_at m p);
          keep = (\<lambda>s' r. obind r (\<lambda>t'. ret (s', t')))
      in if ty = tag_number multiboot_memory_info_tag then
           keep (s\<lparr>info := p\<rparr>)
             (obind (terminal_printf m (''Mem info tag'' @ [newline]) [] t)
                (terminal_printf m (''mem_lower: %#zx '' @ [CHR 0x09] @ '' mem_upper: %#zx'' @ [newline])
                   [ucast (mem_lower (memory_information_at m p)),
                    ucast (mem_upper (memory_information_at m p))]))
         else if ty = tag_number multiboot_boot_load_name_tag then
           keep (s\<lparr>loader_name := p\<rparr>) (terminal_printf m (''boot load name: %s'' @ [newline]) [load_name_string p] t)
         else if ty = tag_number multiboot_bios_boot_device_tag then
           keep (s\<lparr>device := p\<rparr>) (terminal_printf m (''Bios boot device'' @ [newline]) [] t)
         else if ty = tag_number multiboot_boot_command_line_tag then
           keep (s\<lparr>command_line := p\<rparr>) (terminal_printf m (''Boot command line: %s'' @ [newline]) [command_line_string p] t)
         else if ty = tag_number multiboot_elf_symbols_tag then
           keep (s\<lparr>symbols := p, data := (data s)\<lparr>md_elf_symbols := p\<rparr>\<rparr>)
             (terminal_printf m (''Elf symbols'' @ [newline]) [] t)
         else if ty = tag_number multiboot_memory_map_tag then
           keep (s\<lparr>maps := p, data := (data s)\<lparr>md_memory_map := p\<rparr>\<rparr>) (handle_memory_map m p t)
         else if ty \<le> tag_number multiboot_image_load_base_phys_addr_tag then
           keep s (terminal_printf m (tag_message ty) [] t)
         else
           keep s (terminal_printf m
             (''Failed with tag: %#zx '' @ [CHR 0x09] @ '' Type: %#zx '' @ [CHR 0x09] @ '' Size: %#zx'' @ [newline])
             [p, ucast ty, ucast (tag_size (tag_at m p))] t))"

partial_function (option) parse_tags ::
  "mem \<Rightarrow> u64 \<Rightarrow> multiboot_state \<times> terminal \<Rightarrow> (multiboot_state \<times> terminal) out" where
  "parse_tags m p st =
     obind (handle_tag m p st) (\<lambda>st'.
       (let next = find_next_tag_address m p
        in if next \<noteq> 0 then parse_tags m next st' else ret st'))"

declare parse_tags.simps [code]

text \<open>
  The ELF section table print-out. The \<open>size_t\<close> loop over single bits runs from bit 0 to bit
  62 (\<open>i < SIZE_MAX >> 1\<close>), and the flag is converted to the 32-bit \<open>enum ef_sh_flags\<close>.
\<close>

definition print_section_flag ::
  "mem \<Rightarrow> (nat \<Rightarrow> u64) \<Rightarrow> multiboot_elf_section_header \<Rightarrow> nat \<Rightarrow> terminal \<Rightarrow> terminal out" where
  "print_section_flag m lit h k t =
     (let flag = (ucast (push_bit k 1 AND sh_flags h) :: u32)
      in if flag \<noteq> 0 then terminal_printf m ''%s '' [get_sh_flag_string lit flag] t else ret t)"

definition print_section ::
  "mem \<Rightarrow> (nat \<Rightarrow> u64) \<Rightarrow> u64 \<Rightarrow> multiboot_elf_section_header \<Rightarrow> nat \<Rightarrow> terminal \<Rightarrow> terminal out" where
  "print_section m lit sy string_table i t =
     (let h = section_header_at m (sy + 20 + ucast (of_nat i * elf_entsize m sy))
      in obind (terminal_printf m (''Addr: %#zx '' @ [CHR 0x09] @ '' Length: %#zx '' @ [CHR 0x09] @ '' Flags: '')
                  [sh_addr h, ucast (sh_type h)] t) (\<lambda>t1.
         obind (foldM (print_section_flag m lit h) [0..<63] t1)
           (terminal_printf m (''Size: %#zx %s'' @ [newline])
              [sh_size h, sh_addr string_table + ucast (sh_name h)])))"

definition print_elf_symbols ::
  "mem \<Rightarrow> (nat \<Rightarrow> u64) \<Rightarrow> multiboot_state \<Rightarrow> terminal \<Rightarrow> terminal out" where
  "print_elf_symbols m lit s t =
     (let sy = symbols s;
          string_table = section_header_at m (sy + 20 + ucast (elf_shndx m sy * elf_entsize m sy))
      in obind (int_range (ucast (elf_num m sy))) (\<lambda>is. foldM (print_section m lit sy string_table) is t))"

definition print_memory_tags :: "mem \<Rightarrow> multiboot_state \<Rightarrow> terminal \<Rightarrow> terminal out" where
  "print_memory_tags m s t =
     obind (entry_count m (maps s)) (\<lambda>n.
       foldM (\<lambda>i. let e = map_entry_at m (maps s + 16 + of_nat i * 24)
                  in terminal_printf m (''Addr: %#zx '' @ [CHR 0x09] @ '' Length: %#zx '' @ [CHR 0x09] @
                         '' Type: %#zx'' @ [newline])
                       [base_addr e, entry_length e, ucast (entry_type e)])
         [0..<nat (int_of_u64 n)] t)"

definition print_tag :: "mem \<Rightarrow> u64 \<Rightarrow> terminal \<Rightarrow> terminal out" where
  "print_tag m p t =
     terminal_printf m (''Tag address: %#zx '' @ [CHR 0x09] @ '' Type: %#zx '' @ [CHR 0x09] @ '' Size: %#zx'' @ [newline])
       [p, ucast (tag_type (tag_at m p)), ucast (tag_size (tag_at m p))] t"

definition parse_multiboot_data ::
  "mem \<Rightarrow> (nat \<Rightarrow> u64) \<Rightarrow> u64 \<Rightarrow> multiboot_state \<times> terminal \<Rightarrow> (multiboot_state \<times> terminal) out" where
  "parse_multiboot_data m lit pstart st =
     obind (parse_tags m (pstart + 8) st) (\<lambda>(s, t).
       obind (print_elf_symbols m lit s t) (\<lambda>t'. ret (s, t')))"

definition init_multiboot_data ::
  "mem \<Rightarrow> (nat \<Rightarrow> u64) \<Rightarrow> u64 \<Rightarrow> multiboot_state \<times> terminal \<Rightarrow> (multiboot_state \<times> terminal) out" where
  "init_multiboot_data m lit pmultiboot st =
     (let (s, t) = st; s1 = s\<lparr>start_ptr := pmultiboot, start := pmultiboot\<rparr>
      in obind (terminal_printf m (''Multiboot addr: %#zx '' @ [CHR 0x09] @ '' Total size: %#zx'' @ [newline])
                  [pmultiboot, ucast (total_size_at m pmultiboot)] t) (\<lambda>t1.
           parse_multiboot_data m lit pmultiboot (s1\<lparr>data := (data s1)\<lparr>md_start := pmultiboot\<rparr>\<rparr>, t1)))"

section \<open>The tag walk returns the tables\<close>

text \<open>What a tag stores in the globals, apart from its messages.\<close>

definition store_tag :: "mem \<Rightarrow> u64 \<Rightarrow> multiboot_state \<Rightarrow> multiboot_state" where
  "store_tag m p s =
     (let ty = tag_type (tag_at m p)
      in if ty = 4 then s\<lparr>info := p\<rparr>
         else if ty = 2 then s\<lparr>loader_name := p\<rparr>
         else if ty = 5 then s\<lparr>device := p\<rparr>
         else if ty = 1 then s\<lparr>command_line := p\<rparr>
         else if ty = 9 then s\<lparr>symbols := p, data := (data s)\<lparr>md_elf_symbols := p\<rparr>\<rparr>
         else if ty = 6 then s\<lparr>maps := p, data := (data s)\<lparr>md_memory_map := p\<rparr>\<rparr>
         else s)"

text \<open>
  A tag whose message can be printed: a name or command line is a NUL-terminated string at a
  pointer the \<open>int\<close> cast of \<open>%s\<close> keeps, and a memory map has a nonzero entry size.
\<close>

definition printable_tag :: "mem \<Rightarrow> u64 \<Rightarrow> bool" where
  "printable_tag m p \<longleftrightarrow>
     (tag_type (tag_at m p) \<in> {1, 2} \<longrightarrow> (\<exists>bs. stored_string m (as_int (p + 8)) bs)) \<and>
     (tag_type (tag_at m p) = 6 \<longrightarrow> map_entry_size m p \<noteq> 0)"

text \<open>Messages made of plain characters and \<open>%#zx\<close> conversions always print.\<close>

lemma printf_zx_format:
  "terminal_printf m (CHR ''%'' # ''#zx'' @ s) (v # args) t =
     terminal_printf m s args (print_text (addr_text (CHR ''x'') (unat v)) t)"
  by (simp add: printf_zx)

lemma print_map_entry_ret: "\<exists>t'. print_map_entry m p i t = ret t'"
  by (simp add: print_map_entry_def Let_def printf_char printf_zx printf_nil newline_def)

lemma foldM_returns: "(\<And>x s. \<exists>s'. f x s = ret s') \<Longrightarrow> \<exists>s'. foldM f xs s = ret s'"
proof (induction xs arbitrary: s)
  case (Cons x xs)
  obtain u where "f x s = ret u" using Cons.prems by blast
  then show ?case using Cons by simp
qed simp

lemma handle_memory_map_ret: "map_entry_size m p \<noteq> 0 \<Longrightarrow> \<exists>t'. handle_memory_map m p t = ret t'"
  using foldM_returns [OF print_map_entry_ret]
  by (simp add: handle_memory_map_def entry_count_def printf_char printf_nil newline_def)

lemma plain_tag_message: "plain (tag_message ty)"
  by (simp add: tag_message_def plain_def newline_def)

lemma handle_tag_ret:
  assumes "printable_tag m p"
  shows "\<exists>t'. handle_tag m p (s, t) = ret (store_tag m p s, t')"
proof -
  let ?ty = "tag_type (tag_at m p)"
  consider "?ty \<in> {1, 2}" | "?ty = 6" | "?ty \<notin> {1, 2, 6}" by blast
  then show ?thesis
  proof cases
    case 1
    then obtain bs where "stored_string m (as_int (p + 8)) bs" using assms by (auto simp: printable_tag_def)
    then show ?thesis
      using 1 by (auto simp: handle_tag_def load_name_string_def command_line_string_def store_tag_def printf_char printf_nil printf_s newline_def)
  next
    case 2
    then obtain t' where "handle_memory_map m p t = ret t'"
      using assms handle_memory_map_ret [of m p t] by (auto simp: printable_tag_def)
    then show ?thesis using 2 by (simp add: handle_tag_def load_name_string_def command_line_string_def store_tag_def)
  next
    case 3
    then show ?thesis
      by (auto simp: handle_tag_def load_name_string_def command_line_string_def store_tag_def Let_def printf_char printf_zx printf_nil newline_def
          terminal_printf_plain [OF plain_tag_message])
  qed
qed

text \<open>A chain of tags linked by \<open>find_next_tag_address\<close> and closed by an end tag.\<close>

fun tag_chain :: "mem \<Rightarrow> u64 list \<Rightarrow> bool" where
  "tag_chain m [] = False"
| "tag_chain m [p] \<longleftrightarrow> tag_type (tag_at m p) = 0"
| "tag_chain m (p # q # ps) \<longleftrightarrow>
     tag_type (tag_at m p) \<noteq> 0 \<and> find_next_tag_address m p = q \<and> q \<noteq> 0 \<and> tag_chain m (q # ps)"

lemma parse_tags_chain:
  assumes "tag_chain m (p # ps)" "\<forall>q \<in> set (p # ps). printable_tag m q"
  shows "\<exists>t'. parse_tags m p (s, t) = ret (fold (store_tag m) (p # ps) s, t')"
  using assms
proof (induction ps arbitrary: p s t)
  case Nil
  obtain t' where "handle_tag m p (s, t) = ret (store_tag m p s, t')"
    using handle_tag_ret [of m p s t] Nil.prems(2) by auto
  then show ?case
    using Nil.prems(1) by (subst parse_tags.simps) (simp add: find_next_tag_address_def)
next
  case (Cons q ps)
  obtain t' where "handle_tag m p (s, t) = ret (store_tag m p s, t')"
    using handle_tag_ret [of m p s t] Cons.prems(2) by auto
  moreover have "\<exists>t''. parse_tags m q (store_tag m p s, t') = ret (fold (store_tag m) (q # ps) (store_tag m p s), t'')"
    using Cons.prems by (intro Cons.IH) simp_all
  ultimately show ?case
    using Cons.prems(1) by (subst parse_tags.simps) (simp add: Let_def)
qed

text \<open>The last tag of a type in the chain, or the old pointer if there is none.\<close>

definition last_tag :: "mem \<Rightarrow> u32 \<Rightarrow> u64 list \<Rightarrow> u64 \<Rightarrow> u64" where
  "last_tag m ty ps old = last (old # filter (\<lambda>p. tag_type (tag_at m p) = ty) ps)"

lemma fold_store_tag:
  "md_memory_map (data (fold (store_tag m) ps s)) = last_tag m 6 ps (md_memory_map (data s))"
  "maps (fold (store_tag m) ps s) = last_tag m 6 ps (maps s)"
  "md_elf_symbols (data (fold (store_tag m) ps s)) = last_tag m 9 ps (md_elf_symbols (data s))"
  "symbols (fold (store_tag m) ps s) = last_tag m 9 ps (symbols s)"
  "start (fold (store_tag m) ps s) = start s"
  "md_start (data (fold (store_tag m) ps s)) = md_start (data s)"
  by (induction ps arbitrary: s) (auto simp: last_tag_def store_tag_def Let_def)

lemma unat_ucast32: "unat (ucast (x :: u32) :: u64) = unat x"
proof -
  have "unat x < 2 ^ 32" using unsigned_less [of x] by simp
  then show ?thesis by (simp add: unsigned_ucast_eq take_bit_nat_eq_self)
qed

text \<open>
  A section table that can be printed: the flag names and the section names are NUL-terminated
  strings at pointers the \<open>int\<close> cast of \<open>%s\<close> keeps.
\<close>

definition section_string_table :: "mem \<Rightarrow> u64 \<Rightarrow> multiboot_elf_section_header" where
  "section_string_table m sy = section_header_at m (sy + 20 + ucast (elf_shndx m sy * elf_entsize m sy))"

definition symbols_printable :: "mem \<Rightarrow> (nat \<Rightarrow> u64) \<Rightarrow> u64 \<Rightarrow> bool" where
  "symbols_printable m lit sy \<longleftrightarrow> unat (elf_num m sy) < 2 ^ 31 \<and> (\<forall>n. \<exists>bs. stored_string m (as_int (lit n)) bs) \<and>
     (\<forall>i < unat (elf_num m sy). \<exists>bs. stored_string m (as_int (sh_addr (section_string_table m sy) +
        ucast (sh_name (section_header_at m (sy + 20 + ucast (of_nat i * elf_entsize m sy)))))) bs)"

lemma foldM_returns_in: "(\<And>x s. x \<in> set xs \<Longrightarrow> \<exists>s'. f x s = ret s') \<Longrightarrow> \<exists>s'. foldM f xs s = ret s'"
proof (induction xs arbitrary: s)
  case (Cons x xs)
  obtain u where "f x s = ret u" using Cons.prems by fastforce
  then show ?case using Cons by simp
qed simp

lemma print_section_flag_ret:
  assumes "\<And>n. \<exists>bs. stored_string m (as_int (lit n)) bs"
  shows "\<exists>t'. print_section_flag m lit h k t = ret t'"
proof -
  obtain bs where "stored_string m (as_int (lit (get_sh_flag_index (ucast (push_bit k 1 AND sh_flags h))))) bs"
    using assms by blast
  then show ?thesis
    by (simp add: print_section_flag_def Let_def get_sh_flag_string_def printf_s printf_char printf_nil)
qed

lemma print_elf_symbols_ret:
  assumes "symbols_printable m lit (symbols s)"
  shows "\<exists>t'. print_elf_symbols m lit s t = ret t'"
proof -
  let ?sy = "symbols s" and ?tab = "section_string_table m (symbols s)"
  have n: "unat (elf_num m ?sy) < 2 ^ 31" and lit: "\<And>n. \<exists>bs. stored_string m (as_int (lit n)) bs"
    using assms by (simp_all add: symbols_printable_def)
  have "\<exists>u. print_section m lit ?sy ?tab i t' = ret u" if i: "i \<in> set [0..<unat (elf_num m ?sy)]" for i t'
  proof -
    let ?h = "section_header_at m (?sy + 20 + ucast (of_nat i * elf_entsize m ?sy))"
    obtain bs where bs: "stored_string m (as_int (sh_addr ?tab + ucast (sh_name ?h))) bs"
      using assms i by (auto simp: symbols_printable_def)
    have fl: "\<exists>v. foldM (print_section_flag m lit ?h) [0..<63] u = ret v" for u
      by (rule foldM_returns) (rule print_section_flag_ret [OF lit])
    obtain u where u: "terminal_printf m (''Addr: %#zx '' @ [CHR 0x09] @ '' Length: %#zx '' @ [CHR 0x09] @ '' Flags: '')
        [sh_addr ?h, ucast (sh_type ?h)] t' = ret u"
      by (simp add: printf_char printf_zx printf_nil)
    obtain v where v: "foldM (print_section_flag m lit ?h) [0..<63] u = ret v" using fl by blast
    have "\<exists>w. terminal_printf m (''Size: %#zx %s'' @ [newline]) [sh_size ?h, sh_addr ?tab + ucast (sh_name ?h)] v = ret w"
      using bs by (simp add: printf_char printf_zx printf_nil printf_s newline_def)
    then show ?thesis unfolding print_section_def Let_def u obind_simps v .
  qed
  then have "\<exists>t'. foldM (print_section m lit ?sy ?tab) [0..<unat (elf_num m ?sy)] t = ret t'"
    by (intro foldM_returns_in)
  then show ?thesis
    using n by (simp add: print_elf_symbols_def Let_def int_range_def unat_ucast32 flip: section_string_table_def)
qed

text \<open>The whole of \<open>init_multiboot_data\<close>.\<close>

lemma init_multiboot_ret:
  assumes "tag_chain m ((p + 8) # ps)" "\<forall>q \<in> set ((p + 8) # ps). printable_tag m q"
    and "symbols_printable m lit (last_tag m 9 ((p + 8) # ps) (symbols s))"
  shows "\<exists>s' t'. init_multiboot_data m lit p (s, t) = ret (s', t') \<and> start s' = p \<and>
    data s' = \<lparr>md_start = p, md_memory_map = last_tag m 6 ((p + 8) # ps) (md_memory_map (data s)),
      md_elf_symbols = last_tag m 9 ((p + 8) # ps) (md_elf_symbols (data s))\<rparr>"
proof -
  define s1 where "s1 = s\<lparr>start_ptr := p, start := p, data := (data s)\<lparr>md_start := p\<rparr>\<rparr>"
  obtain t1 where t1: "terminal_printf m (''Multiboot addr: %#zx '' @ [CHR 0x09] @ '' Total size: %#zx'' @ [newline])
      [p, ucast (total_size_at m p)] t = ret t1"
    by (simp add: printf_char printf_zx printf_nil newline_def)
  let ?s2 = "fold (store_tag m) ((p + 8) # ps) s1"
  obtain t2 where t2: "parse_tags m (p + 8) (s1, t1) = ret (?s2, t2)"
    using parse_tags_chain [OF assms(1,2)] by blast
  have f: "symbols ?s2 = last_tag m 9 ((p + 8) # ps) (symbols s)" "start ?s2 = p" "md_start (data ?s2) = p"
    "md_memory_map (data ?s2) = last_tag m 6 ((p + 8) # ps) (md_memory_map (data s))"
    "md_elf_symbols (data ?s2) = last_tag m 9 ((p + 8) # ps) (md_elf_symbols (data s))"
    unfolding fold_store_tag by (simp_all add: s1_def)
  obtain t3 where t3: "print_elf_symbols m lit ?s2 t2 = ret t3"
    using print_elf_symbols_ret [of m lit ?s2 t2] assms(3) unfolding f(1) by blast
  have c: "(s\<lparr>start_ptr := p, start := p\<rparr>)\<lparr>data := (data (s\<lparr>start_ptr := p, start := p\<rparr>))\<lparr>md_start := p\<rparr>\<rparr> = s1"
    by (simp add: s1_def)
  have "init_multiboot_data m lit p (s, t) = ret (?s2, t3)"
    unfolding init_multiboot_data_def Let_def prod.case t1 obind_simps c parse_multiboot_data_def t2 t3 ..
  then show ?thesis using f(2-5) by (intro exI [of _ ?s2] exI [of _ t3]) simp
qed

text \<open>The next tag is the first multiple of 8 at or after the end of the current one.\<close>

lemma unat_mod8: "unat (x mod 8 :: u64) = unat x mod 8"
  by (simp add: unat_mod)

lemma find_next_tag_aligned:
  assumes "tag_type (tag_at m p) \<noteq> 0" "unat p + unat (tag_size (tag_at m p)) + 8 \<le> 2 ^ 64"
  shows "8 dvd unat (find_next_tag_address m p)"
    "unat p + unat (tag_size (tag_at m p)) \<le> unat (find_next_tag_address m p)"
    "unat (find_next_tag_address m p) < unat p + unat (tag_size (tag_at m p)) + 8"
proof -
  let ?e = "unat p + unat (tag_size (tag_at m p))" and ?n = "p + ucast (tag_size (tag_at m p))"
  have sz: "unat (ucast (tag_size (tag_at m p)) :: u64) = unat (tag_size (tag_at m p))"
    by (rule unat_ucast32)
  have n: "unat ?n = ?e" using assms(2) sz unat_plus64 [of p "ucast (tag_size (tag_at m p))"] by simp
  have "8 dvd unat (find_next_tag_address m p) \<and> ?e \<le> unat (find_next_tag_address m p) \<and>
      unat (find_next_tag_address m p) < ?e + 8"
  proof (cases "?n mod 8 = 0")
    case True
    then have "?e mod 8 = 0" using n unat_mod8 [of ?n] by simp
    then show ?thesis using True assms(1) n by (simp add: find_next_tag_address_def Let_def mod_0_imp_dvd)
  next
    case False
    then have r: "0 < ?e mod 8" using n unat_mod8 [of ?n] by (metis gr0I unat_eq_zero)
    have "?n mod 8 \<le> 8" by (simp add: word_le_nat_alt unat_mod)
    then have "unat (8 - ?n mod 8) = 8 - ?e mod 8" by (simp add: unat_sub unat_mod8 n)
    then have "unat (?n + (8 - ?n mod 8)) = ?e + (8 - ?e mod 8)"
      using assms(2) n r unat_plus64 [of ?n "8 - ?n mod 8"] by simp
    then have "unat (find_next_tag_address m p) = ?e + (8 - ?e mod 8)"
      using False assms(1) by (simp add: find_next_tag_address_def Let_def)
    then show ?thesis using r by presburger
  qed
  then show "8 dvd unat (find_next_tag_address m p)" "?e \<le> unat (find_next_tag_address m p)"
    "unat (find_next_tag_address m p) < ?e + 8" by blast+
qed

text \<open>A tag that is its own successor is never left.\<close>

lemma parse_tags_stuck:
  assumes "find_next_tag_address m p = p" "p \<noteq> 0"
  shows "parse_tags m p st \<noteq> ret r"
proof
  assume "parse_tags m p st = ret r"
  then have "parse_tags m p st = Some (Inr r)" by (simp add: ret_def)
  then have "\<forall>x. Inr r = (Inr x :: fault + multiboot_state \<times> terminal) \<longrightarrow> \<not> (m = m \<and> p = p)"
  proof (rule parse_tags.raw_induct [where P = "\<lambda>m' p' st r. \<forall>x. r = Inr x \<longrightarrow> \<not> (m' = m \<and> p' = p)", rotated])
    fix f m' p' st r
    assume IH: "\<And>m' p' st r. f m' p' st = Some r \<Longrightarrow> \<forall>x. r = Inr x \<longrightarrow> \<not> (m' = m \<and> p' = p)"
      and eq: "obind (handle_tag m' p' st) (\<lambda>st'. let next = find_next_tag_address m' p'
        in if next \<noteq> 0 then f m' next st' else ret st') = Some r"
    show "\<forall>x. r = Inr x \<longrightarrow> \<not> (m' = m \<and> p' = p)"
    proof (intro allI impI notI, elim conjE)
      fix x assume r: "r = Inr x" and "m' = m" "p' = p"
      then have "obind (handle_tag m p st) (\<lambda>st'. f m p st') = ret x"
        using eq assms by (simp add: Let_def ret_def)
      then obtain st' where "f m p st' = ret x" by (auto simp: obind_eq_ret)
      then show False using IH [of m p st' "Inr x"] by (simp add: ret_def)
    qed
  qed
  then show False by simp
qed

section \<open>Properties\<close>

text \<open>A boot information block at 0x1000: a memory map with one area, an ELF tag and the end tag.\<close>

definition sample_boot :: mem where
  "sample_boot = bytes_mem 0x1000
     (le32 96 @ le32 0 @
      le32 6 @ le32 40 @ le32 24 @ le32 0 @ le64 0x100000 @ le64 0x7000000 @ le32 1 @ le32 0 @
      le32 9 @ le32 20 @ le32 0 @ le32 64 @ le32 0 @ le32 0 @
      le32 0 @ le32 8)"

definition no_boot_data :: multiboot_state where
  "no_boot_data = \<lparr>start_ptr = 0, start = 0, info = 0, loader_name = 0, device = 0, command_line = 0,
     symbols = 0, maps = 0, data = \<lparr>md_start = 0, md_memory_map = 0, md_elf_symbols = 0\<rparr>\<rparr>"

text \<open>C22. On a chain of tags that ends with an end tag and whose texts can be printed, the tag walk
  returns, and the memory map and ELF pointers are those of the last tag of their type (or
  unchanged when there is none), in both copies the code keeps.\<close>

theorem parse_tags_finds_tables:
  assumes "tag_chain m (p # ps)" "\<forall>q \<in> set (p # ps). printable_tag m q"
  shows "\<exists>s' t'. parse_tags m p (s, t) = ret (s', t') \<and>
    md_memory_map (data s') = last_tag m 6 (p # ps) (md_memory_map (data s)) \<and>
    maps s' = last_tag m 6 (p # ps) (maps s) \<and>
    md_elf_symbols (data s') = last_tag m 9 (p # ps) (md_elf_symbols (data s)) \<and>
    symbols s' = last_tag m 9 (p # ps) (symbols s) \<and> md_start (data s') = md_start (data s)"
  using parse_tags_chain [OF assms, of s t] fold_store_tag [of m "p # ps" s] by blast

theorem parse_tags_finds_tables_witness:
  "\<exists>s' t'. parse_tags sample_boot 0x1008 (no_boot_data, sample_terminal) = ret (s', t') \<and>
     md_memory_map (data s') = 0x1008 \<and> md_elf_symbols (data s') = 0x1030"
proof -
  have "tag_chain sample_boot [0x1008, 0x1030, 0x1048]"
    by (simp add: sample_boot_def tag_at_def find_next_tag_address_def load_eval)
  moreover have "tag_type (tag_at sample_boot 0x1008) = 6" "map_entry_size sample_boot 0x1008 = 24"
    "tag_type (tag_at sample_boot 0x1030) = 9" "tag_type (tag_at sample_boot 0x1048) = 0"
    by (simp_all add: sample_boot_def tag_at_def map_entry_size_def load_eval)
  moreover from this have "\<forall>q \<in> set [0x1008, 0x1030, 0x1048]. printable_tag sample_boot q"
    by (simp add: printable_tag_def)
  ultimately show ?thesis
    using parse_tags_finds_tables [of sample_boot "0x1008" "[0x1030, 0x1048]" no_boot_data sample_terminal]
    by (auto simp: last_tag_def)
qed

text \<open>The successor of a tag that is not the end tag is the first 8-byte boundary at or after the
  tag's end, when that end is below the top of the address space.\<close>

theorem next_tag_is_next_boundary:
  assumes "tag_type (tag_at m p) \<noteq> 0" "unat p + unat (tag_size (tag_at m p)) + 8 \<le> 2 ^ 64"
  shows "8 dvd unat (find_next_tag_address m p) \<and>
    unat p + unat (tag_size (tag_at m p)) \<le> unat (find_next_tag_address m p) \<and>
    unat (find_next_tag_address m p) < unat p + unat (tag_size (tag_at m p)) + 8"
  using find_next_tag_aligned [OF assms] by blast

theorem next_tag_is_next_boundary_witness:
  "8 dvd unat (find_next_tag_address sample_boot 0x1030)"
proof -
  have "tag_at sample_boot 0x1030 = \<lparr>tag_type = 9, tag_size = 20\<rparr>"
    by (simp add: sample_boot_def tag_at_def load_eval)
  then show ?thesis using next_tag_is_next_boundary [of sample_boot "0x1030"] by simp
qed

text \<open>A tag that is not the end tag, lies on an 8-byte boundary and has size 0 makes the tag walk
  never return a result: it handles the same tag for ever.\<close>

theorem zero_size_tag_hangs:
  assumes "tag_type (tag_at m p) \<noteq> 0" "tag_size (tag_at m p) = 0" "p mod 8 = 0" "p \<noteq> 0"
  shows "parse_tags m p st \<noteq> ret r"
  by (rule parse_tags_stuck) (use assms in \<open>simp_all add: find_next_tag_address_def Let_def\<close>)

theorem zero_size_tag_hangs_witness:
  "\<nexists>r. parse_tags (bytes_mem 0x1008 (le32 4 @ le32 0)) 0x1008 (no_boot_data, sample_terminal) = ret r"
proof
  assume "\<exists>r. parse_tags (bytes_mem 0x1008 (le32 4 @ le32 0)) 0x1008 (no_boot_data, sample_terminal) = ret r"
  moreover have "tag_at (bytes_mem 0x1008 (le32 4 @ le32 0)) 0x1008 = \<lparr>tag_type = 4, tag_size = 0\<rparr>"
    by (simp add: tag_at_def load_eval)
  ultimately show False
    using zero_size_tag_hangs [of "bytes_mem 0x1008 (le32 4 @ le32 0)" "0x1008"] by auto
qed

end
