(* ===== verification/Frame_Allocator.thy ===== *)
theory Frame_Allocator
  imports Multiboot
begin

text \<open>
  The physical frame allocator (src/frame_allocator.h, src/frame_allocator.c): the global
  \<open>allocator\<close>, its initialisation from the boot information, and the bump allocation over the
  areas of the memory map. \<open>struct frame\<close> has one member, the frame number, and is that
  number here. The lemmas say which frames can be handed out, that none is handed out
  twice, and when the search ends.
\<close>

section \<open>State and operations\<close>

definition PAGE_SIZE :: u64 where "PAGE_SIZE = 4096"

type_synonym frame = u64

record frame_allocator =
  next_free_frame :: frame
  mem_map :: u64
  entry_index :: u64
  num_entries :: u64
  kernel_start :: frame
  kernel_end :: frame
  multiboot_start :: frame
  multiboot_end :: frame

definition get_frame_for_addr :: "u64 \<Rightarrow> frame" where
  "get_frame_for_addr addr = addr div PAGE_SIZE"

definition get_frame_start_addr :: "frame \<Rightarrow> u64" where
  "get_frame_start_addr frame = frame * PAGE_SIZE"

definition int_loop :: "u64 \<Rightarrow> (nat \<Rightarrow> 's \<Rightarrow> 's) \<Rightarrow> 's \<Rightarrow> 's out" where
  "int_loop n body s = obind (int_range n) (\<lambda>is. ret (fold body is s))"

definition lowest_area :: "mem \<Rightarrow> u64 \<Rightarrow> nat \<Rightarrow> u64 \<times> u64 \<Rightarrow> u64 \<times> u64" where
  "lowest_area m p i = (\<lambda>(min_addr, index).
     let e = memory_maps m p (of_nat i)
     in if min_addr > base_addr e \<and> entry_length e \<ge> PAGE_SIZE then (base_addr e, of_nat i)
        else (min_addr, index))"

definition kernel_bounds :: "mem \<Rightarrow> u64 \<Rightarrow> nat \<Rightarrow> u64 \<times> u64 \<Rightarrow> u64 \<times> u64" where
  "kernel_bounds m sy i = (\<lambda>(kernel_start_addr, kernel_end_addr).
     let header = sectionheaders m sy (of_nat i);
         end_addr = sh_size header + sh_addr header
     in (if sh_size header > 0 \<and> sh_addr header < kernel_start_addr then sh_addr header else kernel_start_addr,
         if end_addr > kernel_end_addr then end_addr else kernel_end_addr))"

text \<open>\<open>boot\<close> is the global \<open>start\<close> of multiboot.c, the pointer to the boot information.\<close>

definition init_allocator :: "mem \<Rightarrow> u64 \<Rightarrow> multiboot_data \<Rightarrow> frame_allocator out" where
  "init_allocator m boot d =
     (let p = md_memory_map d; sy = md_elf_symbols d
      in obind (entry_count m p) (\<lambda>n.
         obind (int_loop n (lowest_area m p) (- 1, 0)) (\<lambda>(_, index).
         obind (int_loop (ucast (elf_num m sy)) (kernel_bounds m sy) (- 1, 0))
           (\<lambda>(kernel_start_addr, kernel_end_addr).
         ret \<lparr>next_free_frame = 0, mem_map = p, entry_index = index, num_entries = n,
              kernel_start = get_frame_for_addr kernel_start_addr,
              kernel_end = get_frame_for_addr kernel_end_addr,
              multiboot_start = get_frame_for_addr boot,
              multiboot_end = get_frame_for_addr (boot + ucast (total_size_at m boot))\<rparr>))))"

text \<open>The last byte of the area the allocator is in.\<close>

definition current_area :: "mem \<Rightarrow> frame_allocator \<Rightarrow> multiboot_memory_map_entry" where
  "current_area m al = memory_maps m (mem_map al) (entry_index al)"

definition area_last :: "multiboot_memory_map_entry \<Rightarrow> u64" where
  "area_last e = base_addr e + entry_length e - 1"

definition next_area :: "mem \<Rightarrow> u64 \<Rightarrow> u64 \<Rightarrow> nat \<Rightarrow> u64 \<times> u64 \<Rightarrow> u64 \<times> u64" where
  "next_area m p min_addr i = (\<lambda>(next_min_addr, index).
     let e = memory_maps m p (of_nat i)
     in if min_addr \<le> base_addr e \<and> entry_length e \<ge> PAGE_SIZE \<and> next_min_addr > base_addr e
        then (base_addr e, of_nat i) else (next_min_addr, index))"

definition switch_area :: "mem \<Rightarrow> frame_allocator \<Rightarrow> frame_allocator out" where
  "switch_area m al =
     obind (int_loop (num_entries al) (next_area m (mem_map al) (area_last (current_area m al)))
              (- 1, num_entries al))
       (\<lambda>(_, index). ret (al\<lparr>entry_index := index\<rparr>))"

text \<open>
  The \<open>do\<close> loop. The result is the return code, the number left in the caller's frame, and
  the allocator and the terminal (a success prints a message).
\<close>

partial_function (option) allocate_frame ::
  "mem \<Rightarrow> frame_allocator \<times> terminal \<Rightarrow> (int \<times> frame \<times> frame_allocator \<times> terminal) out" where
  "allocate_frame m st =
     (let al = fst st; t = snd st
      in if entry_index al = num_entries al then ret (-1, 0, al, t)
         else
           (let index = next_free_frame al;
                last_frame_of_area = get_frame_for_addr (area_last (current_area m al))
            in if index > last_frame_of_area then
                 obind (switch_area m al) (\<lambda>al'. allocate_frame m (al', t))
               else if index \<ge> kernel_start al \<and> index \<le> kernel_end al then
                 allocate_frame m (al\<lparr>next_free_frame := index + 1\<rparr>, t)
               else if index \<ge> multiboot_start al \<and> index \<le> multiboot_end al then
                 allocate_frame m (al\<lparr>next_free_frame := index + 1\<rparr>, t)
               else
                 obind (terminal_printf m (''alloc'' @ [newline]) [] t) (\<lambda>t'.
                   ret (0, index, al\<lparr>next_free_frame := index + 1\<rparr>, t'))))"

declare allocate_frame.simps [code]

definition deallocate_frame :: "frame \<Rightarrow> frame_allocator \<Rightarrow> frame_allocator" where
  "deallocate_frame frame al = al"

section \<open>What an allocation does\<close>

text \<open>The frames the allocator never hands out: the kernel image's and the boot information's.\<close>

definition reserved :: "frame_allocator \<Rightarrow> frame \<Rightarrow> bool" where
  "reserved al f \<longleftrightarrow> kernel_start al \<le> f \<and> f \<le> kernel_end al \<or> multiboot_start al \<le> f \<and> f \<le> multiboot_end al"

definition same_config :: "frame_allocator \<Rightarrow> frame_allocator \<Rightarrow> bool" where
  "same_config al al' \<longleftrightarrow>
     al' = al\<lparr>next_free_frame := next_free_frame al', entry_index := entry_index al'\<rparr>"

lemma same_config_refl [simp]: "same_config al al"
  by (simp add: same_config_def)

lemma same_config_trans: "same_config al al' \<Longrightarrow> same_config al' al'' \<Longrightarrow> same_config al al''"
  unfolding same_config_def by (cases al, cases al', cases al'') simp

lemma same_config_update [simp]:
  "same_config al (al\<lparr>next_free_frame := f\<rparr>)" "same_config al (al\<lparr>entry_index := i\<rparr>)"
  by (simp_all add: same_config_def)

lemma reserved_same_config: "same_config al al' \<Longrightarrow> reserved al' = reserved al"
  unfolding same_config_def by (cases al, cases al') (simp add: reserved_def fun_eq_iff)

lemma reserved_update [simp]:
  "reserved (al\<lparr>next_free_frame := f\<rparr>) = reserved al" "reserved (al\<lparr>entry_index := i\<rparr>) = reserved al"
  by (simp_all add: reserved_def fun_eq_iff)

lemma unat_get_frame: "unat (get_frame_for_addr a) = unat a div 4096"
  by (simp add: get_frame_for_addr_def PAGE_SIZE_def unat_div)

lemma get_frame_bound: "unat (get_frame_for_addr a) < 2 ^ 52"
  using unat64_lt [of a] by (simp add: unat_get_frame)

lemma switch_area_shape:
  assumes "switch_area m al = ret al'"
  shows "\<exists>i. al' = al\<lparr>entry_index := i\<rparr>"
  using assms by (auto simp: switch_area_def obind_eq_ret split: prod.splits)

text \<open>
  The effect of a call that returns: nothing between the old position and the new one is
  free, and on success the frame is the first that is not reserved.
\<close>

definition alloc_post ::
  "mem \<Rightarrow> frame_allocator \<times> terminal \<Rightarrow> int \<times> frame \<times> frame_allocator \<times> terminal \<Rightarrow> bool" where
  "alloc_post m = (\<lambda>(al, t) (c, f, al', t').
     same_config al al' \<and> next_free_frame al \<le> next_free_frame al' \<and>
     (c = 0 \<and> next_free_frame al \<le> f \<and> next_free_frame al' = f + 1 \<and> unat f < 2 ^ 52 \<and> \<not> reserved al f \<and>
        (\<forall>k. next_free_frame al \<le> k \<and> k < f \<longrightarrow> reserved al k) \<and>
        entry_index al' \<noteq> num_entries al' \<and> f \<le> get_frame_for_addr (area_last (current_area m al')) \<and>
        t' = fold print_plain (''alloc'' @ [newline]) t \<or>
      c = -1 \<and> f = 0 \<and> entry_index al' = num_entries al' \<and> t' = t \<and>
        (\<forall>k. next_free_frame al \<le> k \<and> k < next_free_frame al' \<longrightarrow> reserved al k)))"

lemma alloc_message: "terminal_printf m (''alloc'' @ [newline]) args t = ret (fold print_plain (''alloc'' @ [newline]) t)"
  by (rule terminal_printf_plain) (simp add: plain_def newline_def)

lemma next_le: "unat (i :: u64) < 2 ^ 52 \<Longrightarrow> i \<le> k \<longleftrightarrow> k = i \<or> i + 1 \<le> k"
proof -
  assume "unat i < 2 ^ 52"
  then have "unat (i + 1) = unat i + 1" by (simp add: unat_plus64)
  then show ?thesis by (auto simp: word_le_nat_alt word_unat_eq_iff)
qed

lemma not_next_le [simp]: "unat f < 2 ^ 52 \<Longrightarrow> \<not> f + 1 \<le> (f :: u64)"
  by (simp add: word_le_nat_alt unat_plus64)

lemma alloc_post_skip:
  assumes "alloc_post m (al\<lparr>next_free_frame := next_free_frame al + 1\<rparr>, t) r"
    and "reserved al (next_free_frame al)" "unat (next_free_frame al) < 2 ^ 52"
  shows "alloc_post m (al, t) r"
proof -
  obtain c f al' t' where r: "r = (c, f, al', t')" by (metis prod_cases4)
  have "next_free_frame al \<le> next_free_frame al + 1" using next_le [OF assms(3)] by blast
  moreover have "same_config al al'"
    using assms(1) same_config_trans [OF same_config_update(1)] by (auto simp: alloc_post_def r)
  ultimately show ?thesis
    using assms next_le [OF assms(3)] by (auto simp: alloc_post_def r)
qed

lemma alloc_post_switch:
  assumes "alloc_post m (al\<lparr>entry_index := i\<rparr>, t) r"
  shows "alloc_post m (al, t) r"
proof -
  obtain c f al' t' where r: "r = (c, f, al', t')" by (metis prod_cases4)
  have "same_config al al'"
    using assms same_config_trans [OF same_config_update(2)] by (auto simp: alloc_post_def r)
  then show ?thesis using assms by (auto simp: alloc_post_def r)
qed

lemma allocate_frame_post:
  assumes "allocate_frame m (al, t) = ret r"
  shows "alloc_post m (al, t) r"
proof -
  have "allocate_frame m (al, t) = Some (Inr r)" using assms by (simp add: ret_def)
  then have "\<forall>x. Inr r = (Inr x :: fault + _) \<longrightarrow> alloc_post m (al, t) x"
  proof (rule allocate_frame.raw_induct [where P = "\<lambda>m' st r. \<forall>x. r = Inr x \<longrightarrow> alloc_post m' st x", rotated], goal_cases)
    case (1 F m st r)
    show ?case
    proof (intro allI impI)
      fix x assume r: "r = Inr x"
      obtain al t where st: "st = (al, t)" by (cases st)
      have IH: "alloc_post m st' x" if "F m st' = ret x" for st'
        using that 1(1) [of m st' "Inr x"] by (simp add: ret_def)
      let ?i = "next_free_frame al" and ?last = "get_frame_for_addr (area_last (current_area m al))"
      consider "entry_index al = num_entries al"
        | "entry_index al \<noteq> num_entries al" "?i > ?last"
        | "entry_index al \<noteq> num_entries al" "\<not> ?i > ?last" "reserved al ?i"
        | "entry_index al \<noteq> num_entries al" "\<not> ?i > ?last" "\<not> reserved al ?i" by blast
      then show "alloc_post m st x"
      proof cases
        case 1
        then show ?thesis using \<open>_ = Some r\<close> r by (auto simp: st alloc_post_def ret_def)
      next
        case 2
        then obtain al' where "switch_area m al = ret al'" "F m (al', t) = ret x"
          using \<open>_ = Some r\<close> r by (auto simp: st obind_eq_ret simp flip: ret_def)
        then show ?thesis using switch_area_shape IH alloc_post_switch st by blast
      next
        case 3
        have "unat ?i < 2 ^ 52"
          using 3(2) get_frame_bound [of "area_last (current_area m al)"] by (simp add: word_less_nat_alt)
        moreover have "F m (al\<lparr>next_free_frame := ?i + 1\<rparr>, t) = ret x"
          using 3 \<open>_ = Some r\<close> r by (auto simp: st reserved_def ret_def Let_def split: if_splits)
        ultimately show ?thesis using 3(3) IH alloc_post_skip st by blast
      next
        case 4
        have b: "unat ?i < 2 ^ 52"
          using 4(2) get_frame_bound [of "area_last (current_area m al)"] by (simp add: word_less_nat_alt)
        have "ret (0, ?i, al\<lparr>next_free_frame := ?i + 1\<rparr>, fold print_plain (''alloc'' @ [newline]) t) = ret x"
          using 4 \<open>_ = Some r\<close> r by (auto simp: st reserved_def Let_def alloc_message [simplified] simp flip: ret_def)
        moreover have "?i \<le> ?i + 1" using next_le [OF b, of "?i + 1"] by simp
        ultimately show ?thesis using 4 b by (auto simp: alloc_post_def st current_area_def)
      qed
    qed
  qed
  then show ?thesis by simp
qed

section \<open>The search ends\<close>

text \<open>
  The loops of \<open>init_allocator\<close> and \<open>switch_area\<close> select the first of the entries with the
  lowest base among those that qualify.
\<close>

definition select_lowest :: "(nat \<Rightarrow> bool) \<Rightarrow> (nat \<Rightarrow> u64) \<Rightarrow> nat \<Rightarrow> u64 \<times> u64 \<Rightarrow> u64 \<times> u64" where
  "select_lowest P key i = (\<lambda>(low, index). if P i \<and> key i < low then (key i, of_nat i) else (low, index))"

lemma select_lowest_apply [simp]:
  "select_lowest P key i (low, index) = (if P i \<and> key i < low then (key i, of_nat i) else (low, index))"
  by (simp add: select_lowest_def)

lemma fold_select_lowest:
  assumes "\<And>i. i < n \<Longrightarrow> P i \<Longrightarrow> key i < - 1"
  shows "(\<forall>i<n. \<not> P i) \<and> fold (select_lowest P key) [0..<n] (- 1, d) = (- 1, d) \<or>
    (\<exists>j<n. P j \<and> (\<forall>i<n. P i \<longrightarrow> key j \<le> key i) \<and>
       fold (select_lowest P key) [0..<n] (- 1, d) = (key j, of_nat j))"
  using assms
proof (induction n)
  case (Suc n)
  then have IH: "(\<forall>i<n. \<not> P i) \<and> fold (select_lowest P key) [0..<n] (- 1, d) = (- 1, d) \<or>
    (\<exists>j<n. P j \<and> (\<forall>i<n. P i \<longrightarrow> key j \<le> key i) \<and>
       fold (select_lowest P key) [0..<n] (- 1, d) = (key j, of_nat j))" by simp
  have [simp]: "P n \<Longrightarrow> key n < - 1" using Suc.prems by simp
  show ?case
  proof (cases "P n")
    case True
    from IH show ?thesis
    proof
      assume "(\<forall>i<n. \<not> P i) \<and> fold (select_lowest P key) [0..<n] (- 1, d) = (- 1, d)"
      then show ?thesis using True by (intro disjI2 exI [of _ n]) (auto simp: less_Suc_eq)
    next
      assume "\<exists>j<n. P j \<and> (\<forall>i<n. P i \<longrightarrow> key j \<le> key i) \<and>
       fold (select_lowest P key) [0..<n] (- 1, d) = (key j, of_nat j)"
      then obtain j where j: "j < n" "P j" "\<And>i. i < n \<Longrightarrow> P i \<Longrightarrow> key j \<le> key i"
        "fold (select_lowest P key) [0..<n] (- 1, d) = (key j, of_nat j)" by blast
      show ?thesis
      proof (cases "key n < key j")
        case True
        then show ?thesis using \<open>P n\<close> j
          by (intro disjI2 exI [of _ n]) (auto simp: less_Suc_eq intro: order_trans [OF less_imp_le])
      next
        case False
        then show ?thesis using j by (intro disjI2 exI [of _ j]) (auto simp: less_Suc_eq)
      qed
    qed
  next
    case False
    have "fold (select_lowest P key) [0..<Suc n] (- 1, d) = fold (select_lowest P key) [0..<n] (- 1, d)"
      using False by (cases "fold (select_lowest P key) [0..<n] (- 1, d)") simp
    then show ?thesis using IH False by (metis less_Suc_eq)
  qed
qed simp

lemma next_area_select:
  "next_area m p a = select_lowest (\<lambda>i. a \<le> base_addr (memory_maps m p (of_nat i)) \<and>
       PAGE_SIZE \<le> entry_length (memory_maps m p (of_nat i))) (\<lambda>i. base_addr (memory_maps m p (of_nat i)))"
  by (auto simp: next_area_def select_lowest_def Let_def fun_eq_iff)

lemma lowest_area_select:
  "lowest_area m p = select_lowest (\<lambda>i. PAGE_SIZE \<le> entry_length (memory_maps m p (of_nat i)))
       (\<lambda>i. base_addr (memory_maps m p (of_nat i)))"
  by (auto simp: lowest_area_def select_lowest_def Let_def fun_eq_iff)

text \<open>
  A memory map the walk can rely on: few enough entries for an \<open>int\<close>, none of them empty
  or past the top of the address space, and no two overlapping.
\<close>

definition area :: "mem \<Rightarrow> u64 \<Rightarrow> nat \<Rightarrow> multiboot_memory_map_entry" where
  "area m p i = memory_maps m p (of_nat i)"

definition area_base :: "mem \<Rightarrow> u64 \<Rightarrow> nat \<Rightarrow> nat" where
  "area_base m p i = unat (base_addr (area m p i))"

definition area_len :: "mem \<Rightarrow> u64 \<Rightarrow> nat \<Rightarrow> nat" where
  "area_len m p i = unat (entry_length (area m p i))"

definition map_ok :: "mem \<Rightarrow> u64 \<Rightarrow> nat \<Rightarrow> bool" where
  "map_ok m p n \<longleftrightarrow> n < 2 ^ 31 \<and>
     (\<forall>i<n. 0 < area_len m p i \<and> area_base m p i + area_len m p i \<le> 2 ^ 64) \<and>
     (\<forall>i<n. \<forall>j<n. i \<noteq> j \<longrightarrow> area_base m p i + area_len m p i \<le> area_base m p j \<or>
        area_base m p j + area_len m p j \<le> area_base m p i)"

lemma map_ok_area_last:
  assumes "map_ok m p n" "i < n"
  shows "unat (area_last (area m p i)) = area_base m p i + area_len m p i - 1"
proof -
  let ?b = "base_addr (area m p i)" and ?l = "entry_length (area m p i)"
  have l: "0 < unat ?l" "unat ?b + unat ?l \<le> 2 ^ 64"
    using assms by (auto simp: map_ok_def area_base_def area_len_def)
  then have "unat (?l - 1) = unat ?l - 1"
    using unat_sub [of 1 ?l] by (simp add: word_le_nat_alt)
  then have "unat (?b + (?l - 1)) = unat ?b + (unat ?l - 1)"
    using l unat_plus64 [of ?b "?l - 1"] by simp
  moreover have "area_last (area m p i) = ?b + (?l - 1)" by (simp add: area_last_def)
  ultimately show ?thesis using l(1) by (simp add: area_base_def area_len_def)
qed

definition big_area :: "mem \<Rightarrow> u64 \<Rightarrow> nat \<Rightarrow> bool" where
  "big_area m p i \<longleftrightarrow> 4096 \<le> area_len m p i"

lemma big_area_word: "PAGE_SIZE \<le> entry_length (memory_maps m p (of_nat i)) \<longleftrightarrow> big_area m p i"
  by (simp add: big_area_def area_len_def area_def PAGE_SIZE_def word_le_nat_alt)

lemma big_area_below_top:
  assumes "map_ok m p n" "i < n" "big_area m p i"
  shows "base_addr (memory_maps m p (of_nat i)) < - 1"
proof -
  have "unat (- 1 :: u64) = 2 ^ 64 - 1" by (simp add: unsigned_minus_1_eq_mask mask_eq_exp_minus_1)
  moreover have "area_base m p i + 4096 \<le> 2 ^ 64"
    using assms by (force simp: map_ok_def big_area_def)
  ultimately show ?thesis by (simp add: word_less_nat_alt area_base_def area_def)
qed

text \<open>The areas at or after entry \<open>e\<close> that the walk can still reach.\<close>

definition areas_ahead :: "mem \<Rightarrow> u64 \<Rightarrow> nat \<Rightarrow> nat \<Rightarrow> nat set" where
  "areas_ahead m p n e =
     {i. i < n \<and> e < n \<and> (i = e \<or> big_area m p i \<and> area_base m p e < area_base m p i)}"

text \<open>
  Switching goes to the lowest area that begins after the current one, or to the end of the
  map when there is none.
\<close>

lemma map_ok_after:
  assumes "map_ok m p n" "e < n" "i < n" "big_area m p i"
  shows "area_last (area m p e) \<le> base_addr (area m p i) \<longleftrightarrow> area_base m p e < area_base m p i"
proof -
  have L: "unat (area_last (area m p e)) = area_base m p e + area_len m p e - 1" "0 < area_len m p e"
    using assms map_ok_area_last [OF assms(1,2)] by (auto simp: map_ok_def)
  have "i \<noteq> e \<Longrightarrow> area_base m p e + area_len m p e \<le> area_base m p i \<or>
      area_base m p i + area_len m p i \<le> area_base m p e" "4096 \<le> area_len m p i"
    using assms by (auto simp: map_ok_def big_area_def)
  then show ?thesis using L by (cases "i = e") (auto simp: word_le_nat_alt simp flip: area_base_def)
qed

lemma switch_area_spec:
  assumes "map_ok m (mem_map al) n" "num_entries al = of_nat n" "entry_index al = of_nat e" "e < n"
  shows "\<exists>e'\<le>n. switch_area m al = ret (al\<lparr>entry_index := of_nat e'\<rparr>) \<and>
    areas_ahead m (mem_map al) n e' = areas_ahead m (mem_map al) n e - {e} \<and>
    (e' < n \<longrightarrow> big_area m (mem_map al) e' \<and> area_base m (mem_map al) e < area_base m (mem_map al) e')"
proof -
  let ?p = "mem_map al"
  let ?P = "\<lambda>i. area_last (area m ?p e) \<le> base_addr (memory_maps m ?p (of_nat i)) \<and>
       PAGE_SIZE \<le> entry_length (memory_maps m ?p (of_nat i))"
  let ?key = "\<lambda>i. base_addr (memory_maps m ?p (of_nat i))"
  let ?r = "fold (select_lowest ?P ?key) [0..<n] (- 1, of_nat n)"
  have n: "n < 2 ^ 31" using assms(1) by (simp add: map_ok_def)
  have un: "unat (of_nat n :: u64) = n" using n by (simp add: unat_of_nat64)
  have P: "i < n \<Longrightarrow> ?P i \<longleftrightarrow> big_area m ?p i \<and> area_base m ?p e < area_base m ?p i" for i
    using map_ok_after [OF assms(1,4)] by (auto simp: big_area_word area_def)
  have sw: "switch_area m al = ret (al\<lparr>entry_index := snd ?r\<rparr>)"
    using assms(2,3) n un by (simp add: switch_area_def int_loop_def int_range_def next_area_select
        current_area_def area_def split_beta)
  have top: "i < n \<Longrightarrow> ?P i \<Longrightarrow> ?key i < - 1" for i
    using big_area_below_top [OF assms(1)] by (simp add: big_area_word)
  consider "\<forall>i<n. \<not> ?P i" "?r = (- 1, of_nat n)"
    | j where "j < n" "?P j" "\<And>i. i < n \<Longrightarrow> ?P i \<Longrightarrow> ?key j \<le> ?key i" "?r = (?key j, of_nat j)"
    using fold_select_lowest [of n ?P ?key "of_nat n", OF top] by blast
  then show ?thesis
  proof cases
    case 1
    then show ?thesis using sw P by (intro exI [of _ n]) (auto simp: areas_ahead_def)
  next
    case (2 j)
    have less: "i < n \<Longrightarrow> ?P i \<Longrightarrow> i \<noteq> j \<Longrightarrow> area_base m ?p j < area_base m ?p i" for i
    proof -
      assume i: "i < n" "?P i" "i \<noteq> j"
      then have "area_base m ?p j \<le> area_base m ?p i"
        using 2(3) [of i] by (simp add: area_base_def area_def word_le_nat_alt)
      moreover have "area_base m ?p i \<noteq> area_base m ?p j"
        using i 2(1) assms(1) by (force simp: map_ok_def)
      ultimately show ?thesis by simp
    qed
    have "areas_ahead m ?p n j = areas_ahead m ?p n e - {e}"
      using less P 2(1,2) assms(4) by (fastforce simp: areas_ahead_def)
    then show ?thesis using 2 P [of j] sw by (intro exI [of _ j]) auto
  qed
qed

text \<open>
  A frame the allocator can still hand out: at or after its position, not reserved, and not
  past the last frame of some area it can still reach.
\<close>

definition can_issue :: "mem \<Rightarrow> nat \<Rightarrow> nat \<Rightarrow> frame_allocator \<Rightarrow> frame \<Rightarrow> bool" where
  "can_issue m n e al k \<longleftrightarrow> next_free_frame al \<le> k \<and> \<not> reserved al k \<and>
     (\<exists>i \<in> areas_ahead m (mem_map al) n e. k \<le> get_frame_for_addr (area_last (area m (mem_map al) i)))"

lemma finite_areas_ahead [simp]: "finite (areas_ahead m p n e)"
  by (rule finite_subset [of _ "{..<n}"]) (auto simp: areas_ahead_def)

lemma areas_ahead_end [simp]: "areas_ahead m p n n = {}"
  by (simp add: areas_ahead_def)

lemma current_ahead [simp]: "e < n \<Longrightarrow> e \<in> areas_ahead m p n e"
  by (simp add: areas_ahead_def)

lemma can_issue_switch:
  assumes "areas_ahead m (mem_map al) n e' = areas_ahead m (mem_map al) n e - {e}"
    and "get_frame_for_addr (area_last (area m (mem_map al) e)) < next_free_frame al"
  shows "can_issue m n e' (al\<lparr>entry_index := i\<rparr>) = can_issue m n e al"
  using assms order.strict_trans2 by (fastforce simp: can_issue_def fun_eq_iff)

lemma can_issue_skip:
  assumes "reserved al (next_free_frame al)" "unat (next_free_frame al) < 2 ^ 52"
  shows "can_issue m n e (al\<lparr>next_free_frame := next_free_frame al + 1\<rparr>) = can_issue m n e al"
  using assms(1) next_le [OF assms(2)] by (auto simp: can_issue_def fun_eq_iff)

definition walk_left :: "mem \<Rightarrow> nat \<Rightarrow> nat \<Rightarrow> frame_allocator \<Rightarrow> nat" where
  "walk_left m n e al =
     card (areas_ahead m (mem_map al) n e) * 2 ^ 53 + (2 ^ 53 - unat (next_free_frame al))"

lemma walk_left_switch:
  assumes "areas_ahead m (mem_map al) n e' = areas_ahead m (mem_map al) n e - {e}" "e < n"
  shows "walk_left m n e' (al\<lparr>entry_index := i\<rparr>) < walk_left m n e al"
proof -
  have "card (areas_ahead m (mem_map al) n e) = Suc (card (areas_ahead m (mem_map al) n e'))"
    using assms card_Suc_Diff1 [of "areas_ahead m (mem_map al) n e" e] by simp
  then show ?thesis by (simp add: walk_left_def)
qed

lemma walk_left_skip:
  "unat (next_free_frame al) < 2 ^ 52 \<Longrightarrow>
     walk_left m n e (al\<lparr>next_free_frame := next_free_frame al + 1\<rparr>) < walk_left m n e al"
  by (simp add: walk_left_def unat_plus64)

lemma allocate_frame_total:
  assumes "map_ok m (mem_map al) n" "num_entries al = of_nat n" "entry_index al = of_nat e" "e \<le> n"
  shows "\<exists>c f al' t'. allocate_frame m (al, t) = ret (c, f, al', t') \<and>
    (c = 0 \<longleftrightarrow> (\<exists>k. can_issue m n e al k)) \<and> (\<exists>e'\<le>n. entry_index al' = of_nat e' \<and>
      (\<forall>k. can_issue m n e' al' k \<longleftrightarrow> can_issue m n e al k \<and> (c = 0 \<longrightarrow> k \<noteq> f)))"
  using assms
proof (induction "walk_left m n e al" arbitrary: al e rule: less_induct)
  case less
  let ?i = "next_free_frame al" and ?last = "get_frame_for_addr (area_last (current_area m al))"
  have n: "n < 2 ^ 31" using less.prems(1) by (simp add: map_ok_def)
  have cur: "current_area m al = area m (mem_map al) e"
    using less.prems(3) by (simp add: current_area_def area_def)
  have eq: "entry_index al = num_entries al \<longleftrightarrow> e = n"
    using less.prems n by (simp add: of_nat64_eq_iff)
  note unf = allocate_frame.simps [of m "(al, t)"]
  consider "e = n" | "e < n" "?i > ?last"
    | "e < n" "\<not> ?i > ?last" "reserved al ?i" | "e < n" "\<not> ?i > ?last" "\<not> reserved al ?i"
    using less.prems(4) by (auto simp: le_less)
  then show ?case
  proof cases
    case 1
    then show ?thesis using eq less.prems by (subst unf) (auto simp: can_issue_def)
  next
    case 2
    obtain e' where e': "e' \<le> n" "switch_area m al = ret (al\<lparr>entry_index := of_nat e'\<rparr>)"
      "areas_ahead m (mem_map al) n e' = areas_ahead m (mem_map al) n e - {e}"
      using switch_area_spec [OF less.prems(1-3) 2(1)] by blast
    have "allocate_frame m (al, t) = allocate_frame m (al\<lparr>entry_index := of_nat e'\<rparr>, t)"
      using 2 eq e'(2) by (subst unf) simp
    then show ?thesis
      using less.hyps [OF walk_left_switch [OF e'(3) 2(1)], of "of_nat e'"] less.prems e'(1)
        can_issue_switch [OF e'(3), of "of_nat e'"] 2 cur by simp
  next
    case 3
    have b: "unat ?i < 2 ^ 52"
      using 3(2) get_frame_bound [of "area_last (current_area m al)"] by (simp add: word_less_nat_alt)
    have "allocate_frame m (al, t) = allocate_frame m (al\<lparr>next_free_frame := ?i + 1\<rparr>, t)"
      using 3 eq by (subst unf) (auto simp: reserved_def Let_def)
    then show ?thesis
      using less.hyps [OF walk_left_skip [OF b]] less.prems can_issue_skip [OF 3(3) b, of m n e] by simp
  next
    case 4
    have "allocate_frame m (al, t) = ret (0, ?i, al\<lparr>next_free_frame := ?i + 1\<rparr>,
        fold print_plain (''alloc'' @ [newline]) t)"
      using 4 eq by (subst unf) (auto simp: reserved_def Let_def alloc_message [simplified])
    moreover have can: "can_issue m n e al ?i" using 4 cur by (auto simp: can_issue_def not_less)
    moreover have "unat ?i < 2 ^ 52"
      using 4(2) get_frame_bound [of "area_last (current_area m al)"] by (simp add: word_less_nat_alt)
    then have "can_issue m n e (al\<lparr>next_free_frame := ?i + 1\<rparr>) k \<longleftrightarrow> can_issue m n e al k \<and> k \<noteq> ?i" for k
      using next_le [of ?i k] not_next_le [of ?i] by (auto simp: can_issue_def)
    ultimately show ?thesis using less.prems by auto
  qed
qed

section \<open>Sources of frames\<close>

text \<open>
  What the paging code expects of a frame allocator: a success hands out a frame that was
  available and no longer is, and no call makes a frame available. A supply also returns
  from every call.
\<close>

fun take_frames :: "('s \<Rightarrow> (int \<times> frame \<times> 's) out) \<Rightarrow> nat \<Rightarrow> 's \<Rightarrow> (frame list \<times> 's) out" where
  "take_frames alloc 0 s = ret ([], s)"
| "take_frames alloc (Suc n) s =
     obind (alloc s) (\<lambda>(c, f, s'). obind (take_frames alloc n s') (\<lambda>(fs, s'').
       ret (if c = 0 then f # fs else fs, s'')))"

locale frame_source =
  fixes alloc :: "'s \<Rightarrow> (int \<times> frame \<times> 's) out"
    and available :: "'s \<Rightarrow> frame \<Rightarrow> bool"
  assumes alloc_fresh: "alloc s = ret (0, f, s') \<Longrightarrow> available s f \<and> \<not> available s' f"
    and alloc_shrinks: "alloc s = ret (c, f, s') \<Longrightarrow> available s' g \<Longrightarrow> available s g"
begin

lemma take_shrinks: "take_frames alloc n s = ret (fs, s') \<Longrightarrow> available s' g \<Longrightarrow> available s g"
  by (induction n arbitrary: s fs) (auto simp: obind_eq_ret intro: alloc_shrinks)

lemma take_distinct:
  "take_frames alloc n s = ret (fs, s') \<Longrightarrow> distinct fs \<and> (\<forall>f \<in> set fs. available s f \<and> \<not> available s' f)"
proof (induction n arbitrary: s fs)
  case (Suc n)
  then obtain c f s1 fs1 where s1: "alloc s = ret (c, f, s1)" "take_frames alloc n s1 = ret (fs1, s')"
    "fs = (if c = 0 then f # fs1 else fs1)"
    by (auto simp: obind_eq_ret)
  have "distinct fs1 \<and> (\<forall>g \<in> set fs1. available s1 g \<and> \<not> available s' g)" by (rule Suc.IH [OF s1(2)])
  moreover have "c = 0 \<Longrightarrow> available s f \<and> \<not> available s1 f" using s1(1) alloc_fresh by blast
  ultimately show ?case using s1 take_shrinks alloc_shrinks by (auto split: if_splits)
qed simp

end

locale frame_supply = frame_source +
  fixes ready :: "'s \<Rightarrow> bool"
  assumes alloc_returns: "ready s \<Longrightarrow> \<exists>c f s'. alloc s = ret (c, f, s') \<and> ready s'"
begin

lemma take_returns: "ready s \<Longrightarrow> \<exists>fs s'. take_frames alloc n s = ret (fs, s') \<and> ready s'"
proof (induction n arbitrary: s)
  case (Suc n)
  obtain c f s1 where "alloc s = ret (c, f, s1)" "ready s1" using alloc_returns Suc.prems by blast
  then show ?case using Suc.IH [of s1] by auto
qed simp

lemma take_distinct_total:
  assumes "ready s"
  shows "\<exists>fs s'. take_frames alloc n s = ret (fs, s') \<and> distinct fs \<and> (\<forall>f \<in> set fs. available s f)"
  using take_returns [OF assms, of n] take_distinct [of n s] by blast

end

locale frame_stock =
  fixes alloc :: "'s \<Rightarrow> (int \<times> frame \<times> 's) out"
    and pool :: "'s \<Rightarrow> frame set"
    and usable :: "'s \<Rightarrow> bool"
  assumes alloc_takes: "usable s \<Longrightarrow> pool s \<noteq> {} \<Longrightarrow>
      \<exists>f s'. alloc s = ret (0, f, s') \<and> usable s' \<and> f \<in> pool s \<and> pool s' = pool s - {f}"
begin

lemma take_enough:
  assumes "usable s" "n \<le> card (pool s)" "finite (pool s)"
  shows "\<exists>fs s'. take_frames alloc n s = ret (fs, s') \<and> length fs = n \<and> set fs \<subseteq> pool s \<and> usable s'"
  using assms
proof (induction n arbitrary: s)
  case (Suc n)
  then have "pool s \<noteq> {}" by auto
  then obtain f s1 where f: "alloc s = ret (0, f, s1)" "usable s1" "f \<in> pool s" "pool s1 = pool s - {f}"
    using alloc_takes Suc.prems(1) by blast
  have "n \<le> card (pool s1)" "finite (pool s1)" using Suc.prems f(3,4) by simp_all
  then obtain fs s2 where "take_frames alloc n s1 = ret (fs, s2)" "length fs = n" "set fs \<subseteq> pool s1" "usable s2"
    using Suc.IH [OF f(2)] by blast
  then show ?case using f by auto
qed simp

end

definition available_frame :: "frame_allocator \<times> terminal \<Rightarrow> frame \<Rightarrow> bool" where
  "available_frame = (\<lambda>(al, t) f. next_free_frame al \<le> f \<and> unat f < 2 ^ 52 \<and> \<not> reserved al f)"

definition allocator_ready :: "mem \<Rightarrow> frame_allocator \<times> terminal \<Rightarrow> bool" where
  "allocator_ready m = (\<lambda>(al, t). unat (entry_index al) \<le> unat (num_entries al) \<and>
     map_ok m (mem_map al) (unat (num_entries al)))"

text \<open>The frames the allocator can still hand out.\<close>

definition frame_pool :: "mem \<Rightarrow> frame_allocator \<Rightarrow> frame set" where
  "frame_pool m al = {k. can_issue m (unat (num_entries al)) (unat (entry_index al)) al k}"

lemma allocate_frame_ready:
  assumes "allocator_ready m (al, t)"
  shows "\<exists>c f al' t'. allocate_frame m (al, t) = ret (c, f, al', t') \<and> allocator_ready m (al', t') \<and>
    (c = 0 \<longleftrightarrow> frame_pool m al \<noteq> {}) \<and> frame_pool m al' = (if c = 0 then frame_pool m al - {f} else frame_pool m al)"
proof -
  let ?n = "unat (num_entries al)"
  have ok: "map_ok m (mem_map al) ?n" and e: "unat (entry_index al) \<le> ?n"
    using assms by (simp_all add: allocator_ready_def)
  have "\<exists>c f al' t'. allocate_frame m (al, t) = ret (c, f, al', t') \<and>
      (c = 0 \<longleftrightarrow> (\<exists>k. can_issue m ?n (unat (entry_index al)) al k)) \<and> (\<exists>e'\<le>?n. entry_index al' = of_nat e' \<and>
      (\<forall>k. can_issue m ?n e' al' k \<longleftrightarrow> can_issue m ?n (unat (entry_index al)) al k \<and> (c = 0 \<longrightarrow> k \<noteq> f)))"
    by (rule allocate_frame_total [OF ok _ _ e]) simp_all
  then obtain c f al' t' e' where r: "allocate_frame m (al, t) = ret (c, f, al', t')"
    "c = 0 \<longleftrightarrow> (\<exists>k. can_issue m ?n (unat (entry_index al)) al k)" "e' \<le> ?n" "entry_index al' = of_nat e'"
    "\<forall>k. can_issue m ?n e' al' k \<longleftrightarrow> can_issue m ?n (unat (entry_index al)) al k \<and> (c = 0 \<longrightarrow> k \<noteq> f)"
    by (elim exE conjE) (rule that, assumption+)
  have "same_config al al'" using allocate_frame_post [OF r(1)] by (simp add: alloc_post_def)
  then have "mem_map al' = mem_map al" "num_entries al' = num_entries al"
    unfolding same_config_def by (cases al, cases al', simp)+
  moreover have "unat (of_nat e' :: u64) = e'"
    using r(3) unat64_lt [of "num_entries al"] by (intro unat_of_nat64) simp
  ultimately have "allocator_ready m (al', t')" "frame_pool m al' = {k. can_issue m ?n e' al' k}"
    using ok r(3,4) by (simp_all add: allocator_ready_def frame_pool_def)
  moreover have "frame_pool m al' = (if c = 0 then frame_pool m al - {f} else frame_pool m al)"
    using calculation(2) r(5) by (auto simp: frame_pool_def)
  ultimately show ?thesis using r(1,2) by (simp add: frame_pool_def)
qed

interpretation fa: frame_supply "allocate_frame m" available_frame "allocator_ready m" for m
proof
  fix s f s' assume "allocate_frame m s = ret (0, f, s')"
  then have "alloc_post m (fst s, snd s) (0, f, fst s', snd s')" by (intro allocate_frame_post) simp
  then show "available_frame s f \<and> \<not> available_frame s' f"
    by (auto simp: available_frame_def alloc_post_def split_beta)
next
  fix s c f s' g assume "allocate_frame m s = ret (c, f, s')" and g: "available_frame s' g"
  then have "alloc_post m (fst s, snd s) (c, f, fst s', snd s')" by (intro allocate_frame_post) simp
  then have "same_config (fst s) (fst s')" "next_free_frame (fst s) \<le> next_free_frame (fst s')"
    by (auto simp: alloc_post_def)
  then show "available_frame s g"
    using g reserved_same_config [of "fst s" "fst s'"] by (auto simp: available_frame_def split_beta)
next
  fix s assume "allocator_ready m s"
  then show "\<exists>c f s'. allocate_frame m s = ret (c, f, s') \<and> allocator_ready m s'"
    using allocate_frame_ready [of m "fst s" "snd s"] by auto
qed

lemma allocate_frame_least:
  assumes "allocator_ready m (al, t)"
  shows "\<exists>c f al' t'. allocate_frame m (al, t) = ret (c, f, al', t') \<and> allocator_ready m (al', t') \<and>
    (if frame_pool m al = {} then c = -1 \<and> f = 0
     else c = 0 \<and> f \<in> frame_pool m al \<and> (\<forall>k \<in> frame_pool m al. f \<le> k) \<and>
       frame_pool m al' = frame_pool m al - {f})"
proof -
  let ?can = "can_issue m (unat (num_entries al)) (unat (entry_index al)) al"
  obtain c f al' t' where r: "allocate_frame m (al, t) = ret (c, f, al', t')" "allocator_ready m (al', t')"
    "c = 0 \<longleftrightarrow> frame_pool m al \<noteq> {}" "frame_pool m al' = (if c = 0 then frame_pool m al - {f} else frame_pool m al)"
    using allocate_frame_ready [OF assms] by blast
  have p: "alloc_post m (al, t) (c, f, al', t')" by (rule allocate_frame_post [OF r(1)])
  have low: "f \<le> k" if "c = 0" "?can k" for k
    using p that by (fastforce simp: alloc_post_def can_issue_def)
  have "?can f" if "c = 0" "?can k" for k
    using low [OF that] p that by (fastforce simp: alloc_post_def can_issue_def intro: order_trans)
  then show ?thesis using r p low by (auto simp: alloc_post_def frame_pool_def)
qed

interpretation stock: frame_stock "allocate_frame m" "\<lambda>st. frame_pool m (fst st)" "allocator_ready m" for m
proof
  fix s assume "allocator_ready m s" "frame_pool m (fst s) \<noteq> {}"
  then show "\<exists>f s'. allocate_frame m s = ret (0, f, s') \<and> allocator_ready m s' \<and> f \<in> frame_pool m (fst s) \<and>
      frame_pool m (fst s') = frame_pool m (fst s) - {f}"
    using allocate_frame_least [of m "fst s" "snd s"] by auto
qed

section \<open>Initialisation\<close>

text \<open>The bounds found by the section loop enclose every section the loop has seen.\<close>

lemma kernel_bounds_mono:
  assumes "kernel_bounds m sy i (a, b) = (a', b')"
  shows "a' \<le> a" "b \<le> b'" "sh_size (sectionheaders m sy (of_nat i)) > 0 \<Longrightarrow> a' \<le> sh_addr (sectionheaders m sy (of_nat i))"
    "sh_size (sectionheaders m sy (of_nat i)) + sh_addr (sectionheaders m sy (of_nat i)) \<le> b'"
  using assms by (auto simp: kernel_bounds_def Let_def split: if_splits)

lemma fold_kernel_bounds:
  assumes "fold (kernel_bounds m sy) [0..<n] s = (a, b)" "i < n"
  shows "(0 < sh_size (sectionheaders m sy (of_nat i)) \<longrightarrow> a \<le> sh_addr (sectionheaders m sy (of_nat i))) \<and>
    sh_size (sectionheaders m sy (of_nat i)) + sh_addr (sectionheaders m sy (of_nat i)) \<le> b"
  using assms
proof (induction n arbitrary: a b)
  case (Suc n)
  obtain a0 b0 where ab: "fold (kernel_bounds m sy) [0..<n] s = (a0, b0)" by (metis surj_pair)
  then have step: "kernel_bounds m sy n (a0, b0) = (a, b)" using Suc.prems(1) by simp
  show ?case
  proof (cases "i = n")
    case True
    then show ?thesis using kernel_bounds_mono(3,4) [OF step] by blast
  next
    case False
    then show ?thesis
      using Suc.IH [OF ab] Suc.prems(2) kernel_bounds_mono(1,2) [OF step] order_trans by (metis less_Suc_eq)
  qed
qed simp

text \<open>The bytes of section \<open>i\<close> of the kernel image, and those of the boot information.\<close>

definition section_byte :: "mem \<Rightarrow> u64 \<Rightarrow> u64 \<Rightarrow> bool" where
  "section_byte m sy x \<longleftrightarrow> (\<exists>i < unat (elf_num m sy).
     let h = sectionheaders m sy (of_nat i)
     in unat (sh_addr h) + unat (sh_size h) < 2 ^ 64 \<and> sh_addr h \<le> x \<and> unat x < unat (sh_addr h) + unat (sh_size h))"

definition boot_byte :: "mem \<Rightarrow> u64 \<Rightarrow> u64 \<Rightarrow> bool" where
  "boot_byte m boot x \<longleftrightarrow> unat boot + unat (total_size_at m boot) < 2 ^ 64 \<and> boot \<le> x \<and>
     unat x < unat boot + unat (total_size_at m boot)"

lemma get_frame_mono: "a \<le> b \<Longrightarrow> get_frame_for_addr a \<le> get_frame_for_addr b"
  by (simp add: word_le_nat_alt unat_get_frame div_le_mono)

lemma init_allocator_reserves:
  assumes "init_allocator m boot d = ret al"
    and "section_byte m (md_elf_symbols d) x \<or> boot_byte m boot x"
  shows "reserved al (get_frame_for_addr x)"
proof -
  let ?sy = "md_elf_symbols d"
  obtain a b where ab: "fold (kernel_bounds m ?sy) [0..<unat (elf_num m ?sy)] (- 1, 0) = (a, b)"
    and al: "kernel_start al = get_frame_for_addr a" "kernel_end al = get_frame_for_addr b"
      "multiboot_start al = get_frame_for_addr boot"
      "multiboot_end al = get_frame_for_addr (boot + ucast (total_size_at m boot))"
    using assms(1) by (auto simp: init_allocator_def Let_def obind_eq_ret int_loop_def int_range_def
        unat_ucast32 split: if_splits prod.splits)
  from assms(2) show ?thesis
  proof
    assume "section_byte m ?sy x"
    then obtain i where i: "i < unat (elf_num m ?sy)"
      and h: "unat (sh_addr (sectionheaders m ?sy (of_nat i))) + unat (sh_size (sectionheaders m ?sy (of_nat i))) < 2 ^ 64"
        "sh_addr (sectionheaders m ?sy (of_nat i)) \<le> x"
        "unat x < unat (sh_addr (sectionheaders m ?sy (of_nat i))) + unat (sh_size (sectionheaders m ?sy (of_nat i)))"
      by (auto simp: section_byte_def Let_def)
    let ?h = "sectionheaders m ?sy (of_nat i)"
    have "x \<le> sh_size ?h + sh_addr ?h"
      using h unat_plus64 [of "sh_size ?h" "sh_addr ?h"] by (simp add: word_le_nat_alt)
    moreover have "0 < sh_size ?h"
      using h by (simp add: word_less_nat_alt word_le_nat_alt)
    ultimately have "a \<le> x" "x \<le> b"
      using fold_kernel_bounds [OF ab i] h(2) by auto
    then show ?thesis using al get_frame_mono by (simp add: reserved_def)
  next
    assume "boot_byte m boot x"
    then have b: "unat boot + unat (total_size_at m boot) < 2 ^ 64" "boot \<le> x"
      "unat x < unat boot + unat (total_size_at m boot)" by (auto simp: boot_byte_def)
    have "x \<le> boot + ucast (total_size_at m boot)"
      using b unat_plus64 [of boot "ucast (total_size_at m boot)"] by (simp add: word_le_nat_alt unat_ucast32)
    then show ?thesis using al b(2) get_frame_mono by (simp add: reserved_def)
  qed
qed

lemma init_allocator_ready:
  assumes "map_entry_size m (md_memory_map d) \<noteq> 0" "entry_count m (md_memory_map d) = ret k"
    and "map_ok m (md_memory_map d) (unat k)" "unat (elf_num m (md_elf_symbols d)) < 2 ^ 31"
  shows "\<exists>al. init_allocator m boot d = ret al \<and> next_free_frame al = 0 \<and> allocator_ready m (al, t) \<and>
    ((\<forall>i < unat k. \<not> big_area m (md_memory_map d) i) \<and> entry_index al = 0 \<or>
     (\<exists>j < unat k. entry_index al = of_nat j \<and> big_area m (md_memory_map d) j \<and>
        (\<forall>i < unat k. big_area m (md_memory_map d) i \<longrightarrow>
           area_base m (md_memory_map d) j \<le> area_base m (md_memory_map d) i)))"
proof -
  let ?p = "md_memory_map d" and ?n = "unat k"
  let ?key = "\<lambda>i. base_addr (memory_maps m ?p (of_nat i))"
  let ?r = "fold (lowest_area m ?p) [0..<?n] (- 1, 0)"
  have n: "?n < 2 ^ 31" using assms(3) by (simp add: map_ok_def)
  obtain al where al: "init_allocator m boot d = ret al" "next_free_frame al = 0" "mem_map al = ?p"
    "num_entries al = k" "entry_index al = snd ?r"
    using assms(2,4) n
    by (auto simp: init_allocator_def Let_def int_loop_def int_range_def unat_ucast32 split_beta)
  have r: "?r = fold (select_lowest (big_area m ?p) ?key) [0..<?n] (- 1, 0)"
    by (simp add: lowest_area_select big_area_word)
  have top: "i < ?n \<Longrightarrow> big_area m ?p i \<Longrightarrow> ?key i < - 1" for i
    by (rule big_area_below_top [OF assms(3)])
  from fold_select_lowest [of ?n "big_area m ?p" ?key 0, OF top]
  consider "\<forall>i < ?n. \<not> big_area m ?p i" "snd ?r = 0"
    | j where "j < ?n" "big_area m ?p j" "\<forall>i < ?n. big_area m ?p i \<longrightarrow> ?key j \<le> ?key i" "snd ?r = of_nat j"
    by (auto simp: r)
  then show ?thesis
  proof cases
    case 1
    then show ?thesis using al assms(3) by (intro exI [of _ al]) (simp add: allocator_ready_def)
  next
    case (2 j)
    have "unat (of_nat j :: u64) = j" using 2(1) n by (intro unat_of_nat64) simp
    then show ?thesis using 2 al assms(3)
      by (intro exI [of _ al]) (auto simp: allocator_ready_def area_base_def area_def word_le_nat_alt)
  qed
qed

section \<open>Properties\<close>

text \<open>
  Boot information at 0x1000 with one memory area (112 MiB from 0x100000) and one section of
  the kernel image (0x2000 to 0x2fff), and the allocator it leads to.
\<close>

definition sample_image :: mem where
  "sample_image = bytes_mem 0x1000
     (le32 160 @ le32 0 @
      le32 6 @ le32 40 @ le32 24 @ le32 0 @ le64 0x100000 @ le64 0x7000000 @ le32 1 @ le32 0 @
      le32 9 @ le32 84 @ le32 1 @ le32 64 @ le32 0 @
      le32 0 @ le32 1 @ le64 7 @ le64 0x2000 @ le64 0 @ le64 0x1000 @ le32 0 @ le32 0 @ le64 0 @ le64 0)"

definition sample_tables :: multiboot_data where
  "sample_tables = \<lparr>md_start = 0x1000, md_memory_map = 0x1008, md_elf_symbols = 0x1030\<rparr>"

definition sample_allocator :: frame_allocator where
  "sample_allocator = \<lparr>next_free_frame = 0, mem_map = 0x1008, entry_index = 0, num_entries = 1,
     kernel_start = 2, kernel_end = 3, multiboot_start = 1, multiboot_end = 1\<rparr>"

lemma sample_facts:
  "map_size sample_image 0x1008 = 40" "map_entry_size sample_image 0x1008 = 24"
  "elf_num sample_image 0x1030 = 1" "total_size_at sample_image 0x1000 = 160"
  "base_addr (memory_maps sample_image 0x1008 0) = 0x100000"
  "entry_length (memory_maps sample_image 0x1008 0) = 0x7000000"
  "sh_addr (sectionheaders sample_image 0x1030 0) = 0x2000"
  "sh_size (sectionheaders sample_image 0x1030 0) = 0x1000"
  by (simp_all add: sample_image_def map_size_def map_entry_size_def elf_num_def total_size_at_def
      memory_maps_def map_entry_at_def sectionheaders_def section_header_at_def load_eval)

lemma sample_area: "map_ok sample_image 0x1008 1" "map_ok sample_image 0x1008 (Suc 0)" "big_area sample_image 0x1008 0"
  by (simp_all add: map_ok_def big_area_def area_base_def area_len_def area_def sample_facts)

lemma sample_init: "init_allocator sample_image 0x1000 sample_tables = ret sample_allocator"
  by (simp add: init_allocator_def sample_tables_def sample_allocator_def entry_count_def sample_facts
      int_loop_def int_range_def lowest_area_def kernel_bounds_def get_frame_for_addr_def PAGE_SIZE_def)

lemma sample_fields:
  "entry_index sample_allocator = 0" "num_entries sample_allocator = 1"
  "kernel_start sample_allocator = 2" "kernel_end sample_allocator = 3"
  "multiboot_start sample_allocator = 1" "multiboot_end sample_allocator = 1"
  by (simp_all add: sample_allocator_def)

lemma sample_ready: "allocator_ready sample_image (sample_allocator, t)"
  by (simp add: allocator_ready_def sample_allocator_def sample_area)

lemma sample_two_frames:
  "\<exists>st. take_frames (allocate_frame sample_image) 2 (sample_allocator, sample_terminal) = ret ([0, 4], st)"
proof -
  let ?al = "\<lambda>f. sample_allocator\<lparr>next_free_frame := f\<rparr>"
  have area: "get_frame_for_addr (area_last (current_area sample_image (?al f))) = 0x70FF" for f
    by (simp add: area_last_def current_area_def sample_allocator_def sample_facts get_frame_for_addr_def PAGE_SIZE_def)
  have go: "allocate_frame sample_image (?al f, t) =
      (if f > 0x70FF then obind (switch_area sample_image (?al f)) (\<lambda>al'. allocate_frame sample_image (al', t))
       else if 2 \<le> f \<and> f \<le> 3 then allocate_frame sample_image (?al (f + 1), t)
       else if f = 1 then allocate_frame sample_image (?al (f + 1), t)
       else ret (0, f, ?al (f + 1), fold print_plain (''alloc'' @ [newline]) t))" for f t
    by (subst allocate_frame.simps) (auto simp: Let_def area alloc_message [simplified] sample_fields dest: antisym)
  have start: "?al 0 = sample_allocator" by (simp add: sample_allocator_def)
  have "\<exists>t'. allocate_frame sample_image (?al 0, sample_terminal) = ret (0, 0, ?al 1, t')"
    by (subst go) simp
  then obtain t1 where t1: "allocate_frame sample_image (sample_allocator, sample_terminal) = ret (0, 0, ?al 1, t1)"
    unfolding start by blast
  have "\<exists>t'. allocate_frame sample_image (?al 1, t1) = ret (0, 4, ?al 5, t')"
    by (subst go, simp, subst go, simp, subst go, simp, subst go, simp)
  then obtain t2 where t2: "allocate_frame sample_image (?al 1, t1) = ret (0, 4, ?al 5, t2)" by blast
  show ?thesis by (simp add: numeral_2_eq_2 t1 t2)
qed

text \<open>C8. With a well-formed memory map every \<open>allocate_frame\<close> call returns; it succeeds if and only if
  the pool is not empty, where a frame is in the pool if it is at or after the allocator's
  position, belongs neither to the kernel nor to the boot information and is not past the end
  of an area still ahead; the frame handed out is the lowest of the pool, and leaves it.\<close>

theorem allocate_frame_lowest:
  assumes "allocator_ready m (al, t)"
  shows "\<exists>c f al' t'. allocate_frame m (al, t) = ret (c, f, al', t') \<and> allocator_ready m (al', t') \<and>
    (if frame_pool m al = {} then c = -1 \<and> f = 0
     else c = 0 \<and> f \<in> frame_pool m al \<and> (\<forall>k \<in> frame_pool m al. f \<le> k) \<and>
       frame_pool m al' = frame_pool m al - {f})"
  by (rule allocate_frame_least [OF assms])

theorem allocate_frame_lowest_witness:
  "\<exists>al t. allocate_frame sample_image (sample_allocator, sample_terminal) = ret (0, 0, al, t) \<and>
     frame_pool sample_image al = frame_pool sample_image sample_allocator - {0}"
proof -
  have z: "0 \<in> frame_pool sample_image sample_allocator"
    using sample_area(1) by (simp add: frame_pool_def can_issue_def areas_ahead_def sample_allocator_def reserved_def)
  obtain f al t where "allocate_frame sample_image (sample_allocator, sample_terminal) = ret (0, f, al, t)"
    "f \<le> 0" "frame_pool sample_image al = frame_pool sample_image sample_allocator - {f}"
    using allocate_frame_lowest [OF sample_ready [of sample_terminal]] z by (metis (full_types) empty_iff)
  then show ?thesis by simp
qed

text \<open>C25. Any number of \<open>allocate_frame\<close> calls on a well-formed memory map return, and the frames they
  hand out are pairwise different, at or after the allocator's position, and none of them is
  reserved.\<close>

theorem allocated_frames_distinct:
  assumes "allocator_ready m (al, t)"
  shows "\<exists>fs st. take_frames (allocate_frame m) n (al, t) = ret (fs, st) \<and> distinct fs \<and>
    (\<forall>f \<in> set fs. next_free_frame al \<le> f \<and> \<not> reserved al f)"
  using fa.take_distinct_total [OF assms, of n] by (fastforce simp: available_frame_def)

theorem allocated_frames_distinct_witness:
  "\<exists>fs st. take_frames (allocate_frame sample_image) 3 (sample_allocator, sample_terminal) = ret (fs, st) \<and> distinct fs"
  using allocated_frames_distinct [OF sample_ready [of sample_terminal], of 3] by blast

text \<open>C15. No frame handed out after \<open>init_allocator\<close> holds a byte of the kernel's sections or of the boot
  information.\<close>

theorem allocated_frames_spare_kernel:
  assumes "init_allocator m boot d = ret al" "take_frames (allocate_frame m) n (al, t) = ret (fs, st)"
    and "section_byte m (md_elf_symbols d) x \<or> boot_byte m boot x"
  shows "get_frame_for_addr x \<notin> set fs"
  using fa.take_distinct [OF assms(2)] init_allocator_reserves [OF assms(1,3)]
  by (auto simp: available_frame_def)

theorem allocated_frames_spare_kernel_witness:
  "\<exists>fs st. take_frames (allocate_frame sample_image) 2 (sample_allocator, sample_terminal) = ret (fs, st) \<and>
     get_frame_for_addr 0x2ABC \<notin> set fs \<and> get_frame_for_addr 0x1008 \<notin> set fs"
proof -
  obtain st where st: "take_frames (allocate_frame sample_image) 2 (sample_allocator, sample_terminal) = ret ([0, 4], st)"
    using sample_two_frames by blast
  have "section_byte sample_image (md_elf_symbols sample_tables) 0x2ABC" "boot_byte sample_image 0x1000 0x1008"
    by (simp_all add: section_byte_def boot_byte_def sample_tables_def sample_facts)
  then show ?thesis using allocated_frames_spare_kernel [OF sample_init st] st by blast
qed

text \<open>On a well-formed memory map and section table \<open>init_allocator\<close> returns an allocator at frame 0
  whose current entry is the lowest area of at least a page, or entry 0 when no area is that
  large.\<close>

theorem init_allocator_lowest_area:
  assumes "map_entry_size m (md_memory_map d) \<noteq> 0" "entry_count m (md_memory_map d) = ret k"
    and "map_ok m (md_memory_map d) (unat k)" "unat (elf_num m (md_elf_symbols d)) < 2 ^ 31"
  shows "\<exists>al. init_allocator m boot d = ret al \<and> next_free_frame al = 0 \<and> allocator_ready m (al, t) \<and>
    ((\<forall>i < unat k. \<not> big_area m (md_memory_map d) i) \<and> entry_index al = 0 \<or>
     (\<exists>j < unat k. entry_index al = of_nat j \<and> big_area m (md_memory_map d) j \<and>
        (\<forall>i < unat k. big_area m (md_memory_map d) i \<longrightarrow>
           area_base m (md_memory_map d) j \<le> area_base m (md_memory_map d) i)))"
  by (rule init_allocator_ready [OF assms])

theorem init_allocator_lowest_area_witness:
  "\<exists>al. init_allocator sample_image 0x1000 sample_tables = ret al \<and> allocator_ready sample_image (al, sample_terminal)"
  using init_allocator_lowest_area [of sample_image sample_tables 1 "0x1000" sample_terminal] sample_area(1)
  by (auto simp: sample_tables_def entry_count_def sample_facts)

text \<open>The allocator hands out memory below the area it is in: a frame before the area's first byte
  that is not reserved is issued, although no area contains it.\<close>

theorem frames_below_area_issued:
  assumes "entry_index al \<noteq> num_entries al" "base_addr (current_area m al) \<le> area_last (current_area m al)"
    and "next_free_frame al < get_frame_for_addr (base_addr (current_area m al))"
    and "\<not> reserved al (next_free_frame al)"
  shows "allocate_frame m (al, t) = ret (0, next_free_frame al,
    al\<lparr>next_free_frame := next_free_frame al + 1\<rparr>, fold print_plain (''alloc'' @ [newline]) t)"
proof -
  have "\<not> next_free_frame al > get_frame_for_addr (area_last (current_area m al))"
    using get_frame_mono [OF assms(2)] assms(3) by auto
  then show ?thesis
    using assms by (subst allocate_frame.simps) (auto simp: reserved_def Let_def alloc_message [simplified])
qed

theorem frames_below_area_issued_witness:
  "\<exists>al t. allocate_frame sample_image (sample_allocator, sample_terminal) = ret (0, 0, al, t) \<and>
     base_addr (current_area sample_image sample_allocator) = 0x100000"
proof -
  have c: "current_area sample_image sample_allocator = memory_maps sample_image 0x1008 0"
    by (simp add: current_area_def sample_allocator_def)
  show ?thesis
    using frames_below_area_issued [of sample_allocator sample_image sample_terminal]
    unfolding c area_last_def sample_facts
    by (simp add: sample_allocator_def reserved_def get_frame_for_addr_def PAGE_SIZE_def)
qed

end
