(* ===== verification/Mmu.thy ===== *)
theory Mmu
  imports Frame_Allocator
begin

text \<open>
  The machine the paging code drives: physical memory, the control registers and the
  model-specific registers, and the four-level translation the processor performs (4 KiB,
  2 MiB and 1 GiB pages, canonical addresses, the no-execute bit reserved while EFER.NXE is
  clear). Kernel loads and stores go through this translation. The machine also keeps the
  translations the processor has cached; the kernel changes them by loading cr3, and theory Tlb
  shows when they agree with the walk. Accesses are those of supervisor code with CR0.WP clear,
  the state boot.s leaves, and the accessed and dirty bits are not set. Physical addresses are
  taken to have 52 bits, so that no bit of the address in an entry is reserved. The lemmas of
  this theory are about page tables seen as a tree: which entry a table hangs off, and what a
  store into one of them changes.
\<close>

section \<open>Translation\<close>

definition present_bit :: u64 where "present_bit = 0x1"
definition writeable_bit :: u64 where "writeable_bit = 0x2"
definition huge_bit :: u64 where "huge_bit = 0x80"
definition physical_addr_mask :: u64 where "physical_addr_mask = 0x000ffffffffff000"
definition no_exec_bit :: u64 where "no_exec_bit = 0x8000000000000000"

text \<open>\<open>tlb\<close> holds the translations the processor has cached, by address.\<close>

record machine =
  phys :: mem
  tlb :: "u64 \<Rightarrow> u64 option"
  cr0 :: u64
  cr3 :: u64
  cr4 :: u64
  msr :: "u32 \<Rightarrow> u64"
  frames :: frame_allocator
  tty :: terminal

definition canonical :: "u64 \<Rightarrow> bool" where
  "canonical v \<longleftrightarrow> (\<forall>n \<in> {48..<64}. bit v n = bit v 47)"

text \<open>The index an address has in the table of a level; level 4 is the root, level 1 the last.\<close>

definition index :: "nat \<Rightarrow> u64 \<Rightarrow> u64" where
  "index lvl v = take_bit 9 (drop_bit (3 + 9 * lvl) v)"

definition entry_at :: "mem \<Rightarrow> u64 \<Rightarrow> u64 \<Rightarrow> u64" where
  "entry_at m t i = ld64 m (t + 8 * i)"

definition entry_addr :: "u64 \<Rightarrow> u64" where
  "entry_addr e = e AND physical_addr_mask"

definition entry_ok :: "bool \<Rightarrow> u64 \<Rightarrow> bool" where
  "entry_ok nx e \<longleftrightarrow> bit e 0 \<and> (nx \<or> \<not> bit e 63)"

definition is_huge :: "u64 \<Rightarrow> bool" where
  "is_huge e \<longleftrightarrow> bit e 7"

text \<open>
  The walk from a table of a level. A huge entry ends it at level 3 (1 GiB) and level 2
  (2 MiB); at level 4 the bit is reserved.
\<close>

fun walk :: "bool \<Rightarrow> nat \<Rightarrow> mem \<Rightarrow> u64 \<Rightarrow> u64 \<Rightarrow> u64 option" where
  "walk nx 0 m t v = Some (t + take_bit 12 v)"
| "walk nx (Suc lvl) m t v =
     (let e = entry_at m t (index (Suc lvl) v)
      in if \<not> entry_ok nx e then None
         else if 0 < lvl \<and> is_huge e then
           (if lvl < 3 then Some (drop_bit (12 + 9 * lvl) (entry_addr e) * 2 ^ (12 + 9 * lvl) + take_bit (12 + 9 * lvl) v)
            else None)
         else walk nx lvl m (entry_addr e) v)"

definition ia32_msfr :: u32 where "ia32_msfr = 0xC0000080"

definition nx_enabled :: "machine \<Rightarrow> bool" where
  "nx_enabled s \<longleftrightarrow> bit (msr s ia32_msfr) 11"

definition root :: "machine \<Rightarrow> u64" where
  "root s = entry_addr (cr3 s)"

definition mmu :: "machine \<Rightarrow> u64 \<Rightarrow> u64 option" where
  "mmu s v = (if canonical v then walk (nx_enabled s) 4 (phys s) (root s) v else None)"

text \<open>Loads and stores of aligned 64-bit words by the kernel.\<close>

definition vload :: "machine \<Rightarrow> u64 \<Rightarrow> u64 out" where
  "vload s v = (case mmu s v of None \<Rightarrow> fail (Page_fault v) | Some p \<Rightarrow> ret (ld64 (phys s) p))"

definition vstore :: "machine \<Rightarrow> u64 \<Rightarrow> u64 \<Rightarrow> machine out" where
  "vstore s v x = (case mmu s v of None \<Rightarrow> fail (Page_fault v) | Some p \<Rightarrow> ret (s\<lparr>phys := st64 (phys s) p x\<rparr>))"

section \<open>Bits of addresses\<close>

lemma bit64_len: "bit (v :: u64) n \<Longrightarrow> n < 64"
  using bit_imp_le_length [of v n] by simp

lemma bit_index: "bit (index lvl v) n \<longleftrightarrow> n < 9 \<and> bit v (3 + 9 * lvl + n)"
  by (auto simp: index_def bit_take_bit_iff bit_drop_bit_eq)

lemma index_lt [simp]: "index lvl v < 512"
  by (simp add: index_def word_less_nat_alt take_bit_eq_mod unat_mod)

lemma unat_index: "unat (index lvl v) < 512"
  using index_lt [of lvl v] by (simp add: word_less_nat_alt)

text \<open>An 8-byte slot of a page-aligned table.\<close>

definition page_aligned :: "u64 \<Rightarrow> bool" where
  "page_aligned t \<longleftrightarrow> 4096 dvd unat t"

lemma page_aligned_bits: "page_aligned t \<longleftrightarrow> (\<forall>n < 12. \<not> bit t n)"
proof -
  have "unat t mod 4096 = unat (take_bit 12 t)"
    by (simp add: take_bit_eq_mod unat_mod)
  then have "page_aligned t \<longleftrightarrow> take_bit 12 t = 0"
    unfolding page_aligned_def dvd_eq_mod_eq_0 by (metis unat_eq_zero)
  also have "\<dots> \<longleftrightarrow> (\<forall>n < 12. \<not> bit t n)"
    by (auto simp: bit_eq_iff bit_take_bit_iff)
  finally show ?thesis .
qed

lemma page_aligned_entry_addr [simp]: "page_aligned (entry_addr e)"
proof -
  have "\<not> bit physical_addr_mask n" if "n < 12" for n
  proof -
    have "take_bit 12 physical_addr_mask = 0" by (simp add: physical_addr_mask_def)
    then have "\<not> bit (take_bit 12 physical_addr_mask) n" by simp
    then show ?thesis using that by (simp add: bit_take_bit_iff)
  qed
  then show ?thesis by (simp add: page_aligned_bits entry_addr_def bit_and_iff)
qed

lemma page_aligned_unat:
  assumes "page_aligned t"
  obtains a where "unat t = 4096 * a" "a < 2 ^ 52"
proof -
  obtain a where "unat t = 4096 * a" using assms by (auto simp: page_aligned_def)
  then show ?thesis using that [of a] unat64_lt [of t] by simp
qed

lemma unat_slot:
  assumes "page_aligned t" "i < 512"
  shows "unat (t + 8 * i) = unat t + 8 * unat i"
proof -
  have i: "unat i < 512" using assms(2) by (simp add: word_less_nat_alt)
  obtain a where a: "unat t = 4096 * a" "a < 2 ^ 52" by (rule page_aligned_unat [OF assms(1)])
  have "unat (8 * i) = 8 * unat i" using i by (simp add: unat_word_ariths)
  then show ?thesis using i a unat_plus64 [of t "8 * i"] by simp
qed

lemma slot_aligned:
  assumes "page_aligned t" "i < 512"
  shows "8 dvd unat (t + 8 * i)"
proof -
  obtain a where "unat t = 4096 * a" by (rule page_aligned_unat [OF assms(1)])
  then have "unat (t + 8 * i) = 8 * (512 * a + unat i)" using unat_slot [OF assms] by simp
  then show ?thesis by simp
qed

lemma slot_eq:
  assumes "page_aligned t" "page_aligned t'" "i < 512" "j < 512"
  shows "t + 8 * i = t' + 8 * j \<longleftrightarrow> t = t' \<and> i = j"
proof
  assume eq: "t + 8 * i = t' + 8 * j"
  obtain a where a: "unat t = 4096 * a" by (rule page_aligned_unat [OF assms(1)])
  obtain b where b: "unat t' = 4096 * b" by (rule page_aligned_unat [OF assms(2)])
  have ij: "8 * unat i < 4096" "8 * unat j < 4096" using assms(3,4) by (simp_all add: word_less_nat_alt)
  have "4096 * a + 8 * unat i = 4096 * b + 8 * unat j"
    using eq assms a b unat_slot by metis
  moreover have "(4096 * a + 8 * unat i) div 4096 = a" "(4096 * b + 8 * unat j) div 4096 = b"
    using ij by simp_all
  ultimately have "a = b" by metis
  then have "unat t = unat t'" "unat i = unat j"
    using \<open>4096 * a + 8 * unat i = 4096 * b + 8 * unat j\<close> a b by simp_all
  then show "t = t' \<and> i = j" using unsigned_word_eqI by blast
qed simp

lemma entry_at_store:
  assumes "page_aligned t" "page_aligned t'" "i < 512" "j < 512"
  shows "entry_at (st64 m (t + 8 * i) x) t' j = (if t = t' \<and> i = j then x else entry_at m t' j)"
  using assms by (simp add: entry_at_def ld64_st64_aligned slot_aligned slot_eq)

section \<open>Page tables as a tree\<close>

text \<open>
  The table a path of indices leads to from a table, through entries that are valid and not
  huge. The paths of the tree are those of the tables of levels 4 to 1, without the entry
  511 of the root, which the kernel points back at the root.
\<close>

fun follow :: "bool \<Rightarrow> mem \<Rightarrow> u64 \<Rightarrow> u64 list \<Rightarrow> u64 option" where
  "follow nx m t [] = Some t"
| "follow nx m t (i # is) =
     (let e = entry_at m t i in if entry_ok nx e \<and> \<not> is_huge e then follow nx m (entry_addr e) is else None)"

definition table_path :: "u64 list \<Rightarrow> bool" where
  "table_path p \<longleftrightarrow> length p \<le> 3 \<and> (\<forall>i \<in> set p. i < 512) \<and> (p \<noteq> [] \<longrightarrow> hd p \<noteq> 511)"

definition tree_ok :: "bool \<Rightarrow> mem \<Rightarrow> u64 \<Rightarrow> bool" where
  "tree_ok nx m r \<longleftrightarrow> page_aligned r \<and>
     (\<forall>p q t. table_path p \<longrightarrow> table_path q \<longrightarrow> follow nx m r p = Some t \<longrightarrow> follow nx m r q = Some t \<longrightarrow> p = q)"

lemma follow_append: "follow nx m t (p @ q) = Option.bind (follow nx m t p) (\<lambda>t'. follow nx m t' q)"
  by (induction p arbitrary: t) (auto simp: Let_def)

lemma follow_aligned: "page_aligned r \<Longrightarrow> follow nx m r p = Some t \<Longrightarrow> page_aligned t"
proof (induction p arbitrary: r)
  case (Cons i p)
  then show ?case by (auto simp: Let_def split: if_splits dest: Cons.IH [OF page_aligned_entry_addr])
qed simp

lemma table_path_Nil [simp]: "table_path []"
  by (simp add: table_path_def)

lemma table_path_prefix: "table_path (p @ q) \<Longrightarrow> table_path p"
  by (auto simp: table_path_def)

lemma table_path_snoc: "table_path (p @ [i]) \<Longrightarrow> i < 512"
  by (simp add: table_path_def)

lemma tree_ok_inj:
  "tree_ok nx m r \<Longrightarrow> table_path p \<Longrightarrow> table_path q \<Longrightarrow> follow nx m r p = Some t \<Longrightarrow>
     follow nx m r q = Some t \<Longrightarrow> p = q"
  by (auto simp: tree_ok_def)

text \<open>
  A store into a slot of the table at path \<open>p\<close> leaves every path that does not pass through
  that slot as it was.
\<close>

lemma follow_store_other:
  assumes "tree_ok nx m r" "table_path p" "follow nx m r p = Some t" "i < 512"
    and "table_path q" "\<nexists>q'. q = p @ i # q'"
  shows "follow nx (st64 m (t + 8 * i) x) r q = follow nx m r q"
  using assms(5,6)
proof (induction q rule: rev_induct)
  case (snoc j q)
  have q: "table_path q" "j < 512" using snoc.prems(1) table_path_prefix table_path_snoc by blast+
  have "\<nexists>q'. q = p @ i # q'" using snoc.prems(2) by auto
  then have IH: "follow nx (st64 m (t + 8 * i) x) r q = follow nx m r q" using snoc.IH q(1) by blast
  show ?case
  proof (cases "follow nx m r q")
    case (Some t')
    have "\<not> (t = t' \<and> i = j)"
      using tree_ok_inj [OF assms(1,2) q(1)] assms(3) Some snoc.prems(2) by blast
    moreover have "page_aligned t" "page_aligned t'"
      using assms(1,3) Some follow_aligned by (auto simp: tree_ok_def)
    ultimately have "entry_at (st64 m (t + 8 * i) x) t' j = entry_at m t' j"
      using entry_at_store q(2) assms(4) by metis
    then show ?thesis using IH Some by (simp add: follow_append Let_def)
  qed (simp add: IH follow_append)
qed simp

text \<open>The same for the translation of an address whose indices avoid the slot.\<close>

definition path_to :: "nat \<Rightarrow> u64 \<Rightarrow> u64 list" where
  "path_to lvl v = take (4 - lvl) [index 4 v, index 3 v, index 2 v, index 1 v]"

lemma level_cases:
  assumes "(lvl :: nat) < 4"
  obtains "lvl = 0" | "lvl = 1" | "lvl = 2" | "lvl = 3"
  using assms by linarith

lemma path_to_4 [simp]: "path_to 4 v = []"
  by (simp add: path_to_def)

lemma path_to_Suc: "lvl < 4 \<Longrightarrow> path_to lvl v = path_to (Suc lvl) v @ [index (Suc lvl) v]"
  by (erule level_cases) (simp_all add: path_to_def eval_nat_numeral)

lemma path_to_hd: "lvl < 4 \<Longrightarrow> path_to lvl v \<noteq> [] \<and> hd (path_to lvl v) = index 4 v"
  by (erule level_cases) (simp_all add: path_to_def)

lemma table_path_to:
  assumes "0 < lvl" "lvl \<le> 4" "index 4 v \<noteq> 511"
  shows "table_path (path_to lvl v)"
proof (cases "lvl = 4")
  case False
  then have "lvl < 4" using assms(2) by simp
  then show ?thesis using assms(1,3) by (elim level_cases) (simp_all add: table_path_def path_to_def)
qed simp

lemma path_to_whole: "path_to 0 v = path_to lvl v @ drop (4 - lvl) (path_to 0 v)"
proof -
  have "path_to lvl v = take (4 - lvl) (path_to 0 v)" by (simp add: path_to_def)
  then show ?thesis by (metis append_take_drop_id)
qed

lemma length_path_to [simp]: "length (path_to lvl v) = 4 - lvl"
  by (simp add: path_to_def)

lemma path_to_level:
  assumes "path_to 0 v = p @ q"
  shows "p = path_to (4 - length p) v" "length p \<le> 4"
proof -
  have len: "length p + length q = 4" using arg_cong [OF assms, of length] by simp
  then show "length p \<le> 4" by simp
  then have "path_to (4 - length p) v = take (length p) (path_to 0 v)" by (simp add: path_to_def)
  then show "p = path_to (4 - length p) v" using assms by simp
qed

lemma follow_snoc:
  "follow nx m r (p @ [i]) = (case follow nx m r p of None \<Rightarrow> None
     | Some t \<Rightarrow> if entry_ok nx (entry_at m t i) \<and> \<not> is_huge (entry_at m t i) then Some (entry_addr (entry_at m t i)) else None)"
  by (simp add: follow_append Let_def split: option.split)

lemma walk_follow:
  assumes "lvl \<le> 4" "follow nx m r (path_to lvl v) = Some t"
  shows "walk nx 4 m r v = walk nx lvl m t v"
  using assms
proof (induction arbitrary: t rule: inc_induct)
  case (step n)
  from step.prems step.hyps obtain t' where t': "follow nx m r (path_to (Suc n) v) = Some t'"
    "entry_ok nx (entry_at m t' (index (Suc n) v))" "\<not> is_huge (entry_at m t' (index (Suc n) v))"
    "t = entry_addr (entry_at m t' (index (Suc n) v))"
    by (auto simp: path_to_Suc follow_snoc split: option.splits if_splits)
  then show ?case using step.IH [OF t'(1)] by simp
qed simp

lemma walk_store_other:
  assumes "tree_ok nx m r" "table_path p" "follow nx m r p = Some t" "i < 512"
    and "index 4 v \<noteq> 511" "\<nexists>q. path_to 0 v = p @ i # q"
    and "lvl \<le> 4" "follow nx m r (path_to lvl v) = Some t'"
  shows "walk nx lvl (st64 m (t + 8 * i) x) t' v = walk nx lvl m t' v"
  using assms(7,8)
proof (induction lvl arbitrary: t')
  case (Suc lvl)
  let ?j = "index (Suc lvl) v"
  have q: "table_path (path_to (Suc lvl) v)" using Suc.prems(1) assms(5) by (intro table_path_to) simp_all
  have "\<not> (t = t' \<and> i = ?j)"
  proof
    assume "t = t' \<and> i = ?j"
    then have "path_to lvl v = p @ [i]"
      using tree_ok_inj [OF assms(1,2) q assms(3)] Suc.prems path_to_Suc [of lvl v] by simp
    then show False using path_to_whole [of v lvl] assms(6) by simp
  qed
  moreover have "page_aligned t" "page_aligned t'"
    using assms(1,3) Suc.prems(2) follow_aligned by (auto simp: tree_ok_def)
  ultimately have e: "entry_at (st64 m (t + 8 * i) x) t' ?j = entry_at m t' ?j"
    using entry_at_store [of t t' i ?j] assms(4) index_lt by metis
  have "walk nx lvl (st64 m (t + 8 * i) x) (entry_addr (entry_at m t' ?j)) v = walk nx lvl m (entry_addr (entry_at m t' ?j)) v"
    if "lvl = 0 \<or> entry_ok nx (entry_at m t' ?j) \<and> \<not> is_huge (entry_at m t' ?j)"
  proof (cases "lvl = 0")
    case False
    then have "follow nx m r (path_to lvl v) = Some (entry_addr (entry_at m t' ?j))"
      using Suc.prems that by (simp add: path_to_Suc follow_snoc)
    then show ?thesis using Suc.IH Suc.prems(1) by simp
  qed simp
  then show ?case by (simp add: e Let_def)
qed simp

lemma walk_store_avoids:
  assumes "tree_ok nx m r" "table_path p" "follow nx m r p = Some t" "i < 512"
    and "index 4 v \<noteq> 511" "\<nexists>q. path_to 0 v = p @ i # q"
  shows "walk nx 4 (st64 m (t + 8 * i) x) r v = walk nx 4 m r v"
  using walk_store_other [OF assms, of 4 r] by simp

text \<open>Memory in which every present entry keeps its value has all translations it had.\<close>

definition keeps_present :: "mem \<Rightarrow> mem \<Rightarrow> bool" where
  "keeps_present m m' \<longleftrightarrow>
     (\<forall>t i. page_aligned t \<longrightarrow> i < 512 \<longrightarrow> bit (entry_at m t i) 0 \<longrightarrow> entry_at m' t i = entry_at m t i)"

lemma keeps_present_refl [simp]: "keeps_present m m"
  by (simp add: keeps_present_def)

lemma keeps_present_trans: "keeps_present m m' \<Longrightarrow> keeps_present m' m'' \<Longrightarrow> keeps_present m m''"
  by (simp add: keeps_present_def)

lemma keeps_present_store:
  "page_aligned t \<Longrightarrow> i < 512 \<Longrightarrow> \<not> bit (entry_at m t i) 0 \<Longrightarrow> keeps_present m (st64 m (t + 8 * i) x)"
  by (auto simp: keeps_present_def entry_at_store)

lemma walk_keeps:
  "keeps_present m m' \<Longrightarrow> page_aligned t \<Longrightarrow> walk nx lvl m t v = Some a \<Longrightarrow> walk nx lvl m' t v = Some a"
proof (induction lvl arbitrary: t)
  case (Suc lvl)
  let ?e = "entry_at m t (index (Suc lvl) v)"
  have ok: "entry_ok nx ?e" using Suc.prems(3) by (auto simp: Let_def split: if_splits)
  then have "entry_at m' t (index (Suc lvl) v) = ?e"
    using Suc.prems(1,2) by (simp add: keeps_present_def entry_ok_def)
  then show ?case
    using Suc.prems(3) ok Suc.IH [OF Suc.prems(1) page_aligned_entry_addr]
    by (simp add: Let_def split del: if_split) (auto split: if_splits)
qed simp

text \<open>A table that has only zero entries.\<close>

definition blank_table :: "mem \<Rightarrow> u64 \<Rightarrow> bool" where
  "blank_table m t \<longleftrightarrow> (\<forall>i < 512. entry_at m t i = 0)"

lemma entry_ok_0 [simp]: "\<not> entry_ok nx 0"
  by (simp add: entry_ok_def)

lemma blank_table_walk: "blank_table m t \<Longrightarrow> walk nx (Suc lvl) m t v = None"
  by (simp add: blank_table_def)

lemma blank_table_follow: "blank_table m t \<Longrightarrow> table_path (p @ i # q) \<Longrightarrow> follow nx m t (i # q) = None"
  by (simp add: blank_table_def table_path_def)

text \<open>
  Hanging a blank page into a free slot: the tree gains that table and nothing else, and no
  address translates differently. Everything is stated for a store \<open>m'\<close> of an entry \<open>x\<close> for
  the page \<open>f\<close>.
\<close>

definition hangs :: "bool \<Rightarrow> u64 \<Rightarrow> u64 \<Rightarrow> bool" where
  "hangs nx x f \<longleftrightarrow> entry_ok nx x \<and> \<not> is_huge x \<and> entry_addr x = f"

definition free_slot :: "bool \<Rightarrow> mem \<Rightarrow> u64 \<Rightarrow> u64 list \<Rightarrow> u64 \<Rightarrow> u64 \<Rightarrow> bool" where
  "free_slot nx m r p i t \<longleftrightarrow> tree_ok nx m r \<and> table_path (p @ [i]) \<and> follow nx m r p = Some t \<and>
     \<not> entry_ok nx (entry_at m t i)"

lemma free_slotD:
  assumes "free_slot nx m r p i t"
  shows "tree_ok nx m r" "table_path p" "follow nx m r p = Some t" "i < 512" "\<not> entry_ok nx (entry_at m t i)"
    "page_aligned t" "length p \<le> 2"
proof -
  show "tree_ok nx m r" "follow nx m r p = Some t" "\<not> entry_ok nx (entry_at m t i)"
    using assms by (simp_all add: free_slot_def)
  then show "page_aligned t" using follow_aligned [of r nx m p t] by (simp add: tree_ok_def)
  have pi: "table_path (p @ [i])" using assms by (simp add: free_slot_def)
  then show "table_path p" "i < 512" by (rule table_path_prefix, rule table_path_snoc)
  show "length p \<le> 2" using pi by (simp add: table_path_def)
qed

lemma follow_hang:
  assumes s: "free_slot nx m r p i t" and x: "hangs nx x f" "blank_table m f" "page_aligned f"
    and fresh: "\<And>q. table_path q \<Longrightarrow> follow nx m r q \<noteq> Some f" and q: "table_path q"
  shows "follow nx (st64 m (t + 8 * i) x) r q = (if q = p @ [i] then Some f else follow nx m r q)"
proof -
  note d = free_slotD [OF s]
  let ?m = "st64 m (t + 8 * i) x"
  show ?thesis
  proof (cases "\<exists>q'. q = p @ i # q'")
    case False
    then show ?thesis using follow_store_other [OF d(1-4) q] by auto
  next
    case True
    then obtain q' where q': "q = p @ i # q'" by blast
    have "follow nx ?m r p = Some t"
      using follow_store_other [OF d(1-4) d(2)] d(3) by simp
    moreover have "entry_at ?m t i = x" using entry_at_store [OF d(6,6,4,4)] by simp
    ultimately have f: "follow nx ?m r q = follow nx ?m f q'"
      using x(1) by (simp add: q' follow_append hangs_def)
    have old: "follow nx m r q = None" using d(3,5) by (simp add: q' follow_append)
    show ?thesis
    proof (cases q')
      case (Cons j js)
      have "t \<noteq> f" using fresh d(2,3) by blast
      moreover have "j < 512" using q by (simp add: q' Cons table_path_def)
      ultimately have "entry_at ?m f j = 0"
        using entry_at_store [OF d(6) x(3) d(4)] x(2) by (simp add: blank_table_def)
      then show ?thesis using f old by (simp add: q' Cons)
    qed (use f q' in simp)
  qed
qed

lemma tree_ok_hang:
  assumes s: "free_slot nx m r p i t" and x: "hangs nx x f" "blank_table m f" "page_aligned f"
    and fresh: "\<And>q. table_path q \<Longrightarrow> follow nx m r q \<noteq> Some f"
  shows "tree_ok nx (st64 m (t + 8 * i) x) r"
proof -
  have "follow nx m r q1 = Some u \<Longrightarrow> follow nx m r q2 = Some u \<Longrightarrow> table_path q1 \<Longrightarrow> table_path q2 \<Longrightarrow> q1 = q2" for q1 q2 u
    using tree_ok_inj [OF free_slotD(1) [OF s]] by blast
  then show ?thesis
    using free_slotD(1) [OF s] fresh unfolding tree_ok_def
    by (simp add: follow_hang [OF s x fresh]) (metis option.inject)
qed

lemma walk_hang:
  assumes s: "free_slot nx m r p i t" and x: "hangs nx x f" "blank_table m f" "page_aligned f"
    and fresh: "\<And>q. table_path q \<Longrightarrow> follow nx m r q \<noteq> Some f" and v: "index 4 v \<noteq> 511"
  shows "walk nx 4 (st64 m (t + 8 * i) x) r v = walk nx 4 m r v"
proof -
  note d = free_slotD [OF s]
  let ?m = "st64 m (t + 8 * i) x"
  show ?thesis
  proof (cases "\<exists>q. path_to 0 v = p @ i # q")
    case False
    then show ?thesis using walk_store_avoids [OF d(1-4) v] by blast
  next
    case True
    then obtain q where q: "path_to 0 v = p @ i # q" by blast
    define lvl where "lvl = 3 - length p"
    have lvl: "Suc lvl = 4 - length p" "lvl < 4" "0 < lvl" using d(7) by (simp_all add: lvl_def)
    have p: "path_to (Suc lvl) v = p" using path_to_level [OF q] lvl(1) by simp
    have "path_to lvl v = p @ [i]"
      using path_to_level(1) [of v "p @ [i]" q] q by (simp add: lvl_def)
    then have i: "index (Suc lvl) v = i" using path_to_Suc [OF lvl(2), of v] p by simp
    have "walk nx 4 m r v = walk nx (Suc lvl) m t v"
      using lvl d(3) p by (intro walk_follow) simp_all
    then have old: "walk nx 4 m r v = None" using d(5) i by simp
    have "follow nx ?m r (path_to lvl v) = Some f"
      using follow_hang [OF s x fresh, of "p @ [i]"] s \<open>path_to lvl v = p @ [i]\<close> by (simp add: free_slot_def)
    then have "walk nx 4 ?m r v = walk nx lvl ?m f v" using lvl by (intro walk_follow) simp_all
    moreover have "t \<noteq> f" using fresh d(2,3) by blast
    then have "entry_at ?m f (index lvl v) = 0"
      using entry_at_store [OF d(6) x(3) d(4)] x(2) by (simp add: blank_table_def)
    then have "walk nx lvl ?m f v = None" using lvl(3) by (cases lvl) simp_all
    ultimately show ?thesis using old by simp
  qed
qed

text \<open>Writing a last-level entry: the tree stays, and one page translates anew.\<close>

lemma follow_leaf:
  assumes "tree_ok nx m r" "table_path p" "length p = 3" "follow nx m r p = Some t" "i < 512" "table_path q"
  shows "follow nx (st64 m (t + 8 * i) x) r q = follow nx m r q"
proof -
  have "\<nexists>q'. q = p @ i # q'" using assms(3,6) by (auto simp: table_path_def)
  then show ?thesis using follow_store_other [OF assms(1,2,4,5,6)] by blast
qed

lemma tree_ok_leaf:
  assumes "tree_ok nx m r" "table_path p" "length p = 3" "follow nx m r p = Some t" "i < 512"
  shows "tree_ok nx (st64 m (t + 8 * i) x) r"
  using assms(1) unfolding tree_ok_def by (simp add: follow_leaf [OF assms])

lemma walk_leaf:
  assumes "tree_ok nx m r" "table_path p" "follow nx m r p = Some t" "path_to 1 v = p" "index 1 v = i" "entry_ok nx x"
  shows "walk nx 4 (st64 m (t + 8 * i) x) r v = Some (entry_addr x + take_bit 12 v)"
proof -
  let ?m = "st64 m (t + 8 * i) x"
  have i: "i < 512" using assms(5) index_lt by blast
  have "follow nx ?m r p = Some t"
    using follow_store_other [OF assms(1-3) i assms(2)] assms(3) by simp
  then have "walk nx 4 ?m r v = walk nx 1 ?m t v" using assms(4) by (intro walk_follow) simp_all
  moreover have "page_aligned t" using assms(1,3) follow_aligned by (auto simp: tree_ok_def)
  then have "entry_at ?m t i = x" using entry_at_store i by simp
  ultimately show ?thesis using assms(5,6) by simp
qed

section \<open>The recursive mapping\<close>

text \<open>
  Where the table of a path appears in the address space when entry 511 of the root points
  at the root: each step shifts the address up by one level and puts the index last.
\<close>

definition top_table :: u64 where
  "top_table = 0xfffffffffffff000"

definition child_addr :: "u64 \<Rightarrow> u64 \<Rightarrow> u64" where
  "child_addr t i = push_bit 9 t OR push_bit 12 i"

definition vtable :: "u64 list \<Rightarrow> u64" where
  "vtable p = foldl child_addr top_table p"

definition recursive :: "bool \<Rightarrow> mem \<Rightarrow> u64 \<Rightarrow> bool" where
  "recursive nx m r \<longleftrightarrow> page_aligned r \<and> hangs nx (entry_at m r 511) r"

lemma bit_lt512: "i < 512 \<Longrightarrow> bit (i :: u64) n \<Longrightarrow> n < 9"
proof -
  assume i: "i < 512" and n: "bit i n"
  then have "take_bit 9 i = i" by (simp add: word_less_nat_alt take_bit_eq_mod word_unat_eq_iff unat_mod)
  then show "n < 9" using n by (metis bit_take_bit_iff)
qed

lemma bit_child_addr: "n < 64 \<Longrightarrow> bit (child_addr t i) n \<longleftrightarrow> 9 \<le> n \<and> bit t (n - 9) \<or> 12 \<le> n \<and> bit i (n - 12)"
  by (auto simp: child_addr_def bit_or_iff bit_push_bit_iff)

lemma child_aligned [simp]: "page_aligned t \<Longrightarrow> page_aligned (child_addr t i)"
  by (auto simp: page_aligned_bits bit_child_addr)

lemma index_child_1: "page_aligned t \<Longrightarrow> i < 512 \<Longrightarrow> index 1 (child_addr t i) = i"
  by (rule bit_eqI) (auto simp: bit_index bit_child_addr page_aligned_bits dest: bit_lt512)

lemma index_child_Suc:
  assumes "0 < k" "k < 4" "i < 512"
  shows "index (Suc k) (child_addr t i) = index k t"
proof (rule bit_eqI)
  fix n
  show "bit (index (Suc k) (child_addr t i)) n \<longleftrightarrow> bit (index k t) n"
  proof (cases "n < 9")
    case True
    moreover have "\<not> bit i (9 * k + n)" using bit_lt512 [OF assms(3)] assms(1) by fastforce
    ultimately show ?thesis using assms(2)
      by (simp add: bit_index bit_child_addr algebra_simps)
  qed (simp add: bit_index)
qed

text \<open>All bits from \<open>k\<close> on are set.\<close>

definition ones_from :: "nat \<Rightarrow> u64 \<Rightarrow> bool" where
  "ones_from k t \<longleftrightarrow> (\<forall>n. k \<le> n \<and> n < 64 \<longrightarrow> bit t n)"

lemma ones_child: "ones_from k t \<Longrightarrow> ones_from (k + 9) (child_addr t i)"
  unfolding ones_from_def
proof (intro allI impI)
  fix n assume t: "\<forall>n. k \<le> n \<and> n < 64 \<longrightarrow> bit t n" and n: "k + 9 \<le> n \<and> n < 64"
  then have "bit t (n - 9)" using t [rule_format, of "n - 9"] by linarith
  then show "bit (child_addr t i) n" using n by (simp add: bit_child_addr)
qed

lemma ones_canonical: "ones_from k t \<Longrightarrow> k \<le> 47 \<Longrightarrow> canonical t"
  by (auto simp: ones_from_def canonical_def)

lemma top_table_mask: "top_table = NOT (mask 12)"
  by (simp add: top_table_def mask_eq_exp_minus_1)

lemma top_table_facts: "page_aligned top_table" "ones_from 12 top_table" "\<And>k. 0 < k \<Longrightarrow> k \<le> 4 \<Longrightarrow> index k top_table = 511"
proof -
  show "page_aligned top_table" "ones_from 12 top_table"
    by (auto simp: top_table_mask page_aligned_bits ones_from_def bit_not_iff bit_mask_iff)
  have "index k top_table = mask 9" if "0 < k" "k \<le> 4" for k
    using that by (intro bit_eqI) (auto simp: bit_index top_table_mask bit_not_iff bit_mask_iff)
  then show "\<And>k. 0 < k \<Longrightarrow> k \<le> 4 \<Longrightarrow> index k top_table = 511"
    by (simp add: mask_eq_exp_minus_1)
qed

text \<open>The address of a slot of a page-aligned table.\<close>

lemma bit_slot:
  assumes "page_aligned t" "i < 512"
  shows "bit (t + 8 * i) n \<longleftrightarrow> bit t n \<or> bit (8 * i) n"
proof -
  have i: "8 * i = push_bit 3 i" by (simp add: push_bit_eq_mult)
  have "t + 8 * i = t OR 8 * i"
    using assms by (intro disjunctive_add) (auto simp: i page_aligned_bits bit_push_bit_iff dest: bit_lt512)
  then show ?thesis by (simp add: bit_or_iff)
qed

lemma bit_slot_high: "page_aligned t \<Longrightarrow> i < 512 \<Longrightarrow> 12 \<le> n \<Longrightarrow> bit (t + 8 * i) n \<longleftrightarrow> bit t n"
proof -
  assume a: "page_aligned t" "i < 512" "12 \<le> n"
  have "8 * i = push_bit 3 i" by (simp add: push_bit_eq_mult)
  then have "\<not> bit (8 * i) n" using a(3) bit_lt512 [OF a(2), of "n - 3"] by (auto simp: bit_push_bit_iff)
  then show ?thesis using bit_slot [OF a(1,2)] by simp
qed

lemma index_slot: "page_aligned t \<Longrightarrow> i < 512 \<Longrightarrow> 0 < k \<Longrightarrow> index k (t + 8 * i) = index k t"
  by (rule bit_eqI) (simp add: bit_index bit_slot_high)

lemma canonical_slot: "page_aligned t \<Longrightarrow> i < 512 \<Longrightarrow> canonical (t + 8 * i) = canonical t"
  by (simp add: canonical_def bit_slot_high)

lemma offset_slot: "page_aligned t \<Longrightarrow> i < 512 \<Longrightarrow> take_bit 12 (t + 8 * i) = 8 * i"
proof (rule bit_eqI)
  fix n
  assume a: "page_aligned t" "i < 512"
  have "8 * i = push_bit 3 i" by (simp add: push_bit_eq_mult)
  then have "bit (8 * i) n \<Longrightarrow> n < 12" using bit_lt512 [OF a(2), of "n - 3"] by (auto simp: bit_push_bit_iff)
  then show "bit (take_bit 12 (t + 8 * i)) n \<longleftrightarrow> bit (8 * i) n"
    using a bit_slot [OF a] by (auto simp: bit_take_bit_iff page_aligned_bits)
qed

text \<open>
  A table of the tree is reached at its address in the recursive mapping: the walk goes
  through the root once for every missing level, then down the path, and takes the entry of
  the last step for the page.
\<close>

lemma vtable_Nil [simp]: "vtable [] = top_table"
  by (simp add: vtable_def)

lemma vtable_snoc: "vtable (p @ [i]) = child_addr (vtable p) i"
  by (simp add: vtable_def)

lemma vtable_aligned [simp]: "page_aligned (vtable p)"
  by (induction p rule: rev_induct) (simp_all add: vtable_snoc top_table_facts)

lemma vtable_ones: "ones_from (12 + 9 * length p) (vtable p)"
proof (induction p rule: rev_induct)
  case (snoc i p)
  then show ?case using ones_child [of "12 + 9 * length p" "vtable p" i] by (simp add: vtable_snoc add.commute)
qed (simp add: top_table_facts)

lemma vtable_canonical: "length p \<le> 3 \<Longrightarrow> canonical (vtable p)"
  using ones_canonical [OF vtable_ones [of p]] by simp

lemma vtable_path:
  assumes "table_path p"
  shows "path_to 0 (vtable p) = replicate (4 - length p) 511 @ p"
  using assms
proof (induction p rule: rev_induct)
  case Nil
  then show ?case by (simp add: path_to_def top_table_facts eval_nat_numeral)
next
  case (snoc i p)
  have p: "table_path p" "i < 512" "length p < 3"
    using table_path_prefix [OF snoc.prems] table_path_snoc [OF snoc.prems] snoc.prems
    by (simp_all add: table_path_def)
  have IH: "path_to 0 (vtable p) = replicate (4 - length p) 511 @ p" using snoc.IH p(1) by blast
  have shift: "index 2 (child_addr t i) = index 1 t" "index 3 (child_addr t i) = index 2 t"
    "index 4 (child_addr t i) = index 3 t" for t
    using index_child_Suc [of 1 i t] index_child_Suc [of 2 i t] index_child_Suc [of 3 i t] p(2)
    by (simp_all add: eval_nat_numeral del: index_lt)
  have four: "path_to 0 t = [index 4 t, index 3 t, index 2 t, index 1 t]" for t
    by (simp add: path_to_def)
  have "path_to 0 (vtable (p @ [i])) = tl (path_to 0 (vtable p)) @ [i]"
    unfolding four vtable_snoc shift index_child_1 [OF vtable_aligned p(2)] by simp
  also have "\<dots> = replicate (4 - length (p @ [i])) 511 @ p @ [i]"
    using p(3) by (cases "4 - length p") (simp_all add: IH)
  finally show ?case .
qed

lemma follow_recursive: "recursive nx m r \<Longrightarrow> follow nx m r (replicate n 511 @ p) = follow nx m r p"
  by (induction n) (simp_all add: recursive_def hangs_def)

lemma walk_vtable:
  assumes rec: "recursive nx m r" and p: "table_path p" "follow nx m r p = Some t" and i: "i < 512"
  shows "walk nx 4 m r (vtable p + 8 * i) = Some (t + 8 * i)"
proof -
  let ?v = "vtable p + 8 * i"
  have path: "path_to 0 ?v = replicate (4 - length p) 511 @ p"
    unfolding vtable_path [OF p(1), symmetric] using i by (simp add: path_to_def index_slot)
  have p1: "path_to 0 ?v = path_to 1 ?v @ [index 1 ?v]" using path_to_Suc [of 0 ?v] by simp
  have "follow nx m r (path_to 0 ?v) = Some t"
    using p(2) by (simp add: path follow_recursive [OF rec])
  then obtain u where u: "follow nx m r (path_to 1 ?v) = Some u"
    "entry_ok nx (entry_at m u (index 1 ?v))" "t = entry_addr (entry_at m u (index 1 ?v))"
    by (auto simp: p1 follow_snoc split: option.splits if_splits)
  have "walk nx 4 m r ?v = walk nx 1 m u ?v" using u(1) by (intro walk_follow) simp_all
  then show ?thesis using u(2,3) offset_slot [OF vtable_aligned i] by simp
qed

lemma mmu_vtable:
  assumes "recursive (nx_enabled s) (phys s) (root s)" "table_path p"
    and "follow (nx_enabled s) (phys s) (root s) p = Some t" "i < 512"
  shows "mmu s (vtable p + 8 * i) = Some (t + 8 * i)"
  using walk_vtable [OF assms] vtable_canonical [of p] assms(2,4) canonical_slot [OF vtable_aligned]
  by (simp add: mmu_def table_path_def)

end
