(* ===== verification/Registers.thy ===== *)
theory Registers
  imports Mmu Frame_Allocator
begin

text \<open>
  The control registers and the extended feature register (src/paging.c): their bits and the
  functions that read and write them. Only \<open>enable_no_exec\<close> is called by the kernel; of the
  others, two do not do what their names say.
\<close>

section \<open>Bits\<close>

text \<open>
  The bits of the control registers. An enumerator is an \<open>int\<close>, which is sign-extended when it
  meets a 64-bit register value.
\<close>

datatype cr0_bits =
    cr0_protected_mode_enable | cr0_monitor_co_processor | cr0_emulation | cr0_task_switched
  | cr0_extension_type | cr0_numeric_error | cr0_write_protect | cr0_alignment_mask
  | cr0_not_write_through | cr0_cache_disable | cr0_paging

fun cr0_bit :: "cr0_bits \<Rightarrow> u32" where
  "cr0_bit cr0_protected_mode_enable = push_bit 0 1"
| "cr0_bit cr0_monitor_co_processor = push_bit 1 1"
| "cr0_bit cr0_emulation = push_bit 2 1"
| "cr0_bit cr0_task_switched = push_bit 3 1"
| "cr0_bit cr0_extension_type = push_bit 4 1"
| "cr0_bit cr0_numeric_error = push_bit 5 1"
| "cr0_bit cr0_write_protect = push_bit 16 1"
| "cr0_bit cr0_alignment_mask = push_bit 18 1"
| "cr0_bit cr0_not_write_through = push_bit 29 1"
| "cr0_bit cr0_cache_disable = push_bit 30 1"
| "cr0_bit cr0_paging = push_bit 31 1"

datatype cr4_bits =
    cr4_vme | cr4_pvi | cr4_tsd | cr4_de | cr4_pse | cr4_pae | cr4_mce | cr4_pge | cr4_pce
  | cr4_osfxsr | cr4_osxmmecpt | cr4_vmxe | cr4_smxe | cr4_fsgsbase | cr4_pcide
  | cr4_osxsave | cr4_smep | cr4_smap | cr4_pke

fun cr4_bit :: "cr4_bits \<Rightarrow> u32" where
  "cr4_bit cr4_vme = push_bit 0 1"
| "cr4_bit cr4_pvi = push_bit 1 1"
| "cr4_bit cr4_tsd = push_bit 2 1"
| "cr4_bit cr4_de = push_bit 3 1"
| "cr4_bit cr4_pse = push_bit 4 1"
| "cr4_bit cr4_pae = push_bit 5 1"
| "cr4_bit cr4_mce = push_bit 6 1"
| "cr4_bit cr4_pge = push_bit 7 1"
| "cr4_bit cr4_pce = push_bit 8 1"
| "cr4_bit cr4_osfxsr = push_bit 9 1"
| "cr4_bit cr4_osxmmecpt = push_bit 10 1"
| "cr4_bit cr4_vmxe = push_bit 13 1"
| "cr4_bit cr4_smxe = push_bit 14 1"
| "cr4_bit cr4_fsgsbase = push_bit 15 1"
| "cr4_bit cr4_pcide = push_bit 17 1"
| "cr4_bit cr4_osxsave = push_bit 18 1"
| "cr4_bit cr4_smep = push_bit 20 1"
| "cr4_bit cr4_smap = push_bit 21 1"
| "cr4_bit cr4_pke = push_bit 22 1"

datatype efer_bits =
    efer_sce | efer_lme | efer_lma | efer_nxe | efer_svme | efer_lmsle | efer_ffxsr
  | efer_tce

fun efer_bit :: "efer_bits \<Rightarrow> u32" where
  "efer_bit efer_sce = push_bit 0 1"
| "efer_bit efer_lme = push_bit 8 1"
| "efer_bit efer_lma = push_bit 10 1"
| "efer_bit efer_nxe = push_bit 11 1"
| "efer_bit efer_svme = push_bit 12 1"
| "efer_bit efer_lmsle = push_bit 13 1"
| "efer_bit efer_ffxsr = push_bit 14 1"
| "efer_bit efer_tce = push_bit 15 1"

section \<open>Operations\<close>

text \<open>\<open>rdmsr\<close> loads edx:eax, \<open>wrmsr\<close> stores it; the code sets a bit of eax in between.\<close>

definition enable_no_exec :: "machine \<Rightarrow> machine" where
  "enable_no_exec s = s\<lparr>msr := (msr s)(0xC0000080 := msr s 0xC0000080 OR 0x800)\<rparr>"

text \<open>\<open>high << 32\<close> shifts a 32-bit value by its width.\<close>

definition read_efer :: "u32 \<Rightarrow> machine \<Rightarrow> u64 out" where
  "read_efer r s = fail Undefined_behaviour"

definition write_efer :: "u64 \<Rightarrow> u32 \<Rightarrow> machine \<Rightarrow> machine" where
  "write_efer val r s =
     (let low = (ucast (val AND 0xffffffff) :: u32); high = (ucast (drop_bit 32 val) :: u32)
      in s\<lparr>msr := (msr s)(r := push_bit 32 (ucast high) OR ucast low)\<rparr>)"

definition read_cr0 :: "machine \<Rightarrow> u64" where
  "read_cr0 s = cr0 s"

definition write_cr0 :: "u64 \<Rightarrow> machine \<Rightarrow> machine" where
  "write_cr0 val s = s\<lparr>cr0 := val\<rparr>"

definition read_cr4 :: "machine \<Rightarrow> u64" where
  "read_cr4 s = cr4 s"

text \<open>The source writes \<open>%cr0\<close> here as well.\<close>

definition write_cr4 :: "u64 \<Rightarrow> machine \<Rightarrow> machine" where
  "write_cr4 val s = s\<lparr>cr0 := val\<rparr>"

definition enable_write_protect :: "machine \<Rightarrow> machine" where
  "enable_write_protect s = write_cr0 (read_cr0 s OR scast (cr0_bit cr0_write_protect)) s"

section \<open>What the bits and the operations mean\<close>

text \<open>
  All bits of cr0 are single bits of the register but \<open>cr0_paging\<close>, whose enumerator is
  negative: with it, the reserved upper half of the register would be set.
\<close>

lemma cr0_widened: "c \<noteq> cr0_paging \<Longrightarrow> (scast (cr0_bit c) :: u64) = ucast (cr0_bit c)"
  by (cases c) simp_all

lemma cr0_paging_negative: "(scast (cr0_bit cr0_paging) :: u64) = 0xFFFFFFFF80000000"
  by simp

lemma nx_efer: "nx_enabled s \<longleftrightarrow> msr s ia32_msfr AND scast (efer_bit efer_nxe) \<noteq> 0"
  using and_exp_eq_0_iff_not_bit [of "msr s ia32_msfr" 11] by (simp add: nx_enabled_def)

text \<open>Each operation sets its bit and nothing else; \<open>write_cr4\<close> leaves cr4 as it was and overwrites cr0.\<close>

lemma enable_no_exec_bit:
  "msr (enable_no_exec s) ia32_msfr = msr s ia32_msfr OR scast (efer_bit efer_nxe)"
  "r \<noteq> ia32_msfr \<Longrightarrow> msr (enable_no_exec s) r = msr s r" "nx_enabled (enable_no_exec s)"
  by (simp_all add: enable_no_exec_def ia32_msfr_def nx_enabled_def bit_or_iff)

lemma enable_write_protect_bit: "bit (cr0 (enable_write_protect s)) n \<longleftrightarrow> n = 16 \<or> bit (cr0 s) n"
proof -
  have "bit (65536 :: u64) n \<longleftrightarrow> n = 16"
    using bit_exp_iff [where 'a = u64, of 16 n] bit64_len [of 65536 n] by auto
  then show ?thesis by (auto simp: enable_write_protect_def write_cr0_def read_cr0_def bit_or_iff)
qed

lemma write_cr4_misses: "cr4 (write_cr4 val s) = cr4 s" "cr0 (write_cr4 val s) = val"
  by (simp_all add: write_cr4_def)

lemma write_efer_value: "msr (write_efer val r s) r = val"
proof (rule bit_eqI)
  fix n :: nat
  have m: "(0xffffffff :: u64) = mask 32" by (simp add: mask_eq_exp_minus_1)
  have "32 \<le> n \<Longrightarrow> 32 + (n - 32) = n" by simp
  then show "bit (msr (write_efer val r s) r) n \<longleftrightarrow> bit val n"
    using bit64_len [of val n] unfolding write_efer_def Let_def m
    by (cases "n < 32") (auto simp: bit_simps)
qed

end
