(* ===== verification/Paging.thy ===== *)
theory Paging
  imports Registers
begin

text \<open>
  Paging (src/paging.h, src/paging.c): the page table base register, page table
  entries, the descent through the recursive mapping, translation, mapping and unmapping of
  pages, and the construction of the kernel's own page tables. \<open>struct page\<close> has one member, the
  page number, and is that number here, as is \<open>struct page_table_entry\<close>; a pointer to an
  entry or a table is its virtual address. The boot information \<open>bi\<close> is the read-only memory
  the frame allocator reads its areas from. The lemmas prove that mapping a page makes the
  processor translate exactly that page to the frame.
\<close>

section \<open>Registers\<close>

type_synonym page = u64

definition user_access_bit :: u64 where "user_access_bit = 0x4"
definition write_through_cache_bit :: u64 where "write_through_cache_bit = 0x8"
definition disable_cache_bit :: u64 where "disable_cache_bit = 0x10"
definition accessed_bit :: u64 where "accessed_bit = 0x20"
definition dirty_bit :: u64 where "dirty_bit = 0x40"
definition global_bit :: u64 where "global_bit = 0x100"

definition PAGE_TABLE_ENTRY_COUNT :: nat where "PAGE_TABLE_ENTRY_COUNT = 512"

definition p4_table :: u64 where "p4_table = 0xfffffffffffff000"

definition read_tlb :: "machine \<Rightarrow> u64" where
  "read_tlb s = cr3 s"

definition write_tlb :: "u64 \<Rightarrow> machine \<Rightarrow> machine" where
  "write_tlb val s = s\<lparr>cr3 := val, tlb := Map.empty\<rparr>"

definition flush_tlb :: "machine \<Rightarrow> machine" where
  "flush_tlb s = write_tlb (read_tlb s) s"

definition invalidate_page :: "u64 \<Rightarrow> machine \<Rightarrow> machine" where
  "invalidate_page addr s = s\<lparr>tlb := (\<lambda>v. if v div PAGE_SIZE = addr div PAGE_SIZE then None else tlb s v)\<rparr>"

section \<open>Entries and tables\<close>

definition set_unused :: "u64 \<Rightarrow> machine \<Rightarrow> machine out" where
  "set_unused entry s = vstore s entry 0"

definition init_page_table :: "u64 \<Rightarrow> machine \<Rightarrow> machine out" where
  "init_page_table table s = foldM (\<lambda>i. set_unused (table + 8 * of_nat i)) [0..<PAGE_TABLE_ENTRY_COUNT] s"

definition descened_page_table :: "u64 \<Rightarrow> u64 \<Rightarrow> machine \<Rightarrow> u64 out" where
  "descened_page_table table idx s =
     (if idx \<ge> 512 then ret 0
      else obind (vload s (table + 8 * idx)) (\<lambda>e.
        if e AND (present_bit OR c_lnot huge_bit) \<noteq> 0 then ret (push_bit 9 table OR push_bit 12 idx)
        else ret 0))"

definition set_page_table_entry :: "u64 \<Rightarrow> frame \<Rightarrow> u64 \<Rightarrow> machine \<Rightarrow> machine out" where
  "set_page_table_entry entry f flags s =
     obind (assert_c (c_lnot physical_addr_mask AND get_frame_start_addr f = 0)
              ''((!physical_addr_mask) & get_frame_start_addr(frame)) == 0'') (\<lambda>_.
       vstore s entry ((get_frame_start_addr f AND physical_addr_mask) OR flags))"

text \<open>The return code and the caller's frame, which keeps its old value \<open>f\<close> on failure.\<close>

definition get_physical_frame :: "u64 \<Rightarrow> frame \<Rightarrow> machine \<Rightarrow> (int \<times> frame) out" where
  "get_physical_frame entry f s =
     obind (vload s entry) (\<lambda>e.
       if e AND present_bit \<noteq> 0 then ret (0, get_frame_for_addr (e AND physical_addr_mask))
       else ret (-1, f))"

definition get_page_for_vaddr :: "u64 \<Rightarrow> page out" where
  "get_page_for_vaddr vaddr =
     obind (assert_c (vaddr < 0x0000800000000000 \<or> vaddr \<ge> 0xffff800000000000)
              ''vaddr < 0x0000800000000000 || vaddr >= 0xffff800000000000'')
       (\<lambda>_. ret (vaddr div PAGE_SIZE))"

definition get_p4_index :: "page \<Rightarrow> u16" where
  "get_p4_index p = ucast (drop_bit 27 p AND 0x1FF)"

definition get_p3_index :: "page \<Rightarrow> u16" where
  "get_p3_index p = ucast (drop_bit 18 p AND 0x1FF)"

definition get_p2_index :: "page \<Rightarrow> u16" where
  "get_p2_index p = ucast (drop_bit 9 p AND 0x1FF)"

definition get_p1_index :: "page \<Rightarrow> u16" where
  "get_p1_index p = ucast (p AND 0x1FF)"

text \<open>\<open>&table->entries[index]\<close> for a 16-bit index.\<close>

definition entry_ptr :: "u64 \<Rightarrow> u16 \<Rightarrow> u64" where
  "entry_ptr table idx = table + 8 * ucast idx"

section \<open>Translation\<close>

text \<open>
  The caller's frame \<open>f\<close> is uninitialised in \<open>translate\<close>; it is an argument here, so that a
  failure leaves it visible.
\<close>

definition translate_page :: "page \<Rightarrow> frame \<Rightarrow> machine \<Rightarrow> (int \<times> frame) out" where
  "translate_page page f s =
     obind (descened_page_table p4_table (ucast (get_p4_index page)) s) (\<lambda>t3.
     obind (vload s (entry_ptr t3 (get_p3_index page))) (\<lambda>_.
     obind (descened_page_table t3 (ucast (get_p3_index page)) s) (\<lambda>t2.
     obind (vload s (entry_ptr t2 (get_p2_index page))) (\<lambda>e2.
       if e2 AND huge_bit \<noteq> 0 then
         obind (get_physical_frame (entry_ptr t2 (get_p2_index page)) f s) (\<lambda>(c, f').
           if c \<noteq> 0 then ret (-1, f') else ret (0, f' + ucast (get_p1_index page)))
       else
         obind (descened_page_table t2 (ucast (get_p2_index page)) s) (\<lambda>t1.
           get_physical_frame (entry_ptr t1 (get_p1_index page)) f s)))))"

definition translate :: "u64 \<Rightarrow> frame \<Rightarrow> machine \<Rightarrow> u64 out" where
  "translate vaddr f s =
     obind (get_page_for_vaddr vaddr) (\<lambda>page.
     obind (translate_page page f s) (\<lambda>(_, f').
       ret (f' * PAGE_SIZE + vaddr mod PAGE_SIZE)))"

section \<open>Mapping\<close>

definition alloc_frame :: "mem \<Rightarrow> machine \<Rightarrow> (int \<times> frame \<times> machine) out" where
  "alloc_frame bi s =
     obind (allocate_frame bi (frames s, tty s)) (\<lambda>(c, f, al, t). ret (c, f, s\<lparr>frames := al, tty := t\<rparr>))"

definition get_next_page_table_or_create :: "mem \<Rightarrow> u64 \<Rightarrow> u16 \<Rightarrow> machine \<Rightarrow> (u64 \<times> machine) out" where
  "get_next_page_table_or_create bi table idx s =
     obind (descened_page_table table (ucast idx) s) (\<lambda>tbl.
     obind (if tbl = 0 then
              obind (alloc_frame bi s) (\<lambda>(success, f, s1).
                if success = 0 then
                  obind (set_page_table_entry (entry_ptr table idx) f (present_bit OR writeable_bit) s1)
                    (\<lambda>s2. ret (flush_tlb s2))
                else ret s1)
            else ret s) (\<lambda>s'.
     obind (descened_page_table table (ucast idx) s') (\<lambda>tbl'. ret (tbl', s'))))"

definition map_page_to_frame :: "mem \<Rightarrow> page \<Rightarrow> frame \<Rightarrow> u64 \<Rightarrow> machine \<Rightarrow> machine out" where
  "map_page_to_frame bi page f flags s =
     obind (get_next_page_table_or_create bi p4_table (get_p4_index page) s) (\<lambda>(p3_table, s1).
     obind (get_next_page_table_or_create bi p3_table (get_p3_index page) s1) (\<lambda>(p2_table, s2).
     obind (get_next_page_table_or_create bi p2_table (get_p2_index page) s2) (\<lambda>(p1_table, s3).
       set_page_table_entry (entry_ptr p1_table (get_p1_index page)) f (present_bit OR flags) s3)))"

text \<open>The return code of the allocation is not looked at.\<close>

definition map_page :: "mem \<Rightarrow> page \<Rightarrow> u64 \<Rightarrow> machine \<Rightarrow> machine out" where
  "map_page bi page flags s = obind (alloc_frame bi s) (\<lambda>(_, f, s1). map_page_to_frame bi page f flags s1)"

definition identity_map_page :: "mem \<Rightarrow> frame \<Rightarrow> u64 \<Rightarrow> machine \<Rightarrow> machine out" where
  "identity_map_page bi f flags s =
     obind (get_page_for_vaddr (get_frame_start_addr f)) (\<lambda>p. map_page_to_frame bi p f flags s)"

definition free_frame :: "frame \<Rightarrow> machine \<Rightarrow> machine" where
  "free_frame f s = s\<lparr>frames := deallocate_frame f (frames s)\<rparr>"

definition unmap_page :: "page \<Rightarrow> frame \<Rightarrow> machine \<Rightarrow> machine out" where
  "unmap_page page garbage s =
     obind (descened_page_table p4_table (ucast (get_p4_index page)) s) (\<lambda>t3.
     obind (descened_page_table t3 (ucast (get_p3_index page)) s) (\<lambda>t2.
     obind (descened_page_table t2 (ucast (get_p2_index page)) s) (\<lambda>t1.
     obind (set_unused (entry_ptr t1 (get_p1_index page)) s) (\<lambda>s1.
     obind (get_physical_frame (entry_ptr t1 (get_p1_index page)) garbage s1) (\<lambda>(_, f).
       ret (flush_tlb (free_frame f s1)))))))"

definition get_p4_table_phys_addr :: "machine \<Rightarrow> u64" where
  "get_p4_table_phys_addr s = read_tlb s"

section \<open>Descending through the recursive mapping\<close>

lemma and_bit0: "e AND (present_bit OR c_lnot huge_bit) \<noteq> 0 \<longleftrightarrow> bit e 0" "e AND present_bit \<noteq> 0 \<longleftrightarrow> bit (e :: u64) 0"
  by (simp_all add: present_bit_def huge_bit_def and_one_eq bit_0 odd_iff_mod_2_eq_one)

lemma bit_single: "bit (2 ^ k :: u64) n \<longleftrightarrow> n = k \<and> n < 64"
  by (auto simp: bit_exp_iff)

lemma and_huge: "e AND huge_bit \<noteq> 0 \<longleftrightarrow> is_huge e"
proof -
  have "bit huge_bit n \<longleftrightarrow> n = 7" for n
    using bit_single [of 7 n] by (auto simp: huge_bit_def)
  then show ?thesis by (auto simp: bit_eq_iff [of "e AND huge_bit" 0] bit_and_iff is_huge_def)
qed

lemma child_addr_fold: "push_bit 9 t OR push_bit 12 i = child_addr t i"
  by (simp add: child_addr_def)

declare vtable_Nil [simp del]

lemma p4_table_top [simp]: "p4_table = vtable []"
  by (simp add: p4_table_def top_table_def vtable_def)

lemma vtable_nonzero: "length p \<le> 3 \<Longrightarrow> vtable p \<noteq> 0"
proof
  assume "length p \<le> 3" "vtable p = 0"
  then show False using vtable_ones [of p] unfolding ones_from_def by (auto dest!: spec [of _ 63])
qed

text \<open>The tables are sound: recursion is set up, and no table hangs in two places.\<close>

definition tables_ok :: "machine \<Rightarrow> bool" where
  "tables_ok s \<longleftrightarrow> recursive (nx_enabled s) (phys s) (root s) \<and> tree_ok (nx_enabled s) (phys s) (root s)"

definition table_at :: "machine \<Rightarrow> u64 list \<Rightarrow> u64 option" where
  "table_at s p = follow (nx_enabled s) (phys s) (root s) p"

lemma mmu_table:
  "tables_ok s \<Longrightarrow> table_path p \<Longrightarrow> table_at s p = Some t \<Longrightarrow> i < 512 \<Longrightarrow> mmu s (vtable p + 8 * i) = Some (t + 8 * i)"
  by (auto simp: tables_ok_def table_at_def intro: mmu_vtable)

lemma vload_table:
  "tables_ok s \<Longrightarrow> table_path p \<Longrightarrow> table_at s p = Some t \<Longrightarrow> i < 512 \<Longrightarrow>
     vload s (vtable p + 8 * i) = ret (entry_at (phys s) t i)"
  by (simp add: vload_def mmu_table entry_at_def)

lemma vstore_table:
  "tables_ok s \<Longrightarrow> table_path p \<Longrightarrow> table_at s p = Some t \<Longrightarrow> i < 512 \<Longrightarrow>
     vstore s (vtable p + 8 * i) x = ret (s\<lparr>phys := st64 (phys s) (t + 8 * i) x\<rparr>)"
  by (simp add: vstore_def mmu_table)

lemma descend_table:
  assumes "tables_ok s" "table_path p" "table_at s p = Some t" "i < 512"
  shows "descened_page_table (vtable p) i s = ret (if bit (entry_at (phys s) t i) 0 then vtable (p @ [i]) else 0)"
  using assms(4) unfolding linorder_not_le [symmetric]
  by (simp add: descened_page_table_def vload_table [OF assms] and_bit0 child_addr_fold
      vtable_snoc)

text \<open>The 16-bit indices of a page are the indices of its addresses.\<close>

lemma ucast_index: "x < 512 \<Longrightarrow> ucast (ucast (x :: u64) :: u16) = x"
  by (rule bit_eqI) (auto simp: bit_ucast_iff dest: bit_lt512)

lemma page_drop: "v div PAGE_SIZE = drop_bit 12 v"
  by (simp add: PAGE_SIZE_def drop_bit_eq_div)

lemma and_1ff: "x AND 0x1FF = take_bit 9 (x :: u64)"
  by (simp add: take_bit_eq_mask mask_eq_exp_minus_1)

lemma page_indices:
  "ucast (get_p4_index (v div PAGE_SIZE)) = index 4 v" "ucast (get_p3_index (v div PAGE_SIZE)) = index 3 v"
  "ucast (get_p2_index (v div PAGE_SIZE)) = index 2 v" "ucast (get_p1_index (v div PAGE_SIZE)) = index 1 v"
proof -
  have "drop_bit 27 (v div PAGE_SIZE) AND 0x1FF = index 4 v" "drop_bit 18 (v div PAGE_SIZE) AND 0x1FF = index 3 v"
    "drop_bit 9 (v div PAGE_SIZE) AND 0x1FF = index 2 v" "v div PAGE_SIZE AND 0x1FF = index 1 v"
    by (simp_all add: page_drop and_1ff index_def)
  then show "ucast (get_p4_index (v div PAGE_SIZE)) = index 4 v" "ucast (get_p3_index (v div PAGE_SIZE)) = index 3 v"
    "ucast (get_p2_index (v div PAGE_SIZE)) = index 2 v" "ucast (get_p1_index (v div PAGE_SIZE)) = index 1 v"
    by (simp_all add: get_p4_index_def get_p3_index_def get_p2_index_def get_p1_index_def ucast_index)
qed

lemma entry_ptrs:
  "entry_ptr t (get_p4_index (v div PAGE_SIZE)) = t + 8 * index 4 v"
  "entry_ptr t (get_p3_index (v div PAGE_SIZE)) = t + 8 * index 3 v"
  "entry_ptr t (get_p2_index (v div PAGE_SIZE)) = t + 8 * index 2 v"
  "entry_ptr t (get_p1_index (v div PAGE_SIZE)) = t + 8 * index 1 v"
  by (simp_all add: entry_ptr_def page_indices)

section \<open>Creating tables\<close>

lemma bit_phys_mask: "bit physical_addr_mask n \<longleftrightarrow> 12 \<le> n \<and> n < 52"
proof -
  have "physical_addr_mask = push_bit 12 (mask 40)"
    by (simp add: physical_addr_mask_def push_bit_eq_mult mask_eq_exp_minus_1)
  then have "bit physical_addr_mask n \<longleftrightarrow> bit (push_bit 12 (mask 40 :: u64)) n" by (rule arg_cong)
  then show ?thesis by (auto simp: bit_push_bit_iff bit_mask_iff)
qed

lemma bit_lt_40: "unat (f :: u64) < 2 ^ 40 \<Longrightarrow> bit f n \<Longrightarrow> n < 40"
proof -
  assume f: "unat f < 2 ^ 40" and n: "bit f n"
  then have "take_bit 40 f = f" by (simp add: take_bit_eq_mod word_unat_eq_iff unat_mod)
  then show "n < 40" using n by (metis bit_take_bit_iff)
qed

lemma frame_start_push: "get_frame_start_addr f = push_bit 12 f"
  by (simp add: get_frame_start_addr_def PAGE_SIZE_def push_bit_eq_mult)

lemma frame_start_aligned [simp]: "page_aligned (get_frame_start_addr f)"
  by (simp add: page_aligned_bits frame_start_push bit_push_bit_iff)

lemma frame_start_inj: "unat f < 2 ^ 40 \<Longrightarrow> unat g < 2 ^ 40 \<Longrightarrow> get_frame_start_addr f = get_frame_start_addr g \<Longrightarrow> f = g"
proof -
  assume a: "unat f < 2 ^ 40" "unat g < 2 ^ 40" "get_frame_start_addr f = get_frame_start_addr g"
  have u: "unat (get_frame_start_addr h) = 4096 * unat h" if "unat h < 2 ^ 40" for h
    using that by (simp add: get_frame_start_addr_def PAGE_SIZE_def unat_word_ariths)
  have "unat f = unat g" using u [OF a(1)] u [OF a(2)] a(3) by simp
  then show "f = g" by (rule unsigned_word_eqI)
qed

definition entry_for :: "frame \<Rightarrow> u64 \<Rightarrow> u64" where
  "entry_for f flags = (get_frame_start_addr f AND physical_addr_mask) OR flags"

lemma bit_entry_for: "\<not> (12 \<le> n \<and> n < 52) \<Longrightarrow> bit (entry_for f flags) n \<longleftrightarrow> bit flags n"
  by (auto simp: entry_for_def bit_or_iff bit_and_iff bit_phys_mask)

lemma entry_for_facts:
  "bit (entry_for f flags) 0 \<longleftrightarrow> bit flags 0" "is_huge (entry_for f flags) \<longleftrightarrow> bit flags 7"
  "entry_ok nx (entry_for f flags) \<longleftrightarrow> bit flags 0 \<and> (nx \<or> \<not> bit flags 63)"
  by (simp_all add: bit_entry_for is_huge_def entry_ok_def)

lemma entry_addr_for:
  assumes "unat f < 2 ^ 40" "flags AND physical_addr_mask = 0"
  shows "entry_addr (entry_for f flags) = get_frame_start_addr f"
proof (rule bit_eqI)
  fix n
  have "\<not> bit flags n" if "12 \<le> n" "n < 52"
  proof -
    have "\<not> bit (flags AND physical_addr_mask) n" by (simp add: assms(2))
    then show ?thesis using that by (simp add: bit_and_iff bit_phys_mask)
  qed
  then show "bit (entry_addr (entry_for f flags)) n \<longleftrightarrow> bit (get_frame_start_addr f) n"
    using bit_lt_40 [OF assms(1), of "n - 12"]
    by (auto simp: entry_addr_def entry_for_def frame_start_push bit_and_iff bit_or_iff bit_phys_mask bit_push_bit_iff)
qed

lemma set_entry_table:
  "tables_ok s \<Longrightarrow> table_path p \<Longrightarrow> table_at s p = Some t \<Longrightarrow> i < 512 \<Longrightarrow>
     set_page_table_entry (vtable p + 8 * i) f flags s = ret (s\<lparr>phys := st64 (phys s) (t + 8 * i) (entry_for f flags)\<rparr>)"
  by (simp add: set_page_table_entry_def vstore_table entry_for_def physical_addr_mask_def)

text \<open>Page tables and allocator together: the frames still to be issued are blank and unused.\<close>

definition paging_ok :: "mem \<Rightarrow> machine \<Rightarrow> bool" where
  "paging_ok bi s \<longleftrightarrow> tables_ok s \<and> allocator_ready bi (frames s, tty s) \<and>
     (\<forall>f \<in> frame_pool bi (frames s). unat f < 2 ^ 40 \<and> blank_table (phys s) (get_frame_start_addr f) \<and>
        (\<forall>q. table_path q \<longrightarrow> table_at s q \<noteq> Some (get_frame_start_addr f)))"

lemma paging_okD:
  assumes "paging_ok bi s"
  shows "tables_ok s" "allocator_ready bi (frames s, tty s)"
    "f \<in> frame_pool bi (frames s) \<Longrightarrow> unat f < 2 ^ 40"
    "f \<in> frame_pool bi (frames s) \<Longrightarrow> blank_table (phys s) (get_frame_start_addr f)"
    "f \<in> frame_pool bi (frames s) \<Longrightarrow> table_path q \<Longrightarrow> table_at s q \<noteq> Some (get_frame_start_addr f)"
  using assms by (auto simp: paging_ok_def)

lemma alloc_frame_takes:
  assumes "paging_ok bi s" "frame_pool bi (frames s) \<noteq> {}"
  shows "\<exists>f al t. alloc_frame bi s = ret (0, f, s\<lparr>frames := al, tty := t\<rparr>) \<and> f \<in> frame_pool bi (frames s) \<and>
    frame_pool bi al = frame_pool bi (frames s) - {f} \<and> allocator_ready bi (al, t)"
  using stock.alloc_takes [of bi "(frames s, tty s)"] assms paging_okD(2) [OF assms(1)]
  by (fastforce simp: alloc_frame_def)

lemma machine_views [simp]:
  "nx_enabled (s\<lparr>frames := al, tty := t\<rparr>) = nx_enabled s" "root (s\<lparr>frames := al, tty := t\<rparr>) = root s"
  "nx_enabled (s\<lparr>phys := m\<rparr>) = nx_enabled s" "root (s\<lparr>phys := m\<rparr>) = root s"
  "tables_ok (s\<lparr>frames := al, tty := t\<rparr>) = tables_ok s" "table_at (s\<lparr>frames := al, tty := t\<rparr>) = table_at s"
  "mmu (s\<lparr>frames := al, tty := t\<rparr>) = mmu s"
  by (simp_all add: nx_enabled_def root_def tables_ok_def table_at_def mmu_def fun_eq_iff)

text \<open>The walk does not depend on what is cached.\<close>

lemma tlb_views [simp]:
  "nx_enabled (s\<lparr>tlb := c\<rparr>) = nx_enabled s" "root (s\<lparr>tlb := c\<rparr>) = root s" "mmu (s\<lparr>tlb := c\<rparr>) = mmu s"
  "tables_ok (s\<lparr>tlb := c\<rparr>) = tables_ok s" "table_at (s\<lparr>tlb := c\<rparr>) = table_at s" "paging_ok bi (s\<lparr>tlb := c\<rparr>) = paging_ok bi s"
  by (simp_all add: nx_enabled_def root_def tables_ok_def table_at_def mmu_def paging_ok_def allocator_ready_def fun_eq_iff)

lemma flush_tlb_drops: "flush_tlb s = s\<lparr>tlb := Map.empty\<rparr>"
  by (simp add: flush_tlb_def write_tlb_def read_tlb_def)

text \<open>A slot of a table that is neither the recursive one nor occupied is not entry 511 of the root.\<close>

lemma store_keeps_recursive:
  assumes "tables_ok s" "table_path p" "table_at s p = Some t" "i < 512" "p = [] \<longrightarrow> i \<noteq> 511"
  shows "recursive (nx_enabled s) (st64 (phys s) (t + 8 * i) x) (root s)"
proof -
  have t: "tree_ok (nx_enabled s) (phys s) (root s)" "recursive (nx_enabled s) (phys s) (root s)"
    using assms(1) by (simp_all add: tables_ok_def)
  have al: "page_aligned t" "page_aligned (root s)"
    using t assms(3) follow_aligned by (auto simp: recursive_def table_at_def)
  have "\<not> (t = root s \<and> i = 511)"
    using tree_ok_inj [OF t(1) assms(2), of "[]" t] assms(3,5) by (auto simp: table_at_def)
  then have "entry_at (st64 (phys s) (t + 8 * i) x) (root s) 511 = entry_at (phys s) (root s) 511"
    using entry_at_store [OF al assms(4), of 511] by auto
  then show ?thesis using t(2) by (simp add: recursive_def)
qed

text \<open>
  The indices that remain below a table lead through entries that are either clear or lead
  to a table: no huge page and no entry the processor rejects is in the way.
\<close>

fun clear_way :: "bool \<Rightarrow> mem \<Rightarrow> u64 \<Rightarrow> u64 list \<Rightarrow> bool" where
  "clear_way nx m t [] = True"
| "clear_way nx m t (i # is) =
     (let e = entry_at m t i
      in \<not> bit e 0 \<or> entry_ok nx e \<and> \<not> is_huge e \<and> clear_way nx m (entry_addr e) is)"

lemma clear_way_blank: "blank_table m t \<Longrightarrow> \<forall>i \<in> set is. i < 512 \<Longrightarrow> clear_way nx m t is"
  by (cases "is") (simp_all add: blank_table_def)

lemma clear_wayD:
  "clear_way nx m t (p @ i # q) \<Longrightarrow> follow nx m t p = Some u \<Longrightarrow> bit (entry_at m u i) 0 \<Longrightarrow>
     entry_ok nx (entry_at m u i) \<and> \<not> is_huge (entry_at m u i)"
  by (induction p arbitrary: t) (auto simp: Let_def entry_ok_def split: if_splits)

lemma clear_wayI:
  assumes "\<And>p i q u. js = p @ i # q \<Longrightarrow> follow nx m t p = Some u \<Longrightarrow> bit (entry_at m u i) 0 \<Longrightarrow>
     entry_ok nx (entry_at m u i) \<and> \<not> is_huge (entry_at m u i)"
  shows "clear_way nx m t js"
  using assms
proof (induction js arbitrary: t)
  case (Cons j js)
  let ?e = "entry_at m t j"
  have ok: "entry_ok nx ?e \<and> \<not> is_huge ?e" if "bit ?e 0" using Cons.prems [of "[]" j js t] that by simp
  moreover have "clear_way nx m (entry_addr ?e) js" if "bit ?e 0"
  proof (rule Cons.IH)
    fix p i q u
    assume "js = p @ i # q" "follow nx m (entry_addr ?e) p = Some u" "bit (entry_at m u i) 0"
    then show "entry_ok nx (entry_at m u i) \<and> \<not> is_huge (entry_at m u i)"
      using Cons.prems [of "j # p" i q u] ok [OF that] by simp
  qed
  ultimately show ?case by (auto simp: Let_def)
qed simp

definition way_clear :: "machine \<Rightarrow> u64 \<Rightarrow> bool" where
  "way_clear s v \<longleftrightarrow> clear_way (nx_enabled s) (phys s) (root s) (path_to 1 v)"

lemma way_clear_iff:
  "way_clear s v \<longleftrightarrow> (\<forall>p i q u. path_to 1 v = p @ i # q \<longrightarrow> table_at s p = Some u \<longrightarrow> bit (entry_at (phys s) u i) 0 \<longrightarrow>
     entry_ok (nx_enabled s) (entry_at (phys s) u i) \<and> \<not> is_huge (entry_at (phys s) u i))"
  unfolding way_clear_def table_at_def
  by (intro iffI allI impI clear_wayI) (use clear_wayD in metis, blast)

lemma way_clearD:
  "way_clear s v \<Longrightarrow> path_to 1 v = p @ i # q \<Longrightarrow> table_at s p = Some u \<Longrightarrow> bit (entry_at (phys s) u i) 0 \<Longrightarrow>
     entry_ok (nx_enabled s) (entry_at (phys s) u i) \<and> \<not> is_huge (entry_at (phys s) u i)"
  unfolding way_clear_iff by metis

text \<open>
  What an operation that adds tables and pages may do: the registers stay, the tables that
  were there stay, new ones come from the frames of the allocator, and only tables and
  such frames are written.
\<close>

definition tables_of :: "machine \<Rightarrow> u64 set" where
  "tables_of s = {t. \<exists>q. table_path q \<and> table_at s q = Some t}"

definition pool_addrs :: "mem \<Rightarrow> machine \<Rightarrow> u64 set" where
  "pool_addrs bi s = get_frame_start_addr ` frame_pool bi (frames s)"

definition keeps_others :: "mem \<Rightarrow> machine \<Rightarrow> machine \<Rightarrow> bool" where
  "keeps_others bi s s' \<longleftrightarrow> (\<forall>t i. page_aligned t \<longrightarrow> i < 512 \<longrightarrow> t \<notin> tables_of s \<union> pool_addrs bi s \<longrightarrow>
     entry_at (phys s') t i = entry_at (phys s) t i)"

definition keeps_ways :: "machine \<Rightarrow> machine \<Rightarrow> bool" where
  "keeps_ways s s' \<longleftrightarrow> (\<forall>v. index 4 v \<noteq> 511 \<longrightarrow> way_clear s v \<longrightarrow> way_clear s' v)"

definition keeps_tables :: "machine \<Rightarrow> machine \<Rightarrow> bool" where
  "keeps_tables s s' \<longleftrightarrow> (\<forall>q t. table_path q \<longrightarrow> table_at s q = Some t \<longrightarrow> table_at s' q = Some t)"

definition grows :: "mem \<Rightarrow> machine \<Rightarrow> machine \<Rightarrow> bool" where
  "grows bi s s' \<longleftrightarrow> cr3 s' = cr3 s \<and> msr s' = msr s \<and> pool_addrs bi s' \<subseteq> pool_addrs bi s \<and>
     tables_of s' \<subseteq> tables_of s \<union> pool_addrs bi s \<and> keeps_tables s s' \<and> keeps_others bi s s' \<and> keeps_ways s s'"

lemma growsD:
  assumes "grows bi s s'"
  shows "cr3 s' = cr3 s" "msr s' = msr s" "pool_addrs bi s' \<subseteq> pool_addrs bi s"
    "tables_of s' \<subseteq> tables_of s \<union> pool_addrs bi s" "keeps_tables s s'" "keeps_others bi s s'" "keeps_ways s s'"
  using assms by (simp_all add: grows_def)

lemma grows_refl: "grows bi s s"
  by (simp add: grows_def keeps_tables_def keeps_others_def keeps_ways_def)

lemma grows_trans:
  assumes "grows bi s s'" "grows bi s' s''"
  shows "grows bi s s''"
proof -
  note a = growsD [OF assms(1)] and b = growsD [OF assms(2)]
  have "keeps_others bi s s''"
    unfolding keeps_others_def
  proof (intro allI impI)
    fix t i :: u64 assume t: "page_aligned t" "i < 512" "t \<notin> tables_of s \<union> pool_addrs bi s"
    then have "t \<notin> tables_of s' \<union> pool_addrs bi s'" using a(3,4) by blast
    then show "entry_at (phys s'') t i = entry_at (phys s) t i"
      using a(6) b(6) t by (simp add: keeps_others_def)
  qed
  moreover have "keeps_tables s s''" "keeps_ways s s''"
    using a(5,7) b(5,7) by (simp_all add: keeps_tables_def keeps_ways_def)
  ultimately show ?thesis using a(1-4) b(1-4) unfolding grows_def by auto
qed

lemma path_1_prefix:
  assumes "path_to 1 v = p @ i # q" "index 4 v \<noteq> 511"
  shows "table_path p" "length p \<le> 2" "i < 512"
proof -
  have "table_path (path_to 1 v)" using table_path_to [of 1 v] assms(2) by simp
  then have t: "table_path (p @ i # q)" using assms(1) by simp
  then show "table_path p" by (rule table_path_prefix)
  show "i < 512" using t by (simp add: table_path_def)
  show "length p \<le> 2" using length_path_to [of 1 v] unfolding assms(1) by simp
qed

lemma alloc_grows:
  "frame_pool bi al \<subseteq> frame_pool bi (frames s) \<Longrightarrow> grows bi s (s\<lparr>frames := al, tty := t\<rparr>)"
  by (auto simp: grows_def tables_of_def pool_addrs_def keeps_tables_def keeps_others_def keeps_ways_def way_clear_def)

text \<open>The entry of the last table on the way to an address; 0 when there is no such table.\<close>

definition last_entry :: "machine \<Rightarrow> u64 \<Rightarrow> u64" where
  "last_entry s v = (case table_at s (path_to 1 v) of None \<Rightarrow> 0 | Some t \<Rightarrow> entry_at (phys s) t (index 1 v))"

definition same_translation :: "machine \<Rightarrow> machine \<Rightarrow> bool" where
  "same_translation s s' \<longleftrightarrow> (\<forall>w. index 4 w \<noteq> 511 \<longrightarrow> mmu s' w = mmu s w \<and> last_entry s' w = last_entry s w) \<and>
     keeps_present (phys s) (phys s')"

text \<open>The state after a free slot got a frame of the pool.\<close>

definition hung :: "mem \<Rightarrow> machine \<Rightarrow> u64 list \<Rightarrow> u64 \<Rightarrow> u64 \<Rightarrow> frame \<Rightarrow> machine \<Rightarrow> bool" where
  "hung bi s p i t f s' \<longleftrightarrow> paging_ok bi s \<and> f \<in> frame_pool bi (frames s) \<and> table_path (p @ [i]) \<and>
     table_at s p = Some t \<and> \<not> bit (entry_at (phys s) t i) 0 \<and> cr3 s' = cr3 s \<and> msr s' = msr s \<and>
     phys s' = st64 (phys s) (t + 8 * i) (entry_for f (present_bit OR writeable_bit))"

lemma hungD:
  assumes "hung bi s p i t f s'"
  shows "tables_ok s" "tree_ok (nx_enabled s) (phys s) (root s)" "table_path p" "table_at s p = Some t" "i < 512" "page_aligned t"
    "length p \<le> 2" "nx_enabled s' = nx_enabled s" "root s' = root s" "table_at s (p @ [i]) = None"
    "free_slot (nx_enabled s) (phys s) (root s) p i t"
    "hangs (nx_enabled s) (entry_for f (present_bit OR writeable_bit)) (get_frame_start_addr f)"
    "blank_table (phys s) (get_frame_start_addr f)"
    "\<And>q. table_path q \<Longrightarrow> follow (nx_enabled s) (phys s) (root s) q \<noteq> Some (get_frame_start_addr f)"
proof -
  have h: "paging_ok bi s" "f \<in> frame_pool bi (frames s)" "table_path (p @ [i])" "table_at s p = Some t"
    "\<not> bit (entry_at (phys s) t i) 0" "cr3 s' = cr3 s" "msr s' = msr s"
    using assms by (simp_all add: hung_def)
  show tab: "tables_ok s" and tree: "tree_ok (nx_enabled s) (phys s) (root s)" and "table_at s p = Some t"
    using paging_okD(1) [OF h(1)] h(4) by (simp_all add: tables_ok_def)
  show free: "free_slot (nx_enabled s) (phys s) (root s) p i t"
    using tree h(3-5) by (simp add: free_slot_def table_at_def entry_ok_def)
  show "table_path p" "i < 512" "page_aligned t" "length p \<le> 2" by (rule free_slotD [OF free])+
  show "nx_enabled s' = nx_enabled s" "root s' = root s" using h(6,7) by (simp_all add: nx_enabled_def root_def)
  show "table_at s (p @ [i]) = None" using h(4,5) by (simp add: table_at_def follow_snoc entry_ok_def)
  have flags: "(present_bit OR writeable_bit) AND physical_addr_mask = 0" "bit (present_bit OR writeable_bit) 0"
    "\<not> bit (present_bit OR writeable_bit) 7" "\<not> bit (present_bit OR writeable_bit) 63"
    by (simp_all add: present_bit_def writeable_bit_def physical_addr_mask_def)
  note pool = paging_okD(3-5) [OF h(1,2)]
  show "hangs (nx_enabled s) (entry_for f (present_bit OR writeable_bit)) (get_frame_start_addr f)"
    using flags by (simp add: hangs_def entry_for_facts entry_addr_for [OF pool(1)])
  show "blank_table (phys s) (get_frame_start_addr f)" by (rule pool(2))
  show "\<And>q. table_path q \<Longrightarrow> follow (nx_enabled s) (phys s) (root s) q \<noteq> Some (get_frame_start_addr f)"
    using pool(3) by (simp add: table_at_def)
qed

lemma hung_table_at:
  assumes h: "hung bi s p i t f s'" and q: "table_path q"
  shows "table_at s' q = (if q = p @ [i] then Some (get_frame_start_addr f) else table_at s q)"
proof -
  have "phys s' = st64 (phys s) (t + 8 * i) (entry_for f (present_bit OR writeable_bit))" using h by (simp add: hung_def)
  then show ?thesis
    unfolding table_at_def hungD(8,9) [OF h]
    using follow_hang [OF hungD(11-13) [OF h] frame_start_aligned hungD(14) [OF h] q] by simp
qed

lemma hung_entry:
  assumes h: "hung bi s p i t f s'" and t': "page_aligned t'" "j < 512"
  shows "entry_at (phys s') t' j =
    (if t = t' \<and> i = j then entry_for f (present_bit OR writeable_bit) else entry_at (phys s) t' j)"
  using h entry_at_store [OF hungD(6) [OF h] t'(1) hungD(5) [OF h] t'(2)] by (simp add: hung_def)

lemma hung_blank:
  assumes h: "hung bi s p i t f s'" and g: "g \<in> frame_pool bi (frames s)"
  shows "blank_table (phys s') (get_frame_start_addr g)"
proof -
  have ok: "paging_ok bi s" using h by (simp add: hung_def)
  have "t \<noteq> get_frame_start_addr g" using paging_okD(5) [OF ok g hungD(3) [OF h]] hungD(4) [OF h] by auto
  then show ?thesis using paging_okD(4) [OF ok g] by (simp add: blank_table_def hung_entry [OF h])
qed

lemma hung_tables_ok:
  assumes h: "hung bi s p i t f s'"
  shows "tables_ok s'"
proof -
  have phys': "phys s' = st64 (phys s) (t + 8 * i) (entry_for f (present_bit OR writeable_bit))"
    and pi: "table_path (p @ [i])" using h by (simp_all add: hung_def)
  have "recursive (nx_enabled s) (phys s') (root s)"
    using pi unfolding phys'
    by (intro store_keeps_recursive [OF hungD(1,3,4,5) [OF h]]) (auto simp: table_path_def)
  moreover have "tree_ok (nx_enabled s) (phys s') (root s)"
    unfolding phys' by (rule tree_ok_hang [OF hungD(11-13) [OF h] frame_start_aligned hungD(14) [OF h]])
  ultimately show ?thesis by (simp add: tables_ok_def hungD(8,9) [OF h])
qed

text \<open>No last entry changes: the new table is blank, and the slot is not in a last table.\<close>

lemma hung_last_entry:
  assumes h: "hung bi s p i t f s'" and w: "index 4 w \<noteq> 511"
  shows "last_entry s' w = last_entry s w"
proof -
  note d = hungD [OF h]
  have pw: "table_path (path_to 1 w)" using table_path_to [of 1 w] w by simp
  show ?thesis
  proof (cases "path_to 1 w = p @ [i]")
    case True
    have "f \<in> frame_pool bi (frames s)" using h by (simp add: hung_def)
    then show ?thesis
      using d(10) hung_table_at [OF h pw] True hung_blank [OF h] by (simp add: last_entry_def blank_table_def del: One_nat_def)
  next
    case False
    then have same: "table_at s' (path_to 1 w) = table_at s (path_to 1 w)" using hung_table_at [OF h pw] by simp
    show ?thesis
    proof (cases "table_at s (path_to 1 w)")
      case (Some u)
      have "u \<noteq> t"
      proof
        assume "u = t"
        then have "path_to 1 w = p" using tree_ok_inj [OF d(2) pw d(3)] Some d(4) by (simp add: table_at_def)
        then show False using d(7) length_path_to [of 1 w] by simp
      qed
      moreover have "page_aligned u" using d(2) Some follow_aligned by (auto simp: tree_ok_def table_at_def)
      ultimately have "entry_at (phys s') u (index 1 w) = entry_at (phys s) u (index 1 w)"
        using hung_entry [OF h _ index_lt] by simp
      then show ?thesis using same Some by (simp add: last_entry_def del: One_nat_def)
    qed (simp add: last_entry_def same del: One_nat_def)
  qed
qed

lemma hung_same_translation:
  assumes h: "hung bi s p i t f s'"
  shows "same_translation s s'"
proof -
  have phys': "phys s' = st64 (phys s) (t + 8 * i) (entry_for f (present_bit OR writeable_bit))"
    and slot: "\<not> bit (entry_at (phys s) t i) 0" using h by (simp_all add: hung_def)
  note d = hungD [OF h]
  show ?thesis
    unfolding same_translation_def
    using walk_hang [OF d(11-13) frame_start_aligned d(14)] hung_last_entry [OF h] keeps_present_store [OF d(6,5) slot]
    by (simp add: mmu_def d(8,9) phys' del: One_nat_def)
qed

text \<open>Ways that were clear stay clear.\<close>

lemma hung_ways:
  assumes h: "hung bi s p i t f s'"
  shows "keeps_ways s s'"
  unfolding keeps_ways_def
proof (intro allI impI)
  fix v assume v: "index 4 v \<noteq> 511" "way_clear s v"
  note d = hungD [OF h]
  show "way_clear s' v"
    unfolding way_clear_iff d(8,9)
  proof (intro allI impI)
    fix p' j q' u
    assume a: "path_to 1 v = p' @ j # q'" "table_at s' p' = Some u" "bit (entry_at (phys s') u j) 0"
    note pre = path_1_prefix [OF a(1) v(1)]
    have f: "f \<in> frame_pool bi (frames s)" using h by (simp add: hung_def)
    show "entry_ok (nx_enabled s) (entry_at (phys s') u j) \<and> \<not> is_huge (entry_at (phys s') u j)"
    proof (cases "p' = p @ [i]")
      case True
      then show ?thesis using hung_table_at [OF h pre(1)] a(2,3) hung_blank [OF h f] pre(3) by (auto simp: blank_table_def)
    next
      case False
      then have u: "table_at s p' = Some u" using hung_table_at [OF h pre(1)] a(2) by simp
      then have al: "page_aligned u" using d(2) follow_aligned by (auto simp: tree_ok_def table_at_def)
      show ?thesis
        using d(12) hung_entry [OF h al pre(3)] way_clearD [OF v(2) a(1) u] a(3) by (auto simp: hangs_def)
    qed
  qed
qed

lemma hung_grows:
  assumes h: "hung bi s p i t f s'" and pool: "frame_pool bi (frames s') \<subseteq> frame_pool bi (frames s)"
  shows "grows bi s s'"
proof -
  note d = hungD [OF h] and at = hung_table_at [OF h]
  have "get_frame_start_addr f \<in> pool_addrs bi s" using h by (simp add: pool_addrs_def hung_def)
  then have "tables_of s' \<subseteq> tables_of s \<union> pool_addrs bi s" using at by (auto simp: tables_of_def split: if_splits)
  moreover have "pool_addrs bi s' \<subseteq> pool_addrs bi s" using pool by (auto simp: pool_addrs_def)
  moreover have "keeps_tables s s'" using at d(10) by (auto simp: keeps_tables_def)
  moreover have "t \<in> tables_of s" using d(3,4) by (auto simp: tables_of_def)
  then have "keeps_others bi s s'" using hung_entry [OF h] by (auto simp: keeps_others_def)
  ultimately show ?thesis using h hung_ways [OF h] by (simp add: grows_def hung_def)
qed

lemma paging_ok_hang:
  assumes ok: "paging_ok bi s" and f: "f \<in> frame_pool bi (frames s)"
    and al: "frame_pool bi al = frame_pool bi (frames s) - {f}" "allocator_ready bi (al, t')"
    and slot: "table_path (p @ [i])" "table_at s p = Some t" "\<not> bit (entry_at (phys s) t i) 0"
    and s': "s' = s\<lparr>frames := al, tty := t', phys := st64 (phys s) (t + 8 * i) (entry_for f (present_bit OR writeable_bit)),
      tlb := c\<rparr>"
  shows "paging_ok bi s' \<and> table_at s' (p @ [i]) = Some (get_frame_start_addr f) \<and>
    blank_table (phys s') (get_frame_start_addr f) \<and> same_translation s s' \<and> grows bi s s'"
proof -
  have h: "hung bi s p i t f s'" using ok f slot by (simp add: hung_def s')
  note pool = paging_okD(3,5) [OF ok]
  have "table_at s' q \<noteq> Some (get_frame_start_addr g)" if "g \<in> frame_pool bi al" "table_path q" for g q
  proof -
    have "g \<in> frame_pool bi (frames s)" "g \<noteq> f" using that(1) al(1) by simp_all
    then show ?thesis using hung_table_at [OF h that(2)] pool that(2) f frame_start_inj [of g f] by auto
  qed
  then have "paging_ok bi s'"
    using al pool(1) hung_blank [OF h] hung_tables_ok [OF h] by (auto simp: paging_ok_def s')
  moreover have "frame_pool bi (frames s') \<subseteq> frame_pool bi (frames s)" using al(1) by (auto simp: s')
  ultimately show ?thesis
    using hung_table_at [OF h slot(1)] hung_blank [OF h f] hung_same_translation [OF h] hung_grows [OF h] by simp
qed

text \<open>
  One step of the descent: afterwards the table of the extended path exists, no address
  below the recursive region translates differently, and the way below is as clear as it was.
\<close>

lemma get_next_step:
  assumes ok: "paging_ok bi s" and p: "table_path (p @ [ucast idx])" "table_at s p = Some t"
    and way: "clear_way (nx_enabled s) (phys s) t (ucast idx # is)" "\<forall>i \<in> set is. i < 512"
    and pool: "n < card (frame_pool bi (frames s))"
  shows "\<exists>s' u. get_next_page_table_or_create bi (vtable p) idx s = ret (vtable (p @ [ucast idx]), s') \<and>
    paging_ok bi s' \<and> table_at s' (p @ [ucast idx]) = Some u \<and> nx_enabled s' = nx_enabled s \<and>
    same_translation s s' \<and> clear_way (nx_enabled s') (phys s') u is \<and> n \<le> card (frame_pool bi (frames s')) \<and>
    frame_pool bi (frames s') \<subseteq> frame_pool bi (frames s) \<and> grows bi s s'"
proof -
  let ?i = "ucast idx :: u64" and ?e = "entry_at (phys s) t (ucast idx)"
  have tp: "table_path p" "?i < 512" using table_path_prefix [OF p(1)] table_path_snoc [OF p(1)] .
  have len: "length (p @ [?i]) \<le> 3" using p(1) by (simp add: table_path_def)
  have tables: "tables_ok s" by (rule paging_okD(1) [OF ok])
  have desc: "descened_page_table (vtable p) ?i s = ret (if bit ?e 0 then vtable (p @ [?i]) else 0)"
    by (rule descend_table [OF tables tp(1) p(2) tp(2)])
  show ?thesis
  proof (cases "bit ?e 0")
    case True
    then have e: "entry_ok (nx_enabled s) ?e" "\<not> is_huge ?e" "clear_way (nx_enabled s) (phys s) (entry_addr ?e) is"
      using way(1) by (simp_all add: Let_def)
    have "table_at s (p @ [?i]) = Some (entry_addr ?e)"
      using p(2) e by (simp add: table_at_def follow_snoc)
    moreover have "get_next_page_table_or_create bi (vtable p) idx s = ret (vtable (p @ [?i]), s)"
      using True desc vtable_nonzero [OF len] by (simp add: get_next_page_table_or_create_def)
    ultimately show ?thesis using ok e(3) pool by (auto simp: same_translation_def grows_refl)
  next
    case False
    obtain f al t' where f: "alloc_frame bi s = ret (0, f, s\<lparr>frames := al, tty := t'\<rparr>)" "f \<in> frame_pool bi (frames s)"
      "frame_pool bi al = frame_pool bi (frames s) - {f}" "allocator_ready bi (al, t')"
      using alloc_frame_takes [OF ok] pool by fastforce
    define s1 where "s1 = s\<lparr>frames := al, tty := t'\<rparr>"
    define s2 where "s2 = s1\<lparr>phys := st64 (phys s) (t + 8 * ?i) (entry_for f (present_bit OR writeable_bit))\<rparr>"
    define s' where "s' = s2\<lparr>tlb := Map.empty\<rparr>"
    have hang: "paging_ok bi s' \<and> table_at s' (p @ [?i]) = Some (get_frame_start_addr f) \<and>
        blank_table (phys s') (get_frame_start_addr f) \<and> same_translation s s' \<and> grows bi s s'"
      by (rule paging_ok_hang [OF ok f(2-4) p(1,2) False]) (simp add: s'_def s2_def s1_def)
    have "set_page_table_entry (entry_ptr (vtable p) idx) f (present_bit OR writeable_bit) s1 = ret s2"
      unfolding entry_ptr_def s2_def
      by (subst set_entry_table [of s1 p t]) (use tables tp p(2) in \<open>simp_all add: s1_def\<close>)
    moreover have at: "table_at s' p = Some t"
      using hang follow_snoc [of "nx_enabled s'" "phys s'" "root s'" p ?i]
        follow_store_other [of "nx_enabled s" "phys s" "root s" p t ?i p] tables tp p(2)
      by (simp add: table_at_def tables_ok_def s'_def s2_def s1_def)
    moreover have "entry_at (phys s') t ?i = entry_for f (present_bit OR writeable_bit)"
      using entry_at_store [of t t ?i ?i] tp(2) tables p(2) follow_aligned
      by (auto simp: s'_def s2_def tables_ok_def recursive_def table_at_def)
    then have "descened_page_table (vtable p) ?i s' = ret (vtable (p @ [?i]))"
      using descend_table [OF _ tp(1) at tp(2)] hang by (simp add: paging_ok_def entry_for_facts present_bit_def writeable_bit_def)
    ultimately have "get_next_page_table_or_create bi (vtable p) idx s = ret (vtable (p @ [?i]), s')"
      using desc False f(1) by (simp add: get_next_page_table_or_create_def flush_tlb_drops flip: s1_def s'_def)
    moreover have "n \<le> card (frame_pool bi (frames s'))" "frame_pool bi (frames s') \<subseteq> frame_pool bi (frames s)"
      using f(2,3) pool by (auto simp: s'_def s2_def s1_def)
    moreover have "nx_enabled s' = nx_enabled s" by (simp add: s'_def s2_def s1_def)
    ultimately show ?thesis using hang way(2) clear_way_blank by blast
  qed
qed

section \<open>Mapping a page\<close>

lemma same_page_bits: "w div PAGE_SIZE = v div PAGE_SIZE \<longleftrightarrow> (\<forall>n. 12 \<le> n \<longrightarrow> bit w n = bit v n)"
proof -
  have "drop_bit 12 w = drop_bit 12 v \<longleftrightarrow> (\<forall>n. bit w (12 + n) = bit v (12 + n))"
  proof
    assume "drop_bit 12 w = drop_bit 12 v"
    then have "bit (drop_bit 12 w) n = bit (drop_bit 12 v) n" for n by simp
    then show "\<forall>n. bit w (12 + n) = bit v (12 + n)" by (simp add: bit_drop_bit_eq)
  qed (simp add: bit_eqI bit_drop_bit_eq)
  also have "\<dots> \<longleftrightarrow> (\<forall>n. 12 \<le> n \<longrightarrow> bit w n = bit v n)"
    by (metis le_add1 le_Suc_ex)
  finally show ?thesis by (simp add: page_drop)
qed

lemma same_page_index: "w div PAGE_SIZE = v div PAGE_SIZE \<Longrightarrow> 0 < k \<Longrightarrow> index k w = index k v"
  unfolding same_page_bits by (rule bit_eqI) (simp add: bit_index)

lemma same_page_canonical: "w div PAGE_SIZE = v div PAGE_SIZE \<Longrightarrow> canonical w = canonical v"
proof -
  assume "w div PAGE_SIZE = v div PAGE_SIZE"
  then have b: "12 \<le> n \<Longrightarrow> bit w n = bit v n" for n unfolding same_page_bits by simp
  have c: "(bit w n = bit w 47) = (bit v n = bit v 47)" if "n \<in> {48..<64}" for n
  proof -
    have "12 \<le> n" using that by simp
    then show ?thesis using b [of n] b [of 47] by simp
  qed
  show ?thesis unfolding canonical_def by (rule ball_cong [OF refl c])
qed

lemma same_page_path: "w div PAGE_SIZE = v div PAGE_SIZE \<Longrightarrow> path_to lvl w = path_to lvl v"
  unfolding path_to_def by (simp add: same_page_index [of w v])

lemma index_bit: "index k w = index k v \<Longrightarrow> 3 + 9 * k \<le> n \<Longrightarrow> n < 12 + 9 * k \<Longrightarrow> bit w n = bit v n"
proof -
  assume a: "index k w = index k v" "3 + 9 * k \<le> n" "n < 12 + 9 * k"
  then have "n - (3 + 9 * k) < 9" "3 + 9 * k + (n - (3 + 9 * k)) = n" by simp_all
  then show ?thesis
    using a(1) bit_index [of k w "n - (3 + 9 * k)"] bit_index [of k v "n - (3 + 9 * k)"] by metis
qed

text \<open>Two canonical addresses with the same indices at all four levels lie in the same page.\<close>

lemma path_same_page:
  assumes "canonical w" "canonical v" "path_to 0 w = path_to 0 v"
  shows "w div PAGE_SIZE = v div PAGE_SIZE"
  unfolding same_page_bits
proof (intro allI impI)
  fix n :: nat assume n: "12 \<le> n"
  have idx: "index 4 w = index 4 v" "index 3 w = index 3 v" "index 2 w = index 2 v" "index 1 w = index 1 v"
    using assms(3) by (simp_all add: path_to_def)
  have low: "bit w k = bit v k" if "12 \<le> k" "k < 48" for k
  proof -
    consider "k < 21" | "21 \<le> k" "k < 30" | "30 \<le> k" "k < 39" | "39 \<le> k" by linarith
    then show ?thesis
      using that index_bit [OF idx(1), of k] index_bit [OF idx(2), of k] index_bit [OF idx(3), of k]
        index_bit [OF idx(4), of k] by cases simp_all
  qed
  show "bit w n = bit v n"
  proof (cases "n < 48")
    case False
    then show ?thesis using assms(1,2) low [of 47] bit64_len [of w n] bit64_len [of v n]
      by (cases "n < 64") (auto simp: canonical_def)
  qed (use low n in blast)
qed

lemma offset_mod: "take_bit 12 v = v mod PAGE_SIZE"
  by (simp add: PAGE_SIZE_def take_bit_eq_mod)

lemma path_to_1: "path_to 1 v = [index 4 v, index 3 v, index 2 v]"
  by (simp add: path_to_def)

text \<open>Writing the last-level entry of a page.\<close>

lemma leaf_store:
  assumes tables: "tables_ok s" and v: "index 4 v \<noteq> 511" and t: "table_at s (path_to 1 v) = Some t"
    and s': "s' = s\<lparr>phys := st64 (phys s) (t + 8 * index 1 v) x\<rparr>"
  shows "tables_ok s' \<and> (\<forall>q. table_path q \<longrightarrow> table_at s' q = table_at s q) \<and>
    (entry_ok (nx_enabled s) x \<longrightarrow> canonical v \<longrightarrow>
       (\<forall>w. w div PAGE_SIZE = v div PAGE_SIZE \<longrightarrow> mmu s' w = Some (entry_addr x + w mod PAGE_SIZE))) \<and>
    (canonical v \<longrightarrow> (\<forall>w. index 4 w \<noteq> 511 \<longrightarrow> w div PAGE_SIZE \<noteq> v div PAGE_SIZE \<longrightarrow> mmu s' w = mmu s w))"
proof -
  let ?nx = "nx_enabled s" and ?m = "phys s" and ?r = "root s" and ?p = "path_to 1 v" and ?i = "index 1 v"
  have tree: "tree_ok ?nx ?m ?r" using tables by (simp add: tables_ok_def)
  have p: "table_path ?p" "length ?p = 3" using table_path_to [of 1 v] v by simp_all
  have ne: "?p \<noteq> []" by (simp add: path_to_def)
  have views: "nx_enabled s' = ?nx" "root s' = ?r" "phys s' = st64 ?m (t + 8 * ?i) x"
    by (simp_all add: s' nx_enabled_def root_def)
  have fol: "follow ?nx ?m ?r ?p = Some t" using t by (simp add: table_at_def)
  have "tables_ok s'"
    unfolding tables_ok_def views
    using ne by (intro conjI store_keeps_recursive [OF tables p(1) t index_lt] tree_ok_leaf [OF tree p fol index_lt]) blast
  moreover have "table_at s' q = table_at s q" if "table_path q" for q
    unfolding table_at_def views by (rule follow_leaf [OF tree p fol index_lt that])
  moreover have "mmu s' w = Some (entry_addr x + w mod PAGE_SIZE)"
    if "entry_ok ?nx x" "canonical v" "w div PAGE_SIZE = v div PAGE_SIZE" for w
    unfolding mmu_def views
    using walk_leaf [OF tree p(1) fol same_page_path [OF that(3)] same_page_index [OF that(3)] that(1)] that(2)
      same_page_canonical [OF that(3)] by (simp add: offset_mod)
  moreover have "mmu s' w = mmu s w" if "canonical v" "index 4 w \<noteq> 511" "w div PAGE_SIZE \<noteq> v div PAGE_SIZE" for w
  proof (cases "canonical w")
    case True
    have "path_to 0 w \<noteq> path_to 0 v" using path_same_page [OF True that(1)] that(3) by blast
    moreover have "q = []" if "path_to 0 w = ?p @ ?i # q" for q
      using arg_cong [OF that, of length] p(2) by simp
    ultimately have "\<nexists>q. path_to 0 w = ?p @ ?i # q"
      using path_to_Suc [of 0 v] by auto
    then show ?thesis
      unfolding mmu_def views using walk_store_avoids [OF tree p(1) fol index_lt that(2)] by simp
  qed (simp add: mmu_def)
  ultimately show ?thesis by blast
qed

lemma paging_ok_leaf:
  assumes ok: "paging_ok bi s" and v: "index 4 v \<noteq> 511" and t: "table_at s (path_to 1 v) = Some t"
    and s': "s' = s\<lparr>phys := st64 (phys s) (t + 8 * index 1 v) x\<rparr>"
  shows "paging_ok bi s'"
proof -
  note leaf = leaf_store [OF paging_okD(1) [OF ok] v t s']
  have p: "table_path (path_to 1 v)" using table_path_to [of 1 v] v by simp
  have al: "page_aligned t"
    using paging_okD(1) [OF ok] t follow_aligned by (auto simp: tables_ok_def recursive_def table_at_def)
  have "blank_table (phys s') (get_frame_start_addr g)" if "g \<in> frame_pool bi (frames s)" for g
  proof -
    have "t \<noteq> get_frame_start_addr g" using paging_okD(5) [OF ok that p] t by auto
    then show ?thesis
      using paging_okD(4) [OF ok that] entry_at_store [OF al frame_start_aligned index_lt]
      by (simp add: blank_table_def s')
  qed
  moreover have "frames s' = frames s" "tty s' = tty s" by (simp_all add: s')
  ultimately show ?thesis using leaf ok by (simp add: paging_ok_def)
qed

text \<open>The entry just written, and those of other pages.\<close>

lemma leaf_last_entry:
  assumes tables: "tables_ok s" and v: "canonical v" "index 4 v \<noteq> 511" and t: "table_at s (path_to 1 v) = Some t"
    and s': "s' = s\<lparr>phys := st64 (phys s) (t + 8 * index 1 v) x\<rparr>"
  shows "w div PAGE_SIZE = v div PAGE_SIZE \<Longrightarrow> last_entry s' w = x"
    "canonical w \<Longrightarrow> index 4 w \<noteq> 511 \<Longrightarrow> w div PAGE_SIZE \<noteq> v div PAGE_SIZE \<Longrightarrow> last_entry s' w = last_entry s w"
proof -
  have tree: "tree_ok (nx_enabled s) (phys s) (root s)" using tables by (simp add: tables_ok_def)
  have at: "table_at s' (path_to 1 w) = table_at s (path_to 1 w)" if "index 4 w \<noteq> 511" for w
    using leaf_store [OF tables v(2) t s'] table_path_to [of 1 w] that by simp
  have al: "page_aligned u" if "table_at s q = Some u" for u q
    using tree that follow_aligned by (auto simp: tree_ok_def table_at_def)
  show "last_entry s' w = x" if w: "w div PAGE_SIZE = v div PAGE_SIZE"
  proof -
    have "path_to 1 w = path_to 1 v" "index 1 w = index 1 v" using same_page_path [OF w] same_page_index [OF w, of 1] by simp_all
    then show ?thesis
      using at [OF v(2)] t entry_at_store [OF al [OF t] al [OF t] index_lt index_lt] by (simp add: last_entry_def s' del: One_nat_def)
  qed
  show "last_entry s' w = last_entry s w"
    if w: "canonical w" "index 4 w \<noteq> 511" "w div PAGE_SIZE \<noteq> v div PAGE_SIZE"
  proof (cases "table_at s (path_to 1 w)")
    case (Some u)
    have "\<not> (t = u \<and> index 1 v = index 1 w)"
    proof
      assume a: "t = u \<and> index 1 v = index 1 w"
      have "path_to 1 v = path_to 1 w"
        using tree_ok_inj [OF tree table_path_to [of 1 v] table_path_to [of 1 w]] v(2) w(2) t Some a by (simp add: table_at_def)
      then have "path_to 0 w = path_to 0 v" using path_to_Suc [of 0 w] path_to_Suc [of 0 v] a by simp
      then show False using path_same_page [OF w(1) v(1)] w(3) by blast
    qed
    then have "entry_at (phys s') u (index 1 w) = entry_at (phys s) u (index 1 w)"
      using entry_at_store [OF al [OF t] al [OF Some] index_lt index_lt] by (auto simp: s')
    then show ?thesis using at [OF w(2)] Some by (simp add: last_entry_def del: One_nat_def)
  qed (simp add: last_entry_def at [OF w(2)] del: One_nat_def)
qed

lemma leaf_grows:
  assumes tables: "tables_ok s" and v: "index 4 v \<noteq> 511" and t: "table_at s (path_to 1 v) = Some t"
    and s': "s' = s\<lparr>phys := st64 (phys s) (t + 8 * index 1 v) x\<rparr>"
  shows "grows bi s s'"
proof -
  have tree: "tree_ok (nx_enabled s) (phys s) (root s)" using tables by (simp add: tables_ok_def)
  have p: "table_path (path_to 1 v)" using table_path_to [of 1 v] v by simp
  have al: "page_aligned t" using tree t follow_aligned by (auto simp: tree_ok_def table_at_def)
  have at: "table_at s' q = table_at s q" if "table_path q" for q
    using leaf_store [OF tables v t s'] that by blast
  have others: "entry_at (phys s') u j = entry_at (phys s) u j" if "page_aligned u" "j < 512" "u \<noteq> t" for u j
    using entry_at_store [OF al that(1) index_lt that(2)] that(3) by (simp add: s')
  have ways: "way_clear s' w" if w: "index 4 w \<noteq> 511" "way_clear s w" for w
    unfolding way_clear_iff
  proof (intro allI impI)
    fix p' j q' u
    assume a: "path_to 1 w = p' @ j # q'" "table_at s' p' = Some u" "bit (entry_at (phys s') u j) 0"
    note pre = path_1_prefix [OF a(1) w(1)]
    have u: "table_at s p' = Some u" using a(2) at [OF pre(1)] by simp
    have "u \<noteq> t"
    proof
      assume "u = t"
      then have "p' = path_to 1 v" using tree_ok_inj [OF tree pre(1) p] u t by (simp add: table_at_def)
      then show False using pre(2) by simp
    qed
    moreover have "page_aligned u" using tree u follow_aligned by (auto simp: tree_ok_def table_at_def)
    ultimately have "entry_at (phys s') u j = entry_at (phys s) u j" using others pre(3) by blast
    moreover have "nx_enabled s' = nx_enabled s" by (simp add: s')
    ultimately show "entry_ok (nx_enabled s') (entry_at (phys s') u j) \<and> \<not> is_huge (entry_at (phys s') u j)"
      using way_clearD [OF w(2) a(1) u] a(3) by simp
  qed
  have "t \<in> tables_of s" using p t by (auto simp: tables_of_def)
  moreover have "tables_of s' = tables_of s" using at by (auto simp: tables_of_def)
  moreover have "frames s' = frames s" "cr3 s' = cr3 s" "msr s' = msr s" by (simp_all add: s')
  ultimately show ?thesis
    using at others ways by (auto simp: grows_def pool_addrs_def keeps_tables_def keeps_others_def keeps_ways_def)
qed

section \<open>Mapping, translating and unmapping\<close>

definition flags_ok :: "machine \<Rightarrow> u64 \<Rightarrow> bool" where
  "flags_ok s flags \<longleftrightarrow> flags AND physical_addr_mask = 0 \<and> (nx_enabled s \<or> \<not> bit flags 63)"

lemma flags_present: "flags_ok s flags \<Longrightarrow> (present_bit OR flags) AND physical_addr_mask = 0"
proof -
  assume "flags_ok s flags"
  then have "\<not> bit (flags AND physical_addr_mask) n" for n by (simp add: flags_ok_def)
  then show ?thesis
    by (intro bit_eqI) (auto simp: bit_and_iff bit_or_iff bit_phys_mask present_bit_def bit_1_iff)
qed

lemma entry_ok_flags: "flags_ok s flags \<Longrightarrow> entry_ok (nx_enabled s) (entry_for f (present_bit OR flags))"
  by (auto simp: entry_for_facts flags_ok_def present_bit_def bit_or_iff bit_1_iff)

lemma same_translation_trans: "same_translation s s' \<Longrightarrow> same_translation s' s'' \<Longrightarrow> same_translation s s''"
  using keeps_present_trans [of "phys s" "phys s'" "phys s''"] by (simp add: same_translation_def)

lemma mmu_keeps:
  assumes "keeps_present (phys s) (phys s')" "root s' = root s" "nx_enabled s' = nx_enabled s"
  shows "mmu s \<subseteq>\<^sub>m mmu s'"
  using walk_keeps [OF assms(1)] assms(2,3) by (auto simp: map_le_def mmu_def root_def)

lemma table_at_root [simp]: "table_at s [] = Some (root s)"
  by (simp add: table_at_def)

text \<open>The three descents of \<open>map_page_to_frame\<close>.\<close>

lemma reach_last_table:
  assumes ok: "paging_ok bi s" and v: "index 4 v \<noteq> 511" and way: "way_clear s v"
    and pool: "k + 3 \<le> card (frame_pool bi (frames s))"
  shows "\<exists>s1 s2 s3 t.
    get_next_page_table_or_create bi p4_table (get_p4_index (v div PAGE_SIZE)) s = ret (vtable [index 4 v], s1) \<and>
    get_next_page_table_or_create bi (vtable [index 4 v]) (get_p3_index (v div PAGE_SIZE)) s1 =
      ret (vtable [index 4 v, index 3 v], s2) \<and>
    get_next_page_table_or_create bi (vtable [index 4 v, index 3 v]) (get_p2_index (v div PAGE_SIZE)) s2 =
      ret (vtable (path_to 1 v), s3) \<and>
    paging_ok bi s3 \<and> table_at s3 (path_to 1 v) = Some t \<and> nx_enabled s3 = nx_enabled s \<and> same_translation s s3 \<and>
    k \<le> card (frame_pool bi (frames s3)) \<and> frame_pool bi (frames s3) \<subseteq> frame_pool bi (frames s) \<and>
    paging_ok bi s1 \<and> paging_ok bi s2 \<and> grows bi s s1 \<and> grows bi s1 s2 \<and> grows bi s2 s3"
proof -
  have idx: "\<forall>i \<in> set [index 3 v, index 2 v]. i < 512" by simp
  have p: "table_path ([] @ [index 4 v])" "table_path ([index 4 v] @ [index 3 v])"
    "table_path ([index 4 v, index 3 v] @ [index 2 v])"
    using v by (simp_all add: table_path_def)
  have w0: "clear_way (nx_enabled s) (phys s) (root s) [index 4 v, index 3 v, index 2 v]"
    using way unfolding way_clear_def path_to_1 .
  obtain s1 u1 where s1: "get_next_page_table_or_create bi (vtable []) (get_p4_index (v div PAGE_SIZE)) s =
        ret (vtable [index 4 v], s1)" "paging_ok bi s1" "table_at s1 [index 4 v] = Some u1"
      "nx_enabled s1 = nx_enabled s" "same_translation s s1"
      "clear_way (nx_enabled s1) (phys s1) u1 [index 3 v, index 2 v]" "k + 2 \<le> card (frame_pool bi (frames s1))" "frame_pool bi (frames s1) \<subseteq> frame_pool bi (frames s)" "grows bi s s1"
    using get_next_step [of bi s "[]" "get_p4_index (v div PAGE_SIZE)" "root s" "[index 3 v, index 2 v]" "k + 2"]
      ok p(1) w0 idx pool by (auto simp: page_indices)
  obtain s2 u2 where s2: "get_next_page_table_or_create bi (vtable [index 4 v]) (get_p3_index (v div PAGE_SIZE)) s1 =
        ret (vtable [index 4 v, index 3 v], s2)" "paging_ok bi s2" "table_at s2 [index 4 v, index 3 v] = Some u2"
      "nx_enabled s2 = nx_enabled s1" "same_translation s1 s2"
      "clear_way (nx_enabled s2) (phys s2) u2 [index 2 v]" "k + 1 \<le> card (frame_pool bi (frames s2))" "frame_pool bi (frames s2) \<subseteq> frame_pool bi (frames s1)" "grows bi s1 s2"
    using get_next_step [of bi s1 "[index 4 v]" "get_p3_index (v div PAGE_SIZE)" u1 "[index 2 v]" "k + 1"]
      s1(2,3,6,7) p(2) by (auto simp: page_indices)
  obtain s3 u3 where s3: "get_next_page_table_or_create bi (vtable [index 4 v, index 3 v]) (get_p2_index (v div PAGE_SIZE)) s2 =
        ret (vtable [index 4 v, index 3 v, index 2 v], s3)" "paging_ok bi s3"
      "table_at s3 [index 4 v, index 3 v, index 2 v] = Some u3"
      "nx_enabled s3 = nx_enabled s2" "same_translation s2 s3" "k \<le> card (frame_pool bi (frames s3))"
      "frame_pool bi (frames s3) \<subseteq> frame_pool bi (frames s2)" "grows bi s2 s3"
    using get_next_step [of bi s2 "[index 4 v, index 3 v]" "get_p2_index (v div PAGE_SIZE)" u2 "[]" k]
      s2(2,3,6,7) p(3) by (auto simp: page_indices)
  have nx: "nx_enabled s3 = nx_enabled s" using s1(4) s2(4) s3(4) by simp
  have tr: "same_translation s s3" using s1(5) s2(5) s3(5) same_translation_trans by blast
  have sub: "frame_pool bi (frames s3) \<subseteq> frame_pool bi (frames s)" using s1(8) s2(8) s3(7) by blast
  show ?thesis
    unfolding path_to_1 p4_table_top
    by (intro exI conjI) (rule s1(1), rule s2(1), rule s3(1), rule s3(2), rule s3(3), rule nx, rule tr, rule s3(6), rule sub,
      rule s1(2), rule s2(2), rule s1(9), rule s2(9), rule s3(8))
qed

lemma map_page_to_frame_ok:
  assumes ok: "paging_ok bi s" and v: "canonical v" "index 4 v \<noteq> 511" and way: "way_clear s v"
    and pool: "k + 3 \<le> card (frame_pool bi (frames s))" and f: "unat f < 2 ^ 40" "flags_ok s flags"
  shows "\<exists>s'. map_page_to_frame bi (v div PAGE_SIZE) f flags s = ret s' \<and> paging_ok bi s' \<and>
    (\<forall>w. w div PAGE_SIZE = v div PAGE_SIZE \<longrightarrow> mmu s' w = Some (get_frame_start_addr f + w mod PAGE_SIZE)) \<and>
    (\<forall>w. index 4 w \<noteq> 511 \<longrightarrow> w div PAGE_SIZE \<noteq> v div PAGE_SIZE \<longrightarrow> mmu s' w = mmu s w) \<and>
    k \<le> card (frame_pool bi (frames s')) \<and> frame_pool bi (frames s') \<subseteq> frame_pool bi (frames s) \<and>
    nx_enabled s' = nx_enabled s \<and> (\<exists>t. table_at s' (path_to 1 v) = Some t) \<and> grows bi s s' \<and>
    (\<forall>w. w div PAGE_SIZE = v div PAGE_SIZE \<longrightarrow> last_entry s' w = entry_for f (present_bit OR flags)) \<and>
    (\<forall>w. canonical w \<longrightarrow> index 4 w \<noteq> 511 \<longrightarrow> w div PAGE_SIZE \<noteq> v div PAGE_SIZE \<longrightarrow> last_entry s' w = last_entry s w) \<and>
    (\<not> bit (last_entry s v) 0 \<longrightarrow> mmu s \<subseteq>\<^sub>m mmu s')"
proof -
  obtain s1 s2 s3 t where go:
    "get_next_page_table_or_create bi p4_table (get_p4_index (v div PAGE_SIZE)) s = ret (vtable [index 4 v], s1)"
    "get_next_page_table_or_create bi (vtable [index 4 v]) (get_p3_index (v div PAGE_SIZE)) s1 =
      ret (vtable [index 4 v, index 3 v], s2)"
    "get_next_page_table_or_create bi (vtable [index 4 v, index 3 v]) (get_p2_index (v div PAGE_SIZE)) s2 =
      ret (vtable (path_to 1 v), s3)"
    "paging_ok bi s3" "table_at s3 (path_to 1 v) = Some t" "nx_enabled s3 = nx_enabled s" "same_translation s s3"
    "k \<le> card (frame_pool bi (frames s3))" "frame_pool bi (frames s3) \<subseteq> frame_pool bi (frames s)"
    "paging_ok bi s1" "paging_ok bi s2" "grows bi s s1" "grows bi s1 s2" "grows bi s2 s3"
    using reach_last_table [OF ok v(2) way pool] by (elim exE conjE) (rule that, assumption+)
  define s' where "s' = s3\<lparr>phys := st64 (phys s3) (t + 8 * index 1 v) (entry_for f (present_bit OR flags))\<rparr>"
  have fl: "flags_ok s3 flags" using f(2) go(6) by (simp add: flags_ok_def)
  have p: "table_path (path_to 1 v)" using table_path_to [of 1 v] v(2) by simp
  have "map_page_to_frame bi (v div PAGE_SIZE) f flags s =
      set_page_table_entry (entry_ptr (vtable (path_to 1 v)) (get_p1_index (v div PAGE_SIZE))) f (present_bit OR flags) s3"
    unfolding map_page_to_frame_def go(1) by (simp add: go(2,3))
  also have "\<dots> = ret s'"
    unfolding entry_ptrs s'_def by (rule set_entry_table [OF paging_okD(1) [OF go(4)] p go(5) index_lt])
  finally have run: "map_page_to_frame bi (v div PAGE_SIZE) f flags s = ret s'" .
  note leaf = leaf_store [OF paging_okD(1) [OF go(4)] v(2) go(5) s'_def]
  have addr: "entry_addr (entry_for f (present_bit OR flags)) = get_frame_start_addr f"
    by (rule entry_addr_for [OF f(1) flags_present [OF fl]])
  have "paging_ok bi s'" by (rule paging_ok_leaf [OF go(4) v(2) go(5) s'_def])
  moreover have "mmu s' w = Some (get_frame_start_addr f + w mod PAGE_SIZE)" if "w div PAGE_SIZE = v div PAGE_SIZE" for w
    using leaf entry_ok_flags [OF fl, of f] v(1) that addr by simp
  moreover have "mmu s' w = mmu s w" if "index 4 w \<noteq> 511" "w div PAGE_SIZE \<noteq> v div PAGE_SIZE" for w
    using leaf v(1) that go(7) by (simp add: same_translation_def)
  moreover have "frames s' = frames s3" "nx_enabled s' = nx_enabled s" using go(6) by (simp_all add: s'_def)
  moreover have "\<exists>t. table_at s' (path_to 1 v) = Some t" using leaf p go(5) by simp
  moreover have "grows bi s s'"
    using grows_trans [OF grows_trans [OF go(12) grows_trans [OF go(13,14)]] leaf_grows [OF paging_okD(1) [OF go(4)] v(2) go(5) s'_def]] .
  moreover have "last_entry s' w = entry_for f (present_bit OR flags)" if "w div PAGE_SIZE = v div PAGE_SIZE" for w
    by (rule leaf_last_entry(1) [OF paging_okD(1) [OF go(4)] v go(5) s'_def that])
  moreover have "last_entry s' w = last_entry s w"
    if "canonical w" "index 4 w \<noteq> 511" "w div PAGE_SIZE \<noteq> v div PAGE_SIZE" for w
    using leaf_last_entry(2) [OF paging_okD(1) [OF go(4)] v go(5) s'_def that] go(7) that by (simp add: same_translation_def)
  moreover have "mmu s \<subseteq>\<^sub>m mmu s'" if unused: "\<not> bit (last_entry s v) 0"
  proof (rule mmu_keeps)
    have "last_entry s3 v = entry_at (phys s3) t (index 1 v)" by (simp only: last_entry_def go(5) option.case)
    then have "\<not> bit (entry_at (phys s3) t (index 1 v)) 0"
      using unused go(7) v(2) by (simp add: same_translation_def)
    moreover have "page_aligned t"
      using paging_okD(1) [OF go(4)] go(5) follow_aligned by (auto simp: tables_ok_def recursive_def table_at_def)
    ultimately show "keeps_present (phys s) (phys s')"
      using go(7) keeps_present_store [OF _ index_lt] keeps_present_trans by (fastforce simp: s'_def same_translation_def)
    show "root s' = root s" using grows_trans [OF go(12) grows_trans [OF go(13,14)]] by (simp add: grows_def s'_def root_def)
  qed (simp add: s'_def go(6))
  ultimately show ?thesis using run go(8,9) by auto
qed

text \<open>The code's test for a canonical address accepts every address the processor does.\<close>

lemma canonical_code:
  assumes "canonical v"
  shows "v < 0x0000800000000000 \<or> v \<ge> 0xffff800000000000"
proof -
  have b: "bit v n = bit v 47" if "47 \<le> n" "n < 64" for n
    using assms that unfolding canonical_def by (cases "n = 47") auto
  have u: "unat (drop_bit 47 v) = unat v div 2 ^ 47"
    by (simp add: drop_bit_eq_div unat_div)
  show ?thesis
  proof (cases "bit v 47")
    case True
    then have "drop_bit 47 v = mask 17"
    proof (intro bit_eqI)
      fix n
      show "bit (drop_bit 47 v) n \<longleftrightarrow> bit (mask 17 :: u64) n"
        using True b [of "47 + n"] bit64_len [of v "47 + n"] by (auto simp: bit_drop_bit_eq bit_mask_iff)
    qed
    then have "unat v div 2 ^ 47 = 2 ^ 17 - 1" using u by (simp add: mask_eq_exp_minus_1)
    then have "(2 ^ 17 - 1) * 2 ^ 47 \<le> unat v" by (metis div_times_less_eq_dividend)
    then show ?thesis by (simp add: word_le_nat_alt)
  next
    case False
    then have "drop_bit 47 v = 0"
    proof (intro bit_eqI)
      fix n
      show "bit (drop_bit 47 v) n \<longleftrightarrow> bit (0 :: u64) n"
        using False b [of "47 + n"] bit64_len [of v "47 + n"] by (auto simp: bit_drop_bit_eq)
    qed
    then have "unat v div 2 ^ 47 = 0" using u by simp
    then have "unat v < 2 ^ 47" by simp
    then show ?thesis by (simp add: word_less_nat_alt)
  qed
qed

lemma page_for_canonical: "canonical v \<Longrightarrow> get_page_for_vaddr v = ret (v div PAGE_SIZE)"
  using canonical_code [of v] by (auto simp: get_page_for_vaddr_def assert_c_def)

text \<open>The tables on the way to the last one, and what the descents return for them.\<close>

lemma table_at_snocD:
  assumes "table_at s (p @ [i]) = Some u"
  shows "\<exists>t. table_at s p = Some t \<and> entry_ok (nx_enabled s) (entry_at (phys s) t i) \<and>
    \<not> is_huge (entry_at (phys s) t i) \<and> u = entry_addr (entry_at (phys s) t i)"
  using assms by (auto simp: table_at_def follow_snoc split: option.splits if_splits)

lemma descend_existing:
  assumes "tables_ok s" "table_path (p @ [i])" "table_at s (p @ [i]) = Some u"
  shows "descened_page_table (vtable p) i s = ret (vtable (p @ [i]))"
proof -
  obtain t where "table_at s p = Some t" "entry_ok (nx_enabled s) (entry_at (phys s) t i)"
    using table_at_snocD [OF assms(3)] by blast
  then show ?thesis
    using descend_table [OF assms(1) table_path_prefix [OF assms(2)] _ table_path_snoc [OF assms(2)], of t]
    by (simp add: entry_ok_def)
qed

lemma last_table_way:
  assumes tables: "tables_ok s" and v: "index 4 v \<noteq> 511" and t: "table_at s (path_to 1 v) = Some t"
  shows "descened_page_table p4_table (ucast (get_p4_index (v div PAGE_SIZE))) s = ret (vtable [index 4 v])"
    "descened_page_table (vtable [index 4 v]) (ucast (get_p3_index (v div PAGE_SIZE))) s = ret (vtable [index 4 v, index 3 v])"
    "descened_page_table (vtable [index 4 v, index 3 v]) (ucast (get_p2_index (v div PAGE_SIZE))) s = ret (vtable (path_to 1 v))"
    "\<exists>x. vload s (entry_ptr (vtable [index 4 v]) (get_p3_index (v div PAGE_SIZE))) = ret x"
    "\<exists>x. vload s (entry_ptr (vtable [index 4 v, index 3 v]) (get_p2_index (v div PAGE_SIZE))) = ret x \<and> \<not> is_huge x"
proof -
  have p: "table_path ([] @ [index 4 v])" "table_path ([index 4 v] @ [index 3 v])"
    "table_path ([index 4 v, index 3 v] @ [index 2 v])"
    using v by (simp_all add: table_path_def)
  have t1: "table_at s ([index 4 v, index 3 v] @ [index 2 v]) = Some t"
    using t unfolding path_to_1 by simp
  obtain t2 where t2: "table_at s ([index 4 v] @ [index 3 v]) = Some t2" "\<not> is_huge (entry_at (phys s) t2 (index 2 v))"
    using table_at_snocD [OF t1] by auto
  obtain t3 where t3: "table_at s ([] @ [index 4 v]) = Some t3"
    using table_at_snocD [OF t2(1)] by auto
  show "descened_page_table p4_table (ucast (get_p4_index (v div PAGE_SIZE))) s = ret (vtable [index 4 v])"
    using descend_existing [OF tables p(1) t3] by (simp add: page_indices)
  show "descened_page_table (vtable [index 4 v]) (ucast (get_p3_index (v div PAGE_SIZE))) s = ret (vtable [index 4 v, index 3 v])"
    using descend_existing [OF tables p(2) t2(1)] by (simp add: page_indices)
  show "descened_page_table (vtable [index 4 v, index 3 v]) (ucast (get_p2_index (v div PAGE_SIZE))) s = ret (vtable (path_to 1 v))"
    unfolding path_to_1 using descend_existing [OF tables p(3) t1] by (simp add: page_indices)
  show "\<exists>x. vload s (entry_ptr (vtable [index 4 v]) (get_p3_index (v div PAGE_SIZE))) = ret x"
    unfolding entry_ptrs using vload_table [OF tables, of "[index 4 v]" t3 "index 3 v"] p(1) t3 by simp
  show "\<exists>x. vload s (entry_ptr (vtable [index 4 v, index 3 v]) (get_p2_index (v div PAGE_SIZE))) = ret x \<and> \<not> is_huge x"
    unfolding entry_ptrs using vload_table [OF tables, of "[index 4 v, index 3 v]" t2 "index 2 v"] p(2) t2 by simp
qed

lemma frame_of_entry: "get_frame_start_addr (get_frame_for_addr (e AND physical_addr_mask)) = entry_addr e"
  by (rule bit_eqI)
    (auto simp: frame_start_push get_frame_for_addr_def page_drop entry_addr_def bit_push_bit_iff bit_drop_bit_eq
      bit_and_iff bit_phys_mask)

text \<open>\<open>translate\<close> on an address whose tables exist: the last entry decides.\<close>

lemma translate_value:
  assumes tables: "tables_ok s" and v: "canonical v" "index 4 v \<noteq> 511" and t: "table_at s (path_to 1 v) = Some t"
  shows "translate v g s = ret ((if bit (entry_at (phys s) t (index 1 v)) 0 then entry_addr (entry_at (phys s) t (index 1 v))
      else get_frame_start_addr g) + v mod PAGE_SIZE)"
proof -
  let ?e = "entry_at (phys s) t (index 1 v)"
  have p: "table_path (path_to 1 v)" using table_path_to [of 1 v] v(2) by simp
  note way = last_table_way [OF tables v(2) t]
  obtain x3 x2 where x: "vload s (entry_ptr (vtable [index 4 v]) (get_p3_index (v div PAGE_SIZE))) = ret x3"
    "vload s (entry_ptr (vtable [index 4 v, index 3 v]) (get_p2_index (v div PAGE_SIZE))) = ret x2" "\<not> is_huge x2"
    using way(4,5) by blast
  have leaf: "vload s (vtable (path_to 1 v) + 8 * index 1 v) = ret ?e"
    by (rule vload_table [OF tables p t index_lt])
  have "translate_page (v div PAGE_SIZE) g s =
      get_physical_frame (entry_ptr (vtable (path_to 1 v)) (get_p1_index (v div PAGE_SIZE))) g s"
    unfolding translate_page_def way(1) using x by (simp add: way(2,3) and_huge [simplified])
  then show ?thesis
    using frame_of_entry [of ?e] unfolding entry_ptrs
    by (simp add: translate_def page_for_canonical [OF v(1)] get_physical_frame_def leaf and_bit0(2)
        del: One_nat_def flip: get_frame_start_addr_def)
qed

lemma mmu_last_table:
  assumes "canonical v" "table_at s (path_to 1 v) = Some t"
  shows "mmu s v = (if entry_ok (nx_enabled s) (entry_at (phys s) t (index 1 v))
      then Some (entry_addr (entry_at (phys s) t (index 1 v)) + v mod PAGE_SIZE) else None)"
proof -
  have "mmu s v = walk (nx_enabled s) 1 (phys s) t v"
    using assms walk_follow [of 1 "nx_enabled s" "phys s" "root s" v t] by (simp add: mmu_def table_at_def)
  then show ?thesis by (simp add: Let_def offset_mod)
qed

text \<open>With all tables present, mapping is one store; no frame is needed.\<close>

lemma get_next_existing:
  assumes "descened_page_table tbl (ucast idx) s = ret u" "u \<noteq> 0"
  shows "get_next_page_table_or_create bi tbl idx s = ret (u, s)"
  using assms by (simp add: get_next_page_table_or_create_def)

lemma map_existing:
  assumes tables: "tables_ok s" and v: "index 4 v \<noteq> 511" and t: "table_at s (path_to 1 v) = Some t"
  shows "map_page_to_frame bi (v div PAGE_SIZE) f flags s =
    ret (s\<lparr>phys := st64 (phys s) (t + 8 * index 1 v) (entry_for f (present_bit OR flags))\<rparr>)"
proof -
  note way = last_table_way [OF tables v t]
  have nz: "vtable [index 4 v] \<noteq> 0" "vtable [index 4 v, index 3 v] \<noteq> 0" "vtable (path_to 1 v) \<noteq> 0"
    by (simp_all add: vtable_nonzero)
  have p: "table_path (path_to 1 v)" using table_path_to [of 1 v] v by simp
  have "map_page_to_frame bi (v div PAGE_SIZE) f flags s =
      set_page_table_entry (entry_ptr (vtable (path_to 1 v)) (get_p1_index (v div PAGE_SIZE))) f (present_bit OR flags) s"
    unfolding map_page_to_frame_def get_next_existing [OF way(1) nz(1)]
    by (simp add: get_next_existing [OF way(2) nz(2)] get_next_existing [OF way(3) nz(3)])
  then show ?thesis
    unfolding entry_ptrs by (simp add: set_entry_table [OF tables p t index_lt] del: One_nat_def)
qed

lemma paging_ok_alloc:
  assumes "paging_ok bi s" "frame_pool bi al \<subseteq> frame_pool bi (frames s)" "allocator_ready bi (al, t)"
  shows "paging_ok bi (s\<lparr>frames := al, tty := t\<rparr>)"
  using assms by (auto simp: paging_ok_def)

lemma way_clear_alloc [simp]: "way_clear (s\<lparr>frames := al, tty := t\<rparr>) = way_clear s"
  "flags_ok (s\<lparr>frames := al, tty := t\<rparr>) = flags_ok s"
  by (simp_all add: way_clear_def flags_ok_def fun_eq_iff)

lemma map_page_ok:
  assumes ok: "paging_ok bi s" and v: "canonical v" "index 4 v \<noteq> 511" and way: "way_clear s v"
    and pool: "k + 4 \<le> card (frame_pool bi (frames s))" and fl: "flags_ok s flags"
  shows "\<exists>f s'. f \<in> frame_pool bi (frames s) \<and> map_page bi (v div PAGE_SIZE) flags s = ret s' \<and> paging_ok bi s' \<and>
    (\<forall>w. w div PAGE_SIZE = v div PAGE_SIZE \<longrightarrow> mmu s' w = Some (get_frame_start_addr f + w mod PAGE_SIZE)) \<and>
    (\<forall>w. index 4 w \<noteq> 511 \<longrightarrow> w div PAGE_SIZE \<noteq> v div PAGE_SIZE \<longrightarrow> mmu s' w = mmu s w) \<and>
    k \<le> card (frame_pool bi (frames s')) \<and> frame_pool bi (frames s') \<subseteq> frame_pool bi (frames s) - {f} \<and>
    nx_enabled s' = nx_enabled s \<and> (\<exists>t. table_at s' (path_to 1 v) = Some t)"
proof -
  obtain f al t where f: "alloc_frame bi s = ret (0, f, s\<lparr>frames := al, tty := t\<rparr>)" "f \<in> frame_pool bi (frames s)"
    "frame_pool bi al = frame_pool bi (frames s) - {f}" "allocator_ready bi (al, t)"
    using alloc_frame_takes [OF ok] pool by fastforce
  let ?s1 = "s\<lparr>frames := al, tty := t\<rparr>"
  have ok1: "paging_ok bi ?s1" using paging_ok_alloc [OF ok _ f(4)] f(3) by blast
  have "k + 3 \<le> card (frame_pool bi (frames ?s1))" using f(2,3) pool by simp
  then obtain s' where "map_page_to_frame bi (v div PAGE_SIZE) f flags ?s1 = ret s'" "paging_ok bi s'"
    "\<forall>w. w div PAGE_SIZE = v div PAGE_SIZE \<longrightarrow> mmu s' w = Some (get_frame_start_addr f + w mod PAGE_SIZE)"
    "\<forall>w. index 4 w \<noteq> 511 \<longrightarrow> w div PAGE_SIZE \<noteq> v div PAGE_SIZE \<longrightarrow> mmu s' w = mmu ?s1 w"
    "k \<le> card (frame_pool bi (frames s'))" "frame_pool bi (frames s') \<subseteq> frame_pool bi (frames ?s1)"
    "nx_enabled s' = nx_enabled ?s1" "\<exists>t. table_at s' (path_to 1 v) = Some t"
    using map_page_to_frame_ok [OF ok1 v, of k f flags] way fl paging_okD(3) [OF ok f(2)] by auto
  then show ?thesis using f(1-3) by (intro exI [of _ f] exI [of _ s']) (simp add: map_page_def)
qed

text \<open>
  Out of frames. No operation looks at the failure: a page whose tables exist is mapped to frame
  0, and where a table is missing the descent goes on from a null pointer.
\<close>

definition exhausted :: "mem \<Rightarrow> machine \<Rightarrow> bool" where
  "exhausted bi s \<longleftrightarrow> allocator_ready bi (frames s, tty s) \<and> frame_pool bi (frames s) = {}"

lemma alloc_exhausted:
  assumes "exhausted bi s"
  shows "\<exists>al t. alloc_frame bi s = ret (-1, 0, s\<lparr>frames := al, tty := t\<rparr>) \<and> exhausted bi (s\<lparr>frames := al, tty := t\<rparr>)"
proof -
  have ready: "allocator_ready bi (frames s, tty s)" "frame_pool bi (frames s) = {}" using assms by (simp_all add: exhausted_def)
  obtain al t where a: "allocate_frame bi (frames s, tty s) = ret (-1, 0, al, t)" "allocator_ready bi (al, t)"
    using allocate_frame_least [OF ready(1)] ready(2) by fastforce
  moreover have "frame_pool bi al = {}"
    using allocate_frame_ready [OF ready(1)] a(1) ready(2) by (auto simp: ret_def split: if_splits)
  ultimately show ?thesis by (auto simp: alloc_frame_def exhausted_def)
qed

lemma vload_frames [simp]:
  "vload (s\<lparr>frames := al, tty := t\<rparr>) v = vload s v"
  "descened_page_table tbl i (s\<lparr>frames := al, tty := t\<rparr>) = descened_page_table tbl i s"
proof -
  show v: "vload (s\<lparr>frames := al, tty := t\<rparr>) v = vload s v" for v
    by (simp add: vload_def split: option.split)
  show "descened_page_table tbl i (s\<lparr>frames := al, tty := t\<rparr>) = descened_page_table tbl i s"
    by (simp add: descened_page_table_def v)
qed

lemma get_next_exhausted:
  assumes "exhausted bi s" "descened_page_table tbl (ucast idx) s = ret 0"
  shows "\<exists>al t. get_next_page_table_or_create bi tbl idx s = ret (0, s\<lparr>frames := al, tty := t\<rparr>)"
  using alloc_exhausted [OF assms(1)] assms(2) by (fastforce simp: get_next_page_table_or_create_def)

definition null_unmapped :: "machine \<Rightarrow> bool" where
  "null_unmapped s \<longleftrightarrow> (\<forall>i < 512. mmu s (8 * i) = None)"

lemma get_next_null:
  assumes "null_unmapped s" "ucast idx < (512 :: u64)"
  shows "get_next_page_table_or_create bi 0 idx s = fail (Page_fault (8 * ucast idx))"
proof -
  have "descened_page_table 0 (ucast idx) s = fail (Page_fault (8 * ucast idx))"
    using assms by (simp add: descened_page_table_def vload_def null_unmapped_def linorder_not_le [symmetric])
  then show ?thesis by (simp add: get_next_page_table_or_create_def)
qed

lemma set_entry_null:
  assumes "null_unmapped s" "ucast idx < (512 :: u64)"
  shows "set_page_table_entry (entry_ptr 0 idx) f flags s = fail (Page_fault (8 * ucast idx))"
  using assms by (simp add: set_page_table_entry_def vstore_def null_unmapped_def entry_ptr_def physical_addr_mask_def)

text \<open>A present entry on a clear way leads to the next table, and a clear one to the null pointer.\<close>

lemma clear_step:
  assumes "tables_ok s" "way_clear s v" "index 4 v \<noteq> 511" "path_to 1 v = p @ i # q" "table_at s p = Some t"
  shows "if bit (entry_at (phys s) t i) 0 then \<exists>u. table_at s (p @ [i]) = Some u
    else descened_page_table (vtable p) i s = ret 0"
proof -
  note pre = path_1_prefix [OF assms(4,3)]
  show ?thesis
    using way_clearD [OF assms(2,4,5)] descend_table [OF assms(1) pre(1) assms(5) pre(3)] assms(5)
    by (auto simp: table_at_def follow_snoc)
qed

lemma map_page_to_frame_exhausted:
  assumes tables: "tables_ok s" and v: "index 4 v \<noteq> 511" "way_clear s v" and none: "table_at s (path_to 1 v) = None"
    and ex: "exhausted bi s" and null: "null_unmapped s"
  shows "\<exists>x < 4096. map_page_to_frame bi (v div PAGE_SIZE) f flags s = fail (Page_fault x)"
proof -
  let ?g = "\<lambda>tbl i. get_next_page_table_or_create bi tbl i"
  have small: "8 * index k v < 4096" for k
  proof -
    have "unat (8 * index k v) = 8 * unat (index k v)" using unat_index [of k v] by (simp add: unat_word_ariths)
    then show ?thesis using unat_index [of k v] by (simp add: word_less_nat_alt)
  qed
  have idx: "ucast (get_p3_index (v div PAGE_SIZE)) < (512 :: u64)" "ucast (get_p2_index (v div PAGE_SIZE)) < (512 :: u64)"
    "ucast (get_p1_index (v div PAGE_SIZE)) < (512 :: u64)"
    by (simp_all add: page_indices)
  have null': "null_unmapped (s\<lparr>frames := al, tty := t\<rparr>)" for al t using null by (simp add: null_unmapped_def)
  note null_next = get_next_null [OF null'] and null_set = set_entry_null [OF null']
  have p: "path_to 1 v = [] @ index 4 v # [index 3 v, index 2 v]" "path_to 1 v = [index 4 v] @ index 3 v # [index 2 v]"
    "path_to 1 v = [index 4 v, index 3 v] @ index 2 v # []" by (simp_all add: path_to_def)
  have tp: "table_path ([] @ [index 4 v])" "table_path ([index 4 v] @ [index 3 v])" using v(1) by (simp_all add: table_path_def)
  note step4 = clear_step [OF tables v(2,1) p(1) table_at_root]
  show ?thesis
  proof (cases "\<exists>u. table_at s [index 4 v] = Some u")
    case False
    then have "descened_page_table (vtable []) (ucast (get_p4_index (v div PAGE_SIZE))) s = ret 0"
      using step4 by (auto simp: page_indices split: if_splits)
    then obtain al t where g: "?g p4_table (get_p4_index (v div PAGE_SIZE)) s = ret (0, s\<lparr>frames := al, tty := t\<rparr>)"
      using get_next_exhausted [OF ex] by (fastforce simp del: vtable_Nil)
    have "map_page_to_frame bi (v div PAGE_SIZE) f flags s = fail (Page_fault (8 * index 3 v))"
      unfolding map_page_to_frame_def g by (simp add: null_next idx page_indices)
    then show ?thesis using small by blast
  next
    case True
    then obtain u3 where u3: "table_at s [index 4 v] = Some u3" by blast
    have g4: "?g p4_table (get_p4_index (v div PAGE_SIZE)) s = ret (vtable [index 4 v], s)"
      using descend_existing [OF tables tp(1)] u3 by (intro get_next_existing) (simp_all add: page_indices vtable_nonzero)
    note step3 = clear_step [OF tables v(2,1) p(2) u3]
    show ?thesis
    proof (cases "\<exists>u. table_at s [index 4 v, index 3 v] = Some u")
      case False
      then have "descened_page_table (vtable [index 4 v]) (ucast (get_p3_index (v div PAGE_SIZE))) s = ret 0"
        using step3 by (auto simp: page_indices split: if_splits)
      then obtain al t where g: "?g (vtable [index 4 v]) (get_p3_index (v div PAGE_SIZE)) s = ret (0, s\<lparr>frames := al, tty := t\<rparr>)"
        using get_next_exhausted [OF ex] by blast
      have "map_page_to_frame bi (v div PAGE_SIZE) f flags s = fail (Page_fault (8 * index 2 v))"
        unfolding map_page_to_frame_def g4 by (simp add: g null_next idx page_indices)
      then show ?thesis using small by blast
    next
      case True
      then obtain u2 where u2: "table_at s [index 4 v, index 3 v] = Some u2" by blast
      have g3: "?g (vtable [index 4 v]) (get_p3_index (v div PAGE_SIZE)) s = ret (vtable [index 4 v, index 3 v], s)"
        using descend_existing [OF tables tp(2)] u2 by (intro get_next_existing) (simp_all add: page_indices vtable_nonzero)
      have "descened_page_table (vtable [index 4 v, index 3 v]) (ucast (get_p2_index (v div PAGE_SIZE))) s = ret 0"
        using clear_step [OF tables v(2,1) p(3) u2] none unfolding path_to_1 by (auto simp: page_indices split: if_splits)
      then obtain al t where g: "?g (vtable [index 4 v, index 3 v]) (get_p2_index (v div PAGE_SIZE)) s = ret (0, s\<lparr>frames := al, tty := t\<rparr>)"
        using get_next_exhausted [OF ex] by blast
      have "map_page_to_frame bi (v div PAGE_SIZE) f flags s = fail (Page_fault (8 * index 1 v))"
        unfolding map_page_to_frame_def g4 by (simp add: g3 g null_set idx page_indices)
      then show ?thesis using small by blast
    qed
  qed
qed

lemma map_page_exhausted:
  assumes tables: "tables_ok s" and v: "canonical v" "index 4 v \<noteq> 511" and ex: "exhausted bi s" and fl: "flags_ok s flags"
  shows "table_at s (path_to 1 v) = Some t \<Longrightarrow> \<exists>s'. map_page bi (v div PAGE_SIZE) flags s = ret s' \<and> mmu s' v = Some (v mod PAGE_SIZE)"
    "table_at s (path_to 1 v) = None \<Longrightarrow> way_clear s v \<Longrightarrow> null_unmapped s \<Longrightarrow>
       \<exists>x < 4096. map_page bi (v div PAGE_SIZE) flags s = fail (Page_fault x)"
proof -
  obtain al u where al: "alloc_frame bi s = ret (-1, 0, s\<lparr>frames := al, tty := u\<rparr>)" "exhausted bi (s\<lparr>frames := al, tty := u\<rparr>)"
    using alloc_exhausted [OF ex] by blast
  let ?s1 = "s\<lparr>frames := al, tty := u\<rparr>"
  have run: "map_page bi (v div PAGE_SIZE) flags s = map_page_to_frame bi (v div PAGE_SIZE) 0 flags ?s1"
    by (simp add: map_page_def al(1))
  show "\<exists>s'. map_page bi (v div PAGE_SIZE) flags s = ret s' \<and> mmu s' v = Some (v mod PAGE_SIZE)" if t: "table_at s (path_to 1 v) = Some t"
  proof -
    let ?s' = "?s1\<lparr>phys := st64 (phys ?s1) (t + 8 * index 1 v) (entry_for 0 (present_bit OR flags))\<rparr>"
    have one: "tables_ok ?s1" "table_at ?s1 (path_to 1 v) = Some t" "flags_ok ?s1 flags"
      using tables t fl by simp_all
    have "map_page bi (v div PAGE_SIZE) flags s = ret ?s'" unfolding run by (rule map_existing [OF one(1) v(2) one(2)])
    moreover have "entry_addr (entry_for 0 (present_bit OR flags)) = 0"
      using entry_addr_for [of 0, OF _ flags_present [OF fl]] by (simp add: get_frame_start_addr_def)
    then have "mmu ?s' v = Some (v mod PAGE_SIZE)"
      using leaf_store [OF one(1) v(2) one(2) refl, of "entry_for 0 (present_bit OR flags)"] v(1)
        entry_ok_flags [OF one(3), of 0] by simp
    ultimately show ?thesis by blast
  qed
  show "\<exists>x < 4096. map_page bi (v div PAGE_SIZE) flags s = fail (Page_fault x)"
    if "table_at s (path_to 1 v) = None" "way_clear s v" "null_unmapped s"
    unfolding run using that tables v(2) al(2)
    by (intro map_page_to_frame_exhausted) (simp_all add: null_unmapped_def)
qed

text \<open>Unmapping clears the entry first and looks for the frame to free in it afterwards.\<close>

lemma unmap_page_ok:
  assumes tables: "tables_ok s" and v: "canonical v" "index 4 v \<noteq> 511" and t: "table_at s (path_to 1 v) = Some t"
  shows "\<exists>s'. unmap_page (v div PAGE_SIZE) g s = ret s' \<and> tables_ok s' \<and> frames s' = frames s \<and>
    (\<forall>w. w div PAGE_SIZE = v div PAGE_SIZE \<longrightarrow> mmu s' w = None) \<and>
    (\<forall>w. index 4 w \<noteq> 511 \<longrightarrow> w div PAGE_SIZE \<noteq> v div PAGE_SIZE \<longrightarrow> mmu s' w = mmu s w) \<and>
    s' = s\<lparr>phys := st64 (phys s) (t + 8 * index 1 v) 0, tlb := Map.empty\<rparr>"
proof -
  define s' where "s' = s\<lparr>phys := st64 (phys s) (t + 8 * index 1 v) 0\<rparr>"
  note way = last_table_way [OF tables v(2) t]
  note leaf = leaf_store [OF tables v(2) t s'_def]
  have p: "table_path (path_to 1 v)" using table_path_to [of 1 v] v(2) by simp
  have t': "tables_ok s'" "table_at s' (path_to 1 v) = Some t" using leaf p t by simp_all
  have al: "page_aligned t"
    using tables t follow_aligned by (auto simp: tables_ok_def recursive_def table_at_def)
  have e0: "entry_at (phys s') t (index 1 v) = 0"
    using entry_at_store [OF al al index_lt index_lt] by (simp add: s'_def)
  have clear: "set_unused (vtable (path_to 1 v) + 8 * index 1 v) s = ret s'"
    unfolding set_unused_def s'_def by (rule vstore_table [OF tables p t index_lt])
  have "vload s' (vtable (path_to 1 v) + 8 * index 1 v) = ret 0"
    using vload_table [OF t'(1) p t'(2) index_lt] e0 by simp
  then have "get_physical_frame (vtable (path_to 1 v) + 8 * index 1 v) g s' = ret (-1, g)"
    by (simp add: get_physical_frame_def)
  then have "unmap_page (v div PAGE_SIZE) g s = ret (s'\<lparr>tlb := Map.empty\<rparr>)"
    unfolding unmap_page_def way(1) entry_ptrs
    by (simp add: way(2,3) clear free_frame_def deallocate_frame_def flush_tlb_drops del: One_nat_def)
  moreover have "mmu s' w = None" if "w div PAGE_SIZE = v div PAGE_SIZE" for w
    using mmu_last_table [of w s' t] same_page_canonical [OF that] v(1) same_page_path [OF that, of 1] t'(2)
      same_page_index [OF that, of 1] e0 by simp
  moreover have "frames s' = frames s" by (simp add: s'_def)
  ultimately show ?thesis using leaf t'(1) v(1) by (intro exI [of _ "s'\<lparr>tlb := Map.empty\<rparr>"]) (simp add: s'_def)
qed

text \<open>A new table keeps what its frame held: an old word that reads as an entry maps a page.\<close>

lemma stale_entry:
  assumes tables: "tables_ok s" and w: "canonical w" "index 4 w \<noteq> 511" and t: "table_at s (path_to 2 w) = Some t"
    and free: "\<not> bit (entry_at (phys s) t (index 2 w)) 0"
    and f: "alloc_frame bi s = ret (0, f, s\<lparr>frames := al, tty := t'\<rparr>)" "unat f < 2 ^ 40" "get_frame_start_addr f \<noteq> t"
    and stale: "entry_ok (nx_enabled s) (entry_at (phys s) (get_frame_start_addr f) (index 1 w))"
  shows "\<exists>s'. get_next_page_table_or_create bi (vtable (path_to 2 w)) (get_p2_index (w div PAGE_SIZE)) s =
      ret (vtable (path_to 1 w), s') \<and>
    mmu s' w = Some (entry_addr (entry_at (phys s) (get_frame_start_addr f) (index 1 w)) + w mod PAGE_SIZE)"
proof -
  let ?p = "path_to 2 w" and ?i = "index 2 w" and ?F = "get_frame_start_addr f" and ?x = "entry_for f (present_bit OR writeable_bit)"
  define s1 where "s1 = s\<lparr>frames := al, tty := t'\<rparr>"
  define s2 where "s2 = s1\<lparr>phys := st64 (phys s) (t + 8 * ?i) ?x\<rparr>"
  define s' where "s' = s2\<lparr>tlb := Map.empty\<rparr>"
  have p: "table_path ?p" using table_path_to [of 2 w] w(2) by simp
  have p1: "path_to 1 w = ?p @ [?i]" using path_to_Suc [of 1 w] by (simp add: numeral_2_eq_2)
  have tree: "tree_ok (nx_enabled s) (phys s) (root s)" "follow (nx_enabled s) (phys s) (root s) ?p = Some t"
    using tables t by (simp_all add: tables_ok_def table_at_def)
  have al: "page_aligned t" using tree follow_aligned by (auto simp: tree_ok_def)
  have views: "nx_enabled s' = nx_enabled s" "root s' = root s" "phys s' = st64 (phys s) (t + 8 * ?i) ?x"
    by (simp_all add: s'_def s2_def s1_def nx_enabled_def root_def)
  have ne: "?p \<noteq> []" using path_to_hd [of 2 w] by simp
  have rec: "recursive (nx_enabled s') (phys s') (root s')"
    unfolding views using ne by (intro store_keeps_recursive [OF tables p t index_lt]) blast
  have at: "follow (nx_enabled s') (phys s') (root s') ?p = Some t"
    unfolding views using follow_store_other [OF tree(1) p tree(2) index_lt p] tree(2) by simp
  have e: "entry_at (phys s') t ?i = ?x" unfolding views using entry_at_store [OF al al index_lt index_lt] by simp
  have x: "bit ?x 0" "entry_ok (nx_enabled s) ?x" "\<not> is_huge ?x" "entry_addr ?x = ?F"
    using entry_addr_for [OF f(2), of "present_bit OR writeable_bit"]
    by (simp_all add: entry_for_facts present_bit_def writeable_bit_def physical_addr_mask_def)
  have "mmu s' (vtable ?p + 8 * ?i) = Some (t + 8 * ?i)"
    by (rule mmu_vtable [OF rec p at index_lt])
  then have "descened_page_table (vtable ?p) ?i s' = ret (vtable (?p @ [?i]))"
    using index_lt [of 2 w] e x(1) by (simp add: descened_page_table_def vload_def and_bit0 child_addr_fold
      vtable_snoc linorder_not_le [symmetric] flip: entry_at_def)
  moreover have "set_page_table_entry (vtable ?p + 8 * ?i) f (present_bit OR writeable_bit) s1 = ret s2"
    unfolding s2_def by (subst set_entry_table [of s1 ?p t]) (use tables p t in \<open>simp_all add: s1_def\<close>)
  moreover have "descened_page_table (vtable ?p) ?i s = ret 0"
    using descend_table [OF tables p t index_lt] free by simp
  ultimately have "get_next_page_table_or_create bi (vtable ?p) (get_p2_index (w div PAGE_SIZE)) s = ret (vtable (path_to 1 w), s')"
    using f(1) by (simp add: get_next_page_table_or_create_def page_indices entry_ptrs p1 flush_tlb_drops del: One_nat_def flip: s1_def s'_def)
  moreover have "table_at s' (path_to 1 w) = Some ?F"
    unfolding table_at_def p1 follow_snoc at using e x by (simp add: views(1))
  then have "mmu s' w = Some (entry_addr (entry_at (phys s) ?F (index 1 w)) + w mod PAGE_SIZE)"
    using mmu_last_table [OF w(1)] stale entry_at_store [OF al frame_start_aligned index_lt index_lt] f(3)
    by (simp add: views)
  ultimately show ?thesis by blast
qed

end
