(* ===== verification/Paging_Laws.thy ===== *)
theory Paging_Laws
  imports Paging
begin

text \<open>
  The properties of the paging code, with the concrete machine their witnesses run on: page
  tables in the frames 3, 2, 1 and 0 (one of each level, the root pointing at itself), one
  page mapped to the video memory, and an allocator whose next frame is 4.
\<close>

section \<open>A concrete machine\<close>

definition put_entry :: "u64 \<Rightarrow> u64 \<Rightarrow> u64 \<Rightarrow> mem \<Rightarrow> mem" where
  "put_entry t i x m = st64 m (t + 8 * i) x"

lemma entry_at_put:
  "page_aligned t \<Longrightarrow> page_aligned t' \<Longrightarrow> i < 512 \<Longrightarrow> j < 512 \<Longrightarrow>
     entry_at (put_entry t i x m) t' j = (if t = t' \<and> i = j then x else entry_at m t' j)"
  by (simp add: put_entry_def entry_at_store)

lemma entry_at_zero [simp]: "entry_at (\<lambda>_. 0) t i = 0"
  by (simp add: entry_at_def ld64_bytes)

text \<open>The word \<open>d\<close> is left over in slot 5 of frame 4, which is free.\<close>

definition sample_phys :: "u64 \<Rightarrow> mem" where
  "sample_phys d = put_entry 0x4000 5 d (put_entry 0x3000 0 0x2003 (put_entry 0x3000 511 0x3003
     (put_entry 0x2000 0 0x1003 (put_entry 0x1000 0 0x0003 (put_entry 0 7 0xB8003 (\<lambda>_. 0))))))"

definition sample_machine :: "u64 \<Rightarrow> machine" where
  "sample_machine d = \<lparr>phys = sample_phys d, tlb = Map.empty, cr0 = 0x80000011, cr3 = 0x3003, cr4 = 0x20, msr = (\<lambda>_. 0),
     frames = sample_allocator\<lparr>next_free_frame := 1\<rparr>, tty = sample_terminal\<rparr>"

lemma sample_aligned:
  "page_aligned 0" "page_aligned 0x1000" "page_aligned 0x2000" "page_aligned 0x3000" "page_aligned 0x4000"
  by (simp_all add: page_aligned_def)

lemma sample_entries:
  assumes "j < 512" "page_aligned t"
  shows "entry_at (sample_phys d) t j =
    (if t = 0x4000 \<and> j = 5 then d else if t = 0x3000 \<and> j = 0 then 0x2003 else if t = 0x3000 \<and> j = 511 then 0x3003
     else if t = 0x2000 \<and> j = 0 then 0x1003 else if t = 0x1000 \<and> j = 0 then 0x0003
     else if t = 0 \<and> j = 7 then 0xB8003 else 0)"
  using assms by (auto simp: sample_phys_def entry_at_put sample_aligned)

lemma sample_links:
  "hangs nx 0x2003 0x2000" "hangs nx 0x3003 0x3000" "hangs nx 0x1003 0x1000" "hangs nx 0x0003 0"
  by (simp_all add: hangs_def entry_ok_def is_huge_def entry_addr_def physical_addr_mask_def bit_0)

lemma sample_views [simp]:
  "phys (sample_machine d) = sample_phys d" "root (sample_machine d) = 0x3000"
  "\<not> nx_enabled (sample_machine d)" "nx_enabled (sample_machine d) = False" "tty (sample_machine d) = sample_terminal"
  "frames (sample_machine d) = sample_allocator\<lparr>next_free_frame := 1\<rparr>"
  by (simp_all add: sample_machine_def root_def nx_enabled_def entry_addr_def physical_addr_mask_def)

lemma sample_follow:
  assumes "table_path q" "follow nx (sample_phys d) 0x3000 q = Some t"
  shows "(q, t) \<in> {([], 0x3000), ([0], 0x2000), ([0, 0], 0x1000), ([0, 0, 0], 0)}"
proof -
  have step: "follow nx (sample_phys d) r (i # is) = Some t \<Longrightarrow> i < 512 \<Longrightarrow> i \<noteq> 511 \<or> r \<noteq> 0x3000 \<Longrightarrow>
      r \<in> {0x3000, 0x2000, 0x1000} \<Longrightarrow> i = 0 \<and> follow nx (sample_phys d) (r - 0x1000) is = Some t" for r i "is"
    using sample_links [of nx]
    by (auto simp: Let_def sample_entries sample_aligned hangs_def split: if_splits)
  show ?thesis
  proof (cases q)
    case (Cons i q1)
    then have 1: "i = 0" "follow nx (sample_phys d) 0x2000 q1 = Some t"
      using step [of "0x3000" i q1] assms by (auto simp: table_path_def)
    show ?thesis
    proof (cases q1)
      case (Cons j q2)
      then have 2: "j = 0" "follow nx (sample_phys d) 0x1000 q2 = Some t"
        using step [of "0x2000" j q2] assms(1) 1 \<open>q = i # q1\<close> by (auto simp: table_path_def)
      show ?thesis
      proof (cases q2)
        case (Cons k q3)
        then have 3: "k = 0" "follow nx (sample_phys d) 0 q3 = Some t"
          using step [of "0x1000" k q3] assms(1) 2 \<open>q = i # q1\<close> \<open>q1 = j # q2\<close> by (auto simp: table_path_def)
        then show ?thesis
          using assms(1) 1 2 \<open>q = i # q1\<close> \<open>q1 = j # q2\<close> Cons by (auto simp: table_path_def)
      qed (use 1 2 Cons \<open>q = i # q1\<close> in simp)
    qed (use 1 Cons in simp)
  qed (use assms in simp)
qed

lemma sample_tables_ok: "tables_ok (sample_machine d)"
proof -
  have "tree_ok False (sample_phys d) 0x3000"
    unfolding tree_ok_def
  proof (intro conjI allI impI)
    fix p q t
    assume "table_path p" "table_path q" "follow False (sample_phys d) 0x3000 p = Some t"
      "follow False (sample_phys d) 0x3000 q = Some t"
    then show "p = q" using sample_follow [of p False d t] sample_follow [of q False d t] by auto
  qed (rule sample_aligned)
  moreover have "recursive False (sample_phys d) 0x3000"
    using sample_links(2) by (simp add: recursive_def sample_entries sample_aligned)
  ultimately show ?thesis by (simp add: tables_ok_def)
qed

lemma sample_table_at:
  "table_at (sample_machine d) [0] = Some 0x2000" "table_at (sample_machine d) [0, 0] = Some 0x1000"
  "table_at (sample_machine d) [0, 0, 0] = Some 0"
  using sample_links [of False] by (simp_all add: table_at_def sample_entries sample_aligned hangs_def)

lemma sample_machine_ready: "allocator_ready sample_image (sample_allocator\<lparr>next_free_frame := 1\<rparr>, t)"
  by (simp add: allocator_ready_def sample_allocator_def sample_area)

lemma sample_pool: "f \<in> frame_pool sample_image (sample_allocator\<lparr>next_free_frame := 1\<rparr>) \<longleftrightarrow> 4 \<le> f \<and> f \<le> 0x70FF"
proof -
  have last: "get_frame_for_addr (area_last (area sample_image 0x1008 0)) = 0x70FF"
    by (simp add: area_last_def area_def sample_facts get_frame_for_addr_def PAGE_SIZE_def)
  have ahead: "areas_ahead sample_image 0x1008 1 0 = {0}"
    by (auto simp: areas_ahead_def)
  have "f \<in> frame_pool sample_image (sample_allocator\<lparr>next_free_frame := 1\<rparr>) \<longleftrightarrow>
      1 \<le> f \<and> \<not> (2 \<le> f \<and> f \<le> 3) \<and> f \<noteq> 1 \<and> f \<le> 0x70FF"
    using ahead last by (auto simp: frame_pool_def can_issue_def reserved_def sample_allocator_def)
  also have "\<dots> \<longleftrightarrow> 4 \<le> f \<and> f \<le> 0x70FF"
    by (auto simp: word_le_nat_alt word_unat_eq_iff)
  finally show ?thesis .
qed

lemma sample_pool_card: "4 \<le> card (frame_pool sample_image (sample_allocator\<lparr>next_free_frame := 1\<rparr>))"
proof -
  have "card {4, 5, 6, 7 :: frame} \<le> card (frame_pool sample_image (sample_allocator\<lparr>next_free_frame := 1\<rparr>))"
    by (rule card_mono) (auto simp: sample_pool)
  then show ?thesis by simp
qed

lemma sample_paging_ok: "paging_ok sample_image (sample_machine 0)"
proof -
  have "blank_table (sample_phys 0) (get_frame_start_addr f) \<and>
      (\<forall>q. table_path q \<longrightarrow> table_at (sample_machine 0) q \<noteq> Some (get_frame_start_addr f)) \<and> unat f < 2 ^ 40"
    if f: "4 \<le> f" "f \<le> 0x70FF" for f
  proof -
    have u: "unat f \<le> 0x70FF" "4 \<le> unat f" using f by (simp_all add: word_le_nat_alt)
    have a: "unat (get_frame_start_addr f) = 4096 * unat f"
      using u by (simp add: get_frame_start_addr_def PAGE_SIZE_def unat_word_ariths)
    then have n: "get_frame_start_addr f \<notin> {0, 0x1000, 0x2000, 0x3000}" using u by auto
    then have "blank_table (sample_phys 0) (get_frame_start_addr f)"
      by (simp add: blank_table_def sample_entries)
    moreover have "table_at (sample_machine 0) q \<noteq> Some (get_frame_start_addr f)" if "table_path q" for q
      using sample_follow [OF that, of False 0 "get_frame_start_addr f"] n by (auto simp: table_at_def)
    ultimately show ?thesis using u by simp
  qed
  then show ?thesis
    using sample_tables_ok sample_machine_ready by (simp add: paging_ok_def sample_pool)
qed

lemma canonical_low: "v < 0x800000000000 \<Longrightarrow> canonical v"
proof -
  assume "v < 0x800000000000"
  then have "take_bit 47 v = v"
    by (simp add: word_less_nat_alt take_bit_eq_mod word_unat_eq_iff unat_mod)
  then have "\<not> bit v n" if "47 \<le> n" for n using that by (metis bit_take_bit_iff leD)
  then show ?thesis by (simp add: canonical_def)
qed

lemma sample_index:
  "index 4 0x7123 = 0" "path_to 1 0x7123 = [0, 0, 0]" "index 1 0x7123 = 7" "canonical 0x7123"
  "index 4 0x205123 = 0" "path_to 2 0x205123 = [0, 0]" "index 2 0x205123 = 1" "index 1 0x205123 = 5" "canonical 0x205123"
  by (simp_all add: path_to_def index_def take_bit_eq_mod drop_bit_eq_div canonical_low)

lemma sample_pages: "0x7123 div PAGE_SIZE = 7" "0x7123 mod PAGE_SIZE = 0x123" "0x205123 div PAGE_SIZE = 0x205"
  "0x205123 mod PAGE_SIZE = 0x123"
  by (simp_all add: PAGE_SIZE_def)

section \<open>Properties\<close>

text \<open>Descending through an entry that points at a table gives the address at which the processor
  finds that table: slot by slot, the address translates to the physical slot of the table.\<close>

theorem descend_reaches_table:
  assumes "tables_ok s" "table_path (p @ [i])" "table_at s (p @ [i]) = Some u" "j < 512"
  shows "\<exists>a. descened_page_table (vtable p) i s = ret a \<and> mmu s (a + 8 * j) = Some (u + 8 * j)"
  using descend_existing [OF assms(1-3)] mmu_table [OF assms] by blast

theorem descend_reaches_table_witness:
  "\<exists>a. descened_page_table (vtable []) 0 (sample_machine 0) = ret a \<and> mmu (sample_machine 0) (a + 8 * 3) = Some 0x2018"
  using descend_reaches_table [OF sample_tables_ok, of "[]" 0 0 "0x2000" 3] sample_table_at(1)
  by (simp add: table_path_def)

text \<open>C7. Mapping a page to a frame makes the processor translate every address of the page into the
  frame, changes the translation of no other address outside the recursive region, and keeps
  the tables and the allocator sound; it needs three free frames at most, which must be blank,
  and no huge page in the way.\<close>

theorem map_page_to_frame_translates:
  assumes "paging_ok bi s" "canonical v" "index 4 v \<noteq> 511" "way_clear s v"
    and "3 \<le> card (frame_pool bi (frames s))" "unat f < 2 ^ 40" "flags_ok s flags"
  shows "\<exists>s'. map_page_to_frame bi (v div PAGE_SIZE) f flags s = ret s' \<and> paging_ok bi s' \<and>
    (\<forall>w. w div PAGE_SIZE = v div PAGE_SIZE \<longrightarrow> mmu s' w = Some (get_frame_start_addr f + w mod PAGE_SIZE)) \<and>
    (\<forall>w. index 4 w \<noteq> 511 \<longrightarrow> w div PAGE_SIZE \<noteq> v div PAGE_SIZE \<longrightarrow> mmu s' w = mmu s w)"
  using map_page_to_frame_ok [OF assms(1-4) _ assms(6,7), of 0] assms(5) by auto

lemma sample_way: "way_clear (sample_machine 0) 0x205123"
  by (simp add: way_clear_def path_to_def index_def take_bit_eq_mod drop_bit_eq_div sample_entries sample_aligned Let_def
      sample_links [unfolded hangs_def])

lemma sample_flags: "flags_ok (sample_machine d) writeable_bit"
  by (simp add: flags_ok_def writeable_bit_def physical_addr_mask_def)

theorem map_page_to_frame_translates_witness:
  "\<exists>s'. map_page_to_frame sample_image 0x205 9 writeable_bit (sample_machine 0) = ret s' \<and>
     mmu s' 0x205123 = Some 0x9123 \<and> mmu s' 0x7123 = mmu (sample_machine 0) 0x7123"
proof -
  have "3 \<le> card (frame_pool sample_image (frames (sample_machine 0)))"
    using sample_pool_card by simp
  then obtain s' where "map_page_to_frame sample_image 0x205 9 writeable_bit (sample_machine 0) = ret s'"
    "\<forall>w. w div PAGE_SIZE = 0x205 \<longrightarrow> mmu s' w = Some (get_frame_start_addr 9 + w mod PAGE_SIZE)"
    "\<forall>w. index 4 w \<noteq> 511 \<longrightarrow> w div PAGE_SIZE \<noteq> 0x205 \<longrightarrow> mmu s' w = mmu (sample_machine 0) w"
    using map_page_to_frame_translates [OF sample_paging_ok sample_index(9) _ sample_way _ _ sample_flags, of 9]
    unfolding sample_pages by (auto simp: sample_index)
  then show ?thesis
    by (intro exI [of _ s']) (simp add: sample_pages sample_index, simp add: get_frame_start_addr_def PAGE_SIZE_def)
qed

text \<open>Mapping a page without naming a frame maps it to a frame of the allocator's pool, with the
  same effect on translation.\<close>

theorem map_page_translates:
  assumes "paging_ok bi s" "canonical v" "index 4 v \<noteq> 511" "way_clear s v"
    and "4 \<le> card (frame_pool bi (frames s))" "flags_ok s flags"
  shows "\<exists>f s'. f \<in> frame_pool bi (frames s) \<and> map_page bi (v div PAGE_SIZE) flags s = ret s' \<and> paging_ok bi s' \<and>
    (\<forall>w. w div PAGE_SIZE = v div PAGE_SIZE \<longrightarrow> mmu s' w = Some (get_frame_start_addr f + w mod PAGE_SIZE)) \<and>
    (\<forall>w. index 4 w \<noteq> 511 \<longrightarrow> w div PAGE_SIZE \<noteq> v div PAGE_SIZE \<longrightarrow> mmu s' w = mmu s w)"
  using map_page_ok [OF assms(1-4) _ assms(6), of 0] assms(5) by auto

theorem map_page_translates_witness:
  "\<exists>f s'. 4 \<le> f \<and> map_page sample_image 0x205 writeable_bit (sample_machine 0) = ret s' \<and>
     mmu s' 0x205000 = Some (get_frame_start_addr f)"
proof -
  have "4 \<le> card (frame_pool sample_image (frames (sample_machine 0)))"
    using sample_pool_card by simp
  then obtain f s' where "f \<in> frame_pool sample_image (frames (sample_machine 0))"
    "map_page sample_image 0x205 writeable_bit (sample_machine 0) = ret s'"
    "\<forall>w. w div PAGE_SIZE = 0x205 \<longrightarrow> mmu s' w = Some (get_frame_start_addr f + w mod PAGE_SIZE)"
    using map_page_translates [OF sample_paging_ok sample_index(9) _ sample_way _ sample_flags]
    unfolding sample_pages by (auto simp: sample_index)
  then show ?thesis by (intro exI [of _ f] exI [of _ s']) (simp add: sample_pool PAGE_SIZE_def)
qed

text \<open>C16. \<open>translate\<close> agrees with the processor: for an address that four tables map, it returns the
  physical address the processor's walk gives.\<close>

theorem translate_agrees:
  assumes "tables_ok s" "canonical v" "index 4 v \<noteq> 511" "table_at s (path_to 1 v) = Some t"
    and "entry_ok (nx_enabled s) (entry_at (phys s) t (index 1 v))"
  shows "\<exists>a. translate v g s = ret a \<and> mmu s v = Some a"
  using translate_value [OF assms(1-4), of g] mmu_last_table [OF assms(2,4)] assms(5)
  by (simp add: entry_ok_def)

lemma sample_leaf: "table_at (sample_machine d) (path_to 1 0x7123) = Some 0"
  using sample_table_at(3) by (simp add: sample_index(2) del: One_nat_def)

theorem translate_agrees_witness:
  "\<exists>a. translate 0x7123 5 (sample_machine 0) = ret a \<and> mmu (sample_machine 0) 0x7123 = Some a"
  using translate_agrees [OF sample_tables_ok sample_index(4) _ sample_leaf, of 0 5]
  by (simp add: sample_index sample_entries sample_aligned entry_ok_def bit_0 del: One_nat_def)

text \<open>On a page whose last entry is clear \<open>translate\<close> does not report a failure: it returns an address
  in whatever frame its uninitialised local named.\<close>

theorem translate_unmapped:
  assumes "tables_ok s" "canonical v" "index 4 v \<noteq> 511" "table_at s (path_to 1 v) = Some t"
    and "\<not> bit (entry_at (phys s) t (index 1 v)) 0"
  shows "mmu s v = None \<and> translate v g s = ret (get_frame_start_addr g + v mod PAGE_SIZE)"
  using translate_value [OF assms(1-4), of g] mmu_last_table [OF assms(2,4)] assms(5)
  by (simp add: entry_ok_def)

theorem translate_unmapped_witness:
  "mmu (sample_machine 0) 0x8123 = None \<and> translate 0x8123 5 (sample_machine 0) = ret 0x5123"
proof -
  have i: "index 4 0x8123 = 0" "path_to 1 0x8123 = [0, 0, 0]" "index 1 0x8123 = 8" "canonical 0x8123"
    by (simp_all add: path_to_def index_def take_bit_eq_mod drop_bit_eq_div canonical_low)
  have t: "table_at (sample_machine 0) (path_to 1 0x8123) = Some 0"
    using sample_table_at(3) i(2) by (simp del: One_nat_def)
  show ?thesis
    using translate_unmapped [OF sample_tables_ok i(4) _ t, of 5] i(1,3)
    by (simp add: sample_entries sample_aligned get_frame_start_addr_def PAGE_SIZE_def)
qed

text \<open>C26. Unmapping a page removes its translation and no other, keeps the tables sound, and leaves the
  frame allocator as it was: the frame of the page is not freed.\<close>

theorem unmap_page_removes:
  assumes "tables_ok s" "canonical v" "index 4 v \<noteq> 511" "table_at s (path_to 1 v) = Some t"
  shows "\<exists>s'. unmap_page (v div PAGE_SIZE) g s = ret s' \<and> tables_ok s' \<and> frames s' = frames s \<and>
    (\<forall>w. w div PAGE_SIZE = v div PAGE_SIZE \<longrightarrow> mmu s' w = None) \<and>
    (\<forall>w. index 4 w \<noteq> 511 \<longrightarrow> w div PAGE_SIZE \<noteq> v div PAGE_SIZE \<longrightarrow> mmu s' w = mmu s w)"
  using unmap_page_ok [OF assms] by blast

theorem unmap_page_removes_witness:
  "\<exists>s'. unmap_page 7 0 (sample_machine 0) = ret s' \<and> mmu s' 0x7123 = None"
  using unmap_page_removes [OF sample_tables_ok sample_index(4) _ sample_leaf, of 0 0] sample_index(1)
  unfolding sample_pages by (auto simp: sample_pages)

text \<open>C30. When no frame is left, \<open>map_page\<close> does not notice. If the tables of the page exist it maps the
  page to physical frame 0. If one is missing, and none can be allocated for it, the descent
  goes on from a null pointer: with page 0 unmapped, as \<open>remap_kernel\<close> leaves it, the code
  page-faults there.\<close>

theorem map_page_ignores_failure:
  assumes "tables_ok s" "canonical v" "index 4 v \<noteq> 511" "way_clear s v"
    and "allocator_ready bi (frames s, tty s)" "frame_pool bi (frames s) = {}" "flags_ok s flags"
  shows "case table_at s (path_to 1 v) of
      Some t \<Rightarrow> \<exists>s'. map_page bi (v div PAGE_SIZE) flags s = ret s' \<and> mmu s' v = Some (v mod PAGE_SIZE)
    | None \<Rightarrow> (\<forall>i < 512. mmu s (8 * i) = None) \<longrightarrow> (\<exists>x < 4096. map_page bi (v div PAGE_SIZE) flags s = fail (Page_fault x))"
proof -
  have ex: "exhausted bi s" using assms(5,6) by (simp add: exhausted_def)
  show ?thesis
    using map_page_exhausted [OF assms(1-3) ex assms(7)] assms(4) unfolding null_unmapped_def
    by (cases "table_at s (path_to 1 v)") (simp_all del: One_nat_def)
qed

lemma sample_null: "i < 512 \<Longrightarrow> mmu (sample_machine 0) (8 * i) = None"
proof -
  assume i: "i < 512"
  then have u: "unat (8 * i) < 4096" by (simp add: word_less_nat_alt unat_word_ariths)
  have "8 * i = push_bit 3 i" by (simp add: push_bit_eq_mult)
  then have "bit (8 * i) n \<Longrightarrow> n < 12" for n using bit_lt512 [OF i, of "n - 3"] by (auto simp: bit_push_bit_iff)
  then have z: "index lvl (8 * i) = 0" if "0 < lvl" for lvl
    using that by (intro bit_eqI) (fastforce simp: bit_index)
  have c: "canonical (8 * i)" using u by (intro canonical_low) (simp add: word_less_nat_alt)
  have "path_to 1 (8 * i) = [0, 0, 0]" using z by (simp add: path_to_def)
  then have "table_at (sample_machine 0) (path_to 1 (8 * i)) = Some 0" using sample_table_at(3) by (simp del: One_nat_def)
  then show ?thesis using mmu_last_table [OF c] z [of 1] by (simp add: sample_entries sample_aligned entry_ok_def)
qed

theorem map_page_ignores_failure_witness:
  "\<exists>s s' x. map_page sample_image 7 0 s = ret s' \<and> mmu s' 0x7123 = Some 0x123 \<and>
     map_page sample_image 0x205 0 s = fail (Page_fault x) \<and> x < 4096"
proof -
  let ?s = "(sample_machine 0)\<lparr>frames := sample_allocator\<lparr>entry_index := 1\<rparr>, tty := sample_terminal\<rparr>"
  have s: "tables_ok ?s" "table_at ?s (path_to 1 0x7123) = Some 0"
    using sample_tables_ok sample_leaf by simp_all
  have al: "allocator_ready sample_image (frames ?s, tty ?s)" "frame_pool sample_image (frames ?s) = {}" "flags_ok ?s 0"
    using sample_area by (simp_all add: allocator_ready_def frame_pool_def can_issue_def sample_allocator_def flags_ok_def)
  have "way_clear ?s 0x7123"
    by (simp add: way_clear_def path_to_def index_def take_bit_eq_mod drop_bit_eq_div sample_entries sample_aligned Let_def
      sample_links [unfolded hangs_def])
  then have "\<exists>s'. map_page sample_image 7 0 ?s = ret s' \<and> mmu s' 0x7123 = Some 0x123"
    using map_page_ignores_failure [OF s(1) sample_index(4) _ _ al] sample_index s(2)
    unfolding sample_pages by (auto simp: sample_pages simp del: One_nat_def)
  moreover have none: "table_at ?s (path_to 1 0x205123) = None"
    using sample_follow [of "[0, 0, 1]" False 0] by (cases "table_at (sample_machine 0) [0, 0, 1]")
      (auto simp: table_at_def table_path_def path_to_def index_def take_bit_eq_mod drop_bit_eq_div)
  have "\<exists>x < 4096. map_page sample_image 0x205 0 ?s = fail (Page_fault x)"
    using map_page_ignores_failure [OF s(1) sample_index(9) _ _ al] sample_index sample_way none sample_null
    unfolding sample_pages by (auto simp del: One_nat_def)
  ultimately show ?thesis by blast
qed

text \<open>C29. A new page table is not cleared: a word left over in its frame that looks like a page table entry
  maps a page nobody mapped.\<close>

theorem stale_entry_maps:
  assumes "tables_ok s" "canonical w" "index 4 w \<noteq> 511" "table_at s (path_to 2 w) = Some t"
    and "\<not> bit (entry_at (phys s) t (index 2 w)) 0"
    and "alloc_frame bi s = ret (0, f, s\<lparr>frames := al, tty := t'\<rparr>)" "unat f < 2 ^ 40" "get_frame_start_addr f \<noteq> t"
    and "entry_ok (nx_enabled s) (entry_at (phys s) (get_frame_start_addr f) (index 1 w))"
  shows "\<exists>s'. get_next_page_table_or_create bi (vtable (path_to 2 w)) (get_p2_index (w div PAGE_SIZE)) s =
      ret (vtable (path_to 1 w), s') \<and>
    mmu s' w = Some (entry_addr (entry_at (phys s) (get_frame_start_addr f) (index 1 w)) + w mod PAGE_SIZE)"
  by (rule stale_entry [OF assms])

theorem stale_entry_maps_witness:
  "\<exists>s'. get_next_page_table_or_create sample_image (vtable [0, 0]) (get_p2_index 0x205) (sample_machine 0xABC001) =
      ret (vtable (path_to 1 0x205123), s') \<and> mmu s' 0x205123 = Some 0xABC123"
proof -
  have four: "4 \<in> frame_pool sample_image (sample_allocator\<lparr>next_free_frame := 1\<rparr>)" by (simp add: sample_pool)
  let ?pool = "frame_pool sample_image (sample_allocator\<lparr>next_free_frame := 1\<rparr>)"
  obtain c f al t' where r: "allocate_frame sample_image (sample_allocator\<lparr>next_free_frame := 1\<rparr>, sample_terminal) =
      ret (c, f, al, t')"
    and b: "if ?pool = {} then c = -1 \<and> f = 0 else c = 0 \<and> f \<in> ?pool \<and> (\<forall>k \<in> ?pool. f \<le> k) \<and>
      frame_pool sample_image al = ?pool - {f}"
    using allocate_frame_least [OF sample_machine_ready [of sample_terminal]] by blast
  have a: "c = 0" "f \<in> ?pool" "f \<le> 4" using b four by (auto split: if_splits)
  then have f: "f = 4" by (simp add: sample_pool)
  have al: "alloc_frame sample_image (sample_machine 0xABC001) =
      ret (0, 4, (sample_machine 0xABC001)\<lparr>frames := al, tty := t'\<rparr>)"
    using r a(1) f by (simp add: alloc_frame_def)
  have "entry_ok False 0xABC001" "entry_addr 0xABC001 = 0xABC000"
    by (simp_all add: entry_ok_def entry_addr_def physical_addr_mask_def bit_0)
  then show ?thesis
    using stale_entry_maps [OF sample_tables_ok sample_index(9) _ _ _ al] sample_index sample_table_at(2)
    by (simp add: sample_entries sample_aligned sample_pages get_frame_start_addr_def PAGE_SIZE_def)
qed

end
