(* ===== verification/Remap.thy ===== *)
theory Remap
  imports Paging_Laws
begin

text \<open>
  The kernel's own page tables (src/paging.c, \<open>remap_kernel\<close>): a new root is built through the
  recursive entry of the old one, the allocated ELF sections, the video memory and the boot
  information are identity-mapped in it, and it is loaded into cr3. The two page loops are
  the loops of the code; their lemmas say which frames they map.
\<close>

section \<open>The page loops\<close>

definition print_out :: "mem \<Rightarrow> string \<Rightarrow> u64 list \<Rightarrow> machine \<Rightarrow> machine out" where
  "print_out bi fmt args s = obind (terminal_printf bi fmt args (tty s)) (\<lambda>t. ret (s\<lparr>tty := t\<rparr>))"

partial_function (option) map_section_pages :: "mem \<Rightarrow> u64 \<Rightarrow> u64 \<Rightarrow> u64 \<Rightarrow> machine \<Rightarrow> machine out" where
  "map_section_pages bi addr end_addr flags s =
     (if addr < end_addr then
        obind (identity_map_page bi (get_frame_for_addr addr) flags s)
          (\<lambda>s'. map_section_pages bi (addr + PAGE_SIZE) end_addr flags s')
      else ret s)"

declare map_section_pages.simps [code]

partial_function (option) map_boot_pages :: "mem \<Rightarrow> u64 \<Rightarrow> u64 \<Rightarrow> machine \<Rightarrow> machine out" where
  "map_boot_pages bi mboot_addr bound s =
     (if mboot_addr \<le> bound then
        obind (identity_map_page bi (get_frame_for_addr mboot_addr) (present_bit OR no_exec_bit) s)
          (\<lambda>s'. map_boot_pages bi (mboot_addr + PAGE_SIZE) bound s')
      else ret s)"

declare map_boot_pages.simps [code]

text \<open>The flags a section gets, and its pages.\<close>

definition section_flags :: "multiboot_elf_section_header \<Rightarrow> u64" where
  "section_flags h =
     (let flags = present_bit;
          flags = (if elf_section_is_exectuable h then flags else flags OR no_exec_bit)
      in if elf_section_is_writable h then flags OR writeable_bit else flags)"

definition remap_section :: "mem \<Rightarrow> multiboot_elf_section_header \<Rightarrow> machine \<Rightarrow> machine out" where
  "remap_section bi h s =
     (if \<not> elf_section_is_allocated h then ret s
      else
        (let addr = sh_addr h; end_addr = sh_addr h + sh_size h - 1; flags = section_flags h
         in obind (assert_c (addr mod PAGE_SIZE = 0) ''addr % PAGE_SIZE == 0'') (\<lambda>_.
            obind (assert_c (addr \<le> end_addr) ''addr <= end_addr'') (\<lambda>_.
            obind (print_out bi (''Addr: %#zx'' @ [CHR 0x09] @ ''Flags : %#zX'' @ [newline]) [addr, flags] s)
              (map_section_pages bi addr end_addr flags)))))"

definition print_entry :: "mem \<Rightarrow> string \<Rightarrow> u64 \<Rightarrow> machine \<Rightarrow> machine out" where
  "print_entry bi msg entry s = obind (vload s entry) (\<lambda>e. print_out bi (msg @ [newline]) [e] s)"

text \<open>
  \<open>data.start + data.start->total_size\<close> counts in units of \<open>struct multiboot_start\<close>, which has 8
  bytes.
\<close>

definition boot_last :: "mem \<Rightarrow> multiboot_data \<Rightarrow> u64" where
  "boot_last bi d = md_start d + 8 * ucast (total_size_at bi (md_start d))"

text \<open>The argument \<open>g\<close> is the content of the uninitialised frame of \<open>unmap_page\<close>.\<close>

definition prepare_root :: "mem \<Rightarrow> frame \<Rightarrow> frame \<Rightarrow> machine \<Rightarrow> machine out" where
  "prepare_root bi new_p4_frame old_p4_frame s =
     (let page = 0xdeadbeef; old_p4_page = 0xdddd0000; rw = present_bit OR writeable_bit;
          old_p4_table = old_p4_page * PAGE_SIZE
      in obind (map_page_to_frame bi old_p4_page old_p4_frame rw s) (\<lambda>s1.
         obind (init_page_table (page * PAGE_SIZE) (flush_tlb s1)) (\<lambda>s2.
         obind (print_out bi (''CR3 = %#zx'' @ [newline]) [read_tlb s2] s2) (\<lambda>s3.
         obind (print_entry bi ''Old p4 entry[511] %#zX'' (p4_table + 8 * 511) s3) (\<lambda>s4.
         obind (print_entry bi ''Old p4 entry[511] %#zX'' (old_p4_table + 8 * 511) s4) (\<lambda>s5.
         obind (print_out bi (''New p4 frame addr %#zX'' @ [newline]) [get_frame_start_addr new_p4_frame] s5)
           (set_page_table_entry (page * PAGE_SIZE + 8 * 511) new_p4_frame rw)))))))"

definition enter_root :: "mem \<Rightarrow> frame \<Rightarrow> machine \<Rightarrow> machine out" where
  "enter_root bi new_p4_frame s =
     obind (set_page_table_entry (p4_table + 8 * 511) new_p4_frame (present_bit OR writeable_bit) s) (\<lambda>s1.
     obind (print_entry bi ''new p4 entry[511] %#zX'' (p4_table + 8 * 511) s1) (\<lambda>s2. ret (flush_tlb s2)))"

definition map_image :: "mem \<Rightarrow> multiboot_data \<Rightarrow> machine \<Rightarrow> machine out" where
  "map_image bi d s =
     obind (int_range (ucast (elf_num bi (md_elf_symbols d)))) (\<lambda>is.
     obind (foldM (\<lambda>i. remap_section bi (sectionheaders bi (md_elf_symbols d) (of_nat i))) is s) (\<lambda>s1.
     obind (identity_map_page bi (get_frame_for_addr 0xb8000) (writeable_bit OR present_bit OR no_exec_bit) s1)
       (map_boot_pages bi (md_start d) (boot_last bi d))))"

definition build_tables :: "mem \<Rightarrow> multiboot_data \<Rightarrow> frame \<Rightarrow> frame \<Rightarrow> machine \<Rightarrow> machine out" where
  "build_tables bi d new_p4_frame old_p4_frame s =
     obind (prepare_root bi new_p4_frame old_p4_frame s) (\<lambda>s1.
     obind (enter_root bi new_p4_frame s1) (map_image bi d))"

definition switch_tables :: "mem \<Rightarrow> frame \<Rightarrow> frame \<Rightarrow> frame \<Rightarrow> machine \<Rightarrow> machine out" where
  "switch_tables bi new_p4_frame old_p4_frame g s =
     (let old_p4_page = 0xdddd0000
      in obind (print_out bi (''New kernel page tables set up.'' @ [newline]) [] s) (\<lambda>s1.
         obind (set_page_table_entry (old_p4_page * PAGE_SIZE + 8 * 511) old_p4_frame (present_bit OR writeable_bit) s1) (\<lambda>s2.
         obind (print_entry bi ''Old p4 entry[511] %#zX'' (p4_table + 8 * 511) (flush_tlb s2)) (\<lambda>s3.
         obind (unmap_page old_p4_page g s3) (\<lambda>s4.
         obind (unmap_page old_p4_frame g (flush_tlb (write_tlb (new_p4_frame * PAGE_SIZE) s4)))
           (print_out bi (''End of remap.'' @ [newline]) []))))))"

definition remap_kernel :: "mem \<Rightarrow> multiboot_data \<Rightarrow> frame \<Rightarrow> machine \<Rightarrow> machine out" where
  "remap_kernel bi d g s =
     obind (alloc_frame bi (enable_no_exec s)) (\<lambda>(_, new_p4_frame, s1).
     obind (map_page_to_frame bi 0xdeadbeef new_p4_frame (present_bit OR writeable_bit) s1) (\<lambda>s2.
       let old_p4_frame = get_frame_for_addr (read_tlb s2)
       in obind (print_out bi (''Old page addr: %#zx'' @ [newline]) [old_p4_frame] s2) (\<lambda>s3.
          obind (build_tables bi d new_p4_frame old_p4_frame s3)
            (switch_tables bi new_p4_frame old_p4_frame g))))"

section \<open>Which frames the loops map\<close>

text \<open>The frames of the addresses \<open>a\<close>, \<open>a + 4096\<close> and so on.\<close>

definition page_steps :: "u64 \<Rightarrow> nat \<Rightarrow> frame list" where
  "page_steps a n = map (\<lambda>k. get_frame_for_addr (a + 4096 * of_nat k)) [0..<n]"

lemma page_steps_0 [simp]: "page_steps a 0 = []"
  by (simp add: page_steps_def)

lemma page_steps_Suc: "page_steps a (Suc n) = get_frame_for_addr a # page_steps (a + PAGE_SIZE) n"
  by (simp add: page_steps_def upt_conv_Cons map_Suc_upt [symmetric] PAGE_SIZE_def distrib_left add.assoc
      del: upt_Suc map_Suc_upt)

definition section_page_count :: "u64 \<Rightarrow> u64 \<Rightarrow> nat" where
  "section_page_count a e = (unat e - unat a + 4095) div 4096"

definition boot_page_count :: "u64 \<Rightarrow> u64 \<Rightarrow> nat" where
  "boot_page_count a l = (if a \<le> l then (unat l - unat a) div 4096 + 1 else 0)"

lemma unat_next_page: "unat (a :: u64) \<le> b \<Longrightarrow> b + 4096 < 2 ^ 64 \<Longrightarrow> unat (a + PAGE_SIZE) = unat a + 4096"
  unfolding PAGE_SIZE_def by (subst unat_plus64) simp_all

lemma map_section_pages_loop:
  assumes "unat e + 4096 < 2 ^ 64"
  shows "map_section_pages bi a e flags s =
    foldM (\<lambda>f. identity_map_page bi f flags) (page_steps a (section_page_count a e)) s"
proof (induction "section_page_count a e" arbitrary: a s)
  case 0
  then have "\<not> a < e" by (simp add: section_page_count_def word_less_nat_alt)
  then show ?case using 0 by (subst map_section_pages.simps) simp
next
  case (Suc n)
  then have lt: "unat a < unat e" by (simp add: section_page_count_def)
  then have "unat (a + PAGE_SIZE) = unat a + 4096" using assms unat_next_page [of a "unat e"] by simp
  then have n: "n = section_page_count (a + PAGE_SIZE) e"
    using Suc.hyps(2) lt by (simp add: section_page_count_def)
  have "map_section_pages bi a e flags s =
      obind (identity_map_page bi (get_frame_for_addr a) flags s) (map_section_pages bi (a + PAGE_SIZE) e flags)"
    using lt by (subst map_section_pages.simps) (simp add: word_less_nat_alt)
  then show ?case
    using Suc.hyps(1) [OF n] by (simp add: page_steps_Suc flip: n Suc.hyps(2))
qed

lemma map_boot_pages_loop:
  assumes "unat l + 4096 < 2 ^ 64"
  shows "map_boot_pages bi a l s =
    foldM (\<lambda>f. identity_map_page bi f (present_bit OR no_exec_bit)) (page_steps a (boot_page_count a l)) s"
proof (induction "boot_page_count a l" arbitrary: a s)
  case 0
  then have "\<not> a \<le> l" by (simp add: boot_page_count_def split: if_splits)
  then show ?case using 0 by (subst map_boot_pages.simps) simp
next
  case (Suc n)
  then have le: "a \<le> l" by (simp add: boot_page_count_def split: if_splits)
  then have "unat (a + PAGE_SIZE) = unat a + 4096" using assms unat_next_page [of a "unat l"] by (simp add: word_le_nat_alt)
  then have n: "n = boot_page_count (a + PAGE_SIZE) l"
    using Suc.hyps(2) le by (simp add: boot_page_count_def word_le_nat_alt) linarith
  have "map_boot_pages bi a l s = obind (identity_map_page bi (get_frame_for_addr a) (present_bit OR no_exec_bit) s)
      (map_boot_pages bi (a + PAGE_SIZE) l)"
    using le by (subst map_boot_pages.simps) simp
  then show ?case
    using Suc.hyps(1) [OF n] by (simp add: page_steps_Suc flip: n Suc.hyps(2))
qed

lemma unat_page_step: "unat (a :: u64) + 4096 * k < 2 ^ 64 \<Longrightarrow> unat (a + 4096 * of_nat k) = unat a + 4096 * k"
proof -
  assume k: "unat a + 4096 * k < 2 ^ 64"
  then have "unat (of_nat k :: u64) = k" by (intro unat_of_nat64) simp
  then have "unat (4096 * of_nat k :: u64) = 4096 * k" using k by (simp add: unat_word_ariths)
  then show ?thesis using k unat_plus64 [of a "4096 * of_nat k"] by simp
qed

lemma page_steps_set:
  assumes "unat a + 4096 * n \<le> 2 ^ 64"
  shows "f \<in> set (page_steps a n) \<longleftrightarrow> (\<exists>k<n. unat f = unat a div 4096 + k)"
proof -
  have "unat (get_frame_for_addr (a + 4096 * of_nat k)) = unat a div 4096 + k" if "k < n" for k
    using that assms unat_page_step [of a k] by (simp add: unat_get_frame)
  then show ?thesis by (auto simp: page_steps_def word_unat_eq_iff image_iff atLeast0LessThan)
qed

lemma section_steps_set:
  assumes a: "page_aligned a" and e: "unat e + 4096 < 2 ^ 64"
  shows "f \<in> set (page_steps a (section_page_count a e)) \<longleftrightarrow> (\<exists>x. a \<le> x \<and> x < e \<and> get_frame_for_addr x = f)"
proof -
  let ?n = "section_page_count a e"
  obtain b where b: "unat a = 4096 * b" by (rule page_aligned_unat [OF a])
  have n: "4096 * ?n \<le> unat e - unat a + 4095" by (simp add: section_page_count_def)
  have fit: "unat a + 4096 * ?n \<le> 2 ^ 64"
    using n e unat64_lt [of a] by (cases "unat a \<le> unat e") (simp_all add: section_page_count_def)
  show ?thesis
    unfolding page_steps_set [OF fit]
  proof
    assume "\<exists>k<?n. unat f = unat a div 4096 + k"
    then obtain k where k: "k < ?n" "unat f = b + k" using b by auto
    then have lt: "4096 * b + 4096 * k < unat e" using b by (simp add: section_page_count_def)
    let ?x = "a + 4096 * of_nat k"
    have x: "unat ?x = 4096 * b + 4096 * k" using unat_page_step [of a k] b lt unat64_lt [of e] by simp
    then have "get_frame_for_addr ?x = f" using k(2) by (simp add: word_unat_eq_iff unat_get_frame)
    then show "\<exists>x. a \<le> x \<and> x < e \<and> get_frame_for_addr x = f"
      using x lt b by (intro exI [of _ ?x]) (simp add: word_le_nat_alt word_less_nat_alt)
  next
    assume "\<exists>x. a \<le> x \<and> x < e \<and> get_frame_for_addr x = f"
    then obtain x where "a \<le> x" "x < e" "get_frame_for_addr x = f" by blast
    then have x: "unat a \<le> unat x" "unat x < unat e" "unat f = unat x div 4096"
      using unat_get_frame [of x] by (simp_all add: word_le_nat_alt word_less_nat_alt)
    then have "unat x div 4096 - b < ?n" "b \<le> unat x div 4096"
      using b by (simp_all add: section_page_count_def)
    then show "\<exists>k<?n. unat f = unat a div 4096 + k"
      using x(3) b by (intro exI [of _ "unat x div 4096 - b"]) simp
  qed
qed

section \<open>Properties\<close>

text \<open>Identity-mapping a section from a page boundary up to its last byte \<open>e\<close> is mapping, in order,
  exactly the frames that hold a byte before \<open>e\<close>; the frame of the last byte itself is left out
  when \<open>e\<close> is the first byte of a page.\<close>

theorem section_pages_mapped:
  assumes "page_aligned a" "unat e + 4096 < 2 ^ 64"
  shows "\<exists>fs. map_section_pages bi a e flags s = foldM (\<lambda>f. identity_map_page bi f flags) fs s \<and>
    set fs = {get_frame_for_addr x | x. a \<le> x \<and> x < e} \<and> distinct fs \<and>
    (page_aligned e \<longrightarrow> get_frame_for_addr e \<notin> set fs)"
proof (intro exI conjI)
  show "map_section_pages bi a e flags s =
      foldM (\<lambda>f. identity_map_page bi f flags) (page_steps a (section_page_count a e)) s"
    by (rule map_section_pages_loop [OF assms(2)])
  show "set (page_steps a (section_page_count a e)) = {get_frame_for_addr x | x. a \<le> x \<and> x < e}"
    unfolding set_eq_iff using section_steps_set [OF assms] by auto
  show "distinct (page_steps a (section_page_count a e))"
  proof -
    have "unat a + 4096 * k < 2 ^ 64" if "k < section_page_count a e" for k
      using that assms(2) unat64_lt [of a] by (simp add: section_page_count_def)
    then have "unat (get_frame_for_addr (a + 4096 * of_nat k)) = unat a div 4096 + k"
      if "k < section_page_count a e" for k
      using that unat_page_step [of a k] by (simp add: unat_get_frame)
    then show ?thesis
      by (auto simp: page_steps_def distinct_map inj_on_def atLeast0LessThan) (metis add_left_cancel)
  qed
  show "page_aligned e \<longrightarrow> get_frame_for_addr e \<notin> set (page_steps a (section_page_count a e))"
  proof (intro impI notI)
    assume e: "page_aligned e" and "get_frame_for_addr e \<in> set (page_steps a (section_page_count a e))"
    then obtain x where "x < e" "get_frame_for_addr x = get_frame_for_addr e"
      using section_steps_set [OF assms] by blast
    moreover obtain b where "unat e = 4096 * b" by (rule page_aligned_unat [OF e])
    ultimately show False using unat_get_frame [of x] unat_get_frame [of e] by (simp add: word_less_nat_alt)
  qed
qed

theorem section_pages_mapped_witness:
  "\<exists>fs. map_section_pages sample_image 0x5000 0x6000 present_bit (sample_machine 0) =
      foldM (\<lambda>f. identity_map_page sample_image f present_bit) fs (sample_machine 0) \<and> get_frame_for_addr 0x6000 \<notin> set fs"
proof -
  have "page_aligned 0x5000" "page_aligned 0x6000" by (simp_all add: page_aligned_def)
  then show ?thesis
    using section_pages_mapped [of "0x5000" "0x6000" sample_image present_bit "sample_machine 0"] by fastforce
qed

text \<open>The loop over the boot information starts at its first byte and steps by a page up to eight times
  its size. When the information is shorter than 512 bytes only the frame of its first byte is
  mapped, even where the information crosses into the next page.\<close>

theorem boot_pages_missed:
  assumes "unat (total_size_at bi (md_start d)) < 512" "unat (md_start d) + 8192 < 2 ^ 64"
  shows "map_boot_pages bi (md_start d) (boot_last bi d) s =
      identity_map_page bi (get_frame_for_addr (md_start d)) (present_bit OR no_exec_bit) s"
proof -
  let ?a = "md_start d" and ?n = "unat (total_size_at bi (md_start d))"
  have "unat (8 * ucast (total_size_at bi ?a) :: u64) = 8 * ?n"
    using assms(1) by (simp add: unat_word_ariths unat_ucast32)
  then have l: "unat (boot_last bi d) = unat ?a + 8 * ?n"
    using assms unat_plus64 [of ?a "8 * ucast (total_size_at bi ?a)"] by (simp add: boot_last_def)
  then have "boot_page_count ?a (boot_last bi d) = Suc 0"
    using assms(1) by (simp add: boot_page_count_def word_le_nat_alt)
  then show ?thesis
    using map_boot_pages_loop [of "boot_last bi d" bi ?a s] l assms by (simp add: page_steps_Suc)
qed

theorem boot_pages_missed_witness:
  "let bi = bytes_mem 0x1F00 (le32 400); d = \<lparr>md_start = 0x1F00, md_memory_map = 0, md_elf_symbols = 0\<rparr>
   in map_boot_pages bi (md_start d) (boot_last bi d) (sample_machine 0) =
        identity_map_page bi 1 (present_bit OR no_exec_bit) (sample_machine 0) \<and>
      get_frame_for_addr (md_start d + ucast (total_size_at bi (md_start d)) - 1) = 2"
proof -
  have t: "total_size_at (bytes_mem 0x1F00 (le32 400)) 0x1F00 = 400"
    by (simp add: total_size_at_def load_eval)
  show ?thesis
    using boot_pages_missed [of "bytes_mem 0x1F00 (le32 400)" "\<lparr>md_start = 0x1F00, md_memory_map = 0, md_elf_symbols = 0\<rparr>"
        "sample_machine 0"]
    by (simp add: t Let_def) (simp add: get_frame_for_addr_def PAGE_SIZE_def)
qed

end
