(* ===== verification/Window.thy ===== *)
theory Window
  imports Remap
begin

text \<open>
  Building new page tables through a window. While \<open>remap_kernel\<close> runs, the last entry of the
  old root points at the new one, so that the recursive region shows the new tables although
  the processor still translates through the old ones. The lemmas show that page mapping
  behaves in such a window as it does on a machine whose root is the new table, that the
  old tables are not touched, and which pages the loops of \<open>remap_kernel\<close> map.
\<close>

section \<open>Stores that leave a tree of tables alone\<close>

lemma tables_ofI: "table_path q \<Longrightarrow> table_at s q = Some t \<Longrightarrow> t \<in> tables_of s"
  by (auto simp: tables_of_def)

lemma tables_aligned: "page_aligned (root s) \<Longrightarrow> t \<in> tables_of s \<Longrightarrow> page_aligned t"
  by (auto simp: tables_of_def table_at_def dest: follow_aligned)

lemma root_in_tables: "root s \<in> tables_of s"
  using tables_ofI [of "[]" s "root s"] by simp

text \<open>The entries of the tables of a machine agree, apart from the recursive one.\<close>

definition same_entries :: "machine \<Rightarrow> machine \<Rightarrow> bool" where
  "same_entries s s' \<longleftrightarrow> msr s' = msr s \<and> root s' = root s \<and>
     (\<forall>t i. t \<in> tables_of s \<longrightarrow> i < 512 \<longrightarrow> \<not> (t = root s \<and> i = 511) \<longrightarrow> entry_at (phys s') t i = entry_at (phys s) t i)"

lemma same_entries_nx: "same_entries s s' \<Longrightarrow> nx_enabled s' = nx_enabled s"
  by (simp add: same_entries_def nx_enabled_def)

lemma same_entry:
  assumes "same_entries s s'" "tree_ok (nx_enabled s) (phys s) (root s)" "table_path (p @ [i])" "table_at s p = Some t"
  shows "entry_at (phys s') t i = entry_at (phys s) t i"
proof -
  have p: "table_path p" "i < 512" using table_path_prefix [OF assms(3)] table_path_snoc [OF assms(3)] .
  have "\<not> (t = root s \<and> i = 511)"
    using tree_ok_inj [OF assms(2) p(1), of "[]" t] assms(3,4) by (auto simp: table_path_def table_at_def)
  then show ?thesis using assms(1) p tables_ofI [OF p(1) assms(4)] by (simp add: same_entries_def)
qed

lemma same_entries_tables:
  assumes "same_entries s s'" "tree_ok (nx_enabled s) (phys s) (root s)" "table_path q"
  shows "table_at s' q = table_at s q"
  using assms(3)
proof (induction q rule: rev_induct)
  case Nil
  then show ?case using assms(1) by (simp add: same_entries_def)
next
  case (snoc i q)
  have IH: "table_at s' q = table_at s q" using snoc.IH table_path_prefix [OF snoc.prems] by blast
  show ?case
  proof (cases "table_at s q")
    case (Some t)
    then show ?thesis
      using IH same_entry [OF assms(1,2) snoc.prems Some] same_entries_nx [OF assms(1)]
      by (simp add: table_at_def follow_snoc)
  qed (use IH in \<open>simp add: table_at_def follow_append\<close>)
qed

lemma same_entries_walk:
  assumes s: "same_entries s s'" "tree_ok (nx_enabled s) (phys s) (root s)" and v: "index 4 v \<noteq> 511"
    and lvl: "lvl \<le> 4" "table_at s (path_to lvl v) = Some t"
  shows "walk (nx_enabled s') lvl (phys s') t v = walk (nx_enabled s) lvl (phys s) t v"
  using lvl
proof (induction lvl arbitrary: t)
  case (Suc lvl)
  let ?j = "index (Suc lvl) v"
  have lt: "lvl < 4" using Suc.prems(1) by simp
  have p: "table_path (path_to (Suc lvl) v)" using Suc.prems(1) v by (intro table_path_to) simp_all
  have e: "entry_at (phys s') t ?j = entry_at (phys s) t ?j"
  proof (cases "t = root s \<and> ?j = 511")
    case True
    then have "path_to (Suc lvl) v = []"
      using tree_ok_inj [OF s(2) p table_path_Nil] Suc.prems(2) by (simp add: table_at_def)
    then have "Suc lvl = 4" using length_path_to [of "Suc lvl" v] lt by simp
    then show ?thesis using True v by simp
  next
    case False
    then show ?thesis
      using s(1) tables_ofI [OF p Suc.prems(2)] by (simp add: same_entries_def)
  qed
  have "walk (nx_enabled s') lvl (phys s') (entry_addr (entry_at (phys s) t ?j)) v =
      walk (nx_enabled s) lvl (phys s) (entry_addr (entry_at (phys s) t ?j)) v"
    if "entry_ok (nx_enabled s) (entry_at (phys s) t ?j)" "\<not> is_huge (entry_at (phys s) t ?j)"
    using Suc.IH lt Suc.prems(2) that by (simp add: path_to_Suc table_at_def follow_snoc)
  moreover have "walk (nx_enabled s') lvl (phys s') u v = walk (nx_enabled s) lvl (phys s) u v" if "lvl = 0" for u
    using that by simp
  ultimately show ?case
    unfolding walk.simps Let_def e same_entries_nx [OF s(1)] by auto
qed simp

lemma same_entries_mmu:
  assumes "same_entries s s'" "tree_ok (nx_enabled s) (phys s) (root s)" "index 4 v \<noteq> 511"
  shows "mmu s' v = mmu s v"
  using same_entries_walk [OF assms, of 4 "root s"] assms(1) by (simp add: mmu_def same_entries_def)

lemma same_entries_tree:
  assumes "same_entries s s'" "tree_ok (nx_enabled s) (phys s) (root s)"
  shows "tree_ok (nx_enabled s') (phys s') (root s')" "tables_of s' = tables_of s"
proof -
  have at: "table_at s' q = table_at s q" if "table_path q" for q
    by (rule same_entries_tables [OF assms that])
  then show "tables_of s' = tables_of s" by (auto simp: tables_of_def)
  have "root s' = root s" using assms(1) by (simp add: same_entries_def)
  then show "tree_ok (nx_enabled s') (phys s') (root s')"
    using assms(2) at unfolding tree_ok_def table_at_def [symmetric] by auto
qed

lemma same_entries_trans:
  "same_entries s s' \<Longrightarrow> tree_ok (nx_enabled s) (phys s) (root s) \<Longrightarrow> same_entries s' s'' \<Longrightarrow> same_entries s s''"
  using same_entries_tree(2) [of s s'] by (simp add: same_entries_def)

lemma same_entries_way:
  assumes "same_entries s s'" "tree_ok (nx_enabled s) (phys s) (root s)" "index 4 v \<noteq> 511" "way_clear s v"
  shows "way_clear s' v"
  unfolding way_clear_iff
proof (intro allI impI)
  fix p i q u
  assume a: "path_to 1 v = p @ i # q" "table_at s' p = Some u" "bit (entry_at (phys s') u i) 0"
  have "table_path (path_to 1 v)" using table_path_to [of 1 v] assms(3) by simp
  then have p: "table_path (p @ [i])" using a(1) table_path_prefix [of "p @ [i]" q] by simp
  have u: "table_at s p = Some u"
    using same_entries_tables [OF assms(1,2) table_path_prefix [OF p]] a(2) by simp
  have e: "entry_at (phys s') u i = entry_at (phys s) u i" by (rule same_entry [OF assms(1,2) p u])
  show "entry_ok (nx_enabled s') (entry_at (phys s') u i) \<and> \<not> is_huge (entry_at (phys s') u i)"
    using way_clearD [OF assms(4) a(1) u] a(3) unfolding e same_entries_nx [OF assms(1)] by blast
qed

lemma same_entries_last:
  assumes "same_entries s s'" "tree_ok (nx_enabled s) (phys s) (root s)" "index 4 v \<noteq> 511"
  shows "last_entry s' v = last_entry s v"
proof -
  have p: "table_path (path_to 1 v)" using table_path_to [of 1 v] assms(3) by simp
  have at: "table_at s' (path_to 1 v) = table_at s (path_to 1 v)" by (rule same_entries_tables [OF assms(1,2) p])
  show ?thesis
  proof (cases "table_at s (path_to 1 v)")
    case (Some t)
    have "t \<noteq> root s"
    proof
      assume "t = root s"
      then have "path_to 1 v = []" using tree_ok_inj [OF assms(2) p table_path_Nil] Some by (simp add: table_at_def)
      then show False using length_path_to [of 1 v] by simp
    qed
    then have "entry_at (phys s') t (index 1 v) = entry_at (phys s) t (index 1 v)"
      using assms(1) tables_ofI [OF p Some] by (simp add: same_entries_def)
    then show ?thesis using at Some by (simp add: last_entry_def del: One_nat_def)
  qed (simp add: last_entry_def at del: One_nat_def)
qed

lemma same_entries_paging:
  assumes "same_entries s s'" "paging_ok bi s" "frames s' = frames s"
    and "recursive (nx_enabled s') (phys s') (root s')"
    and "\<And>t i. t \<in> pool_addrs bi s \<Longrightarrow> i < 512 \<Longrightarrow> entry_at (phys s') t i = entry_at (phys s) t i"
  shows "paging_ok bi s'"
proof -
  have tree: "tree_ok (nx_enabled s) (phys s) (root s)"
    using paging_okD(1) [OF assms(2)] by (simp add: tables_ok_def)
  have "blank_table (phys s') (get_frame_start_addr f)" if "f \<in> frame_pool bi (frames s)" for f
    using paging_okD(4) [OF assms(2) that] assms(5) that by (simp add: blank_table_def pool_addrs_def)
  then show ?thesis
    using same_entries_tree(1) [OF assms(1) tree] same_entries_tables [OF assms(1) tree] paging_okD [OF assms(2)] assms(3,4)
    by (auto simp: paging_ok_def tables_ok_def allocator_ready_def)
qed

text \<open>A store into a page that holds no table of the tree, or into the recursive entry.\<close>

lemma same_entries_store:
  assumes al: "page_aligned (root s)" "page_aligned t" "i < 512" and t: "t \<notin> tables_of s \<or> t = root s \<and> i = 511"
    and s': "msr s' = msr s" "root s' = root s" "phys s' = st64 (phys s) (t + 8 * i) x"
  shows "same_entries s s'"
  unfolding same_entries_def
proof (intro conjI allI impI)
  fix u j :: u64
  assume "u \<in> tables_of s" "j < 512" "\<not> (u = root s \<and> j = 511)"
  then show "entry_at (phys s') u j = entry_at (phys s) u j"
    using entry_at_store [OF al(2) tables_aligned [OF al(1), of u] al(3), of j] t by (auto simp: s'(3))
qed (use s' in simp_all)

text \<open>Tables that exist on a clear way to a translated address.\<close>

lemma mapped_table:
  assumes "way_clear s v" "mmu s v \<noteq> None"
  shows "\<exists>t. table_at s (path_to 1 v) = Some t"
proof -
  have step: "\<exists>u. table_at s (path_to lvl v) = Some u"
    if lvl: "1 \<le> lvl" "lvl < 4" and t: "table_at s (path_to (Suc lvl) v) = Some t" for lvl t
  proof -
    let ?e = "entry_at (phys s) t (index (Suc lvl) v)"
    have "path_to 1 v = path_to lvl v @ drop (4 - lvl) (path_to 1 v)"
      using lvl by (elim level_cases) (simp_all add: path_to_def eval_nat_numeral)
    then have way: "path_to 1 v = path_to (Suc lvl) v @ index (Suc lvl) v # drop (4 - lvl) (path_to 1 v)"
      using path_to_Suc [OF lvl(2), of v] by simp
    have "walk (nx_enabled s) 4 (phys s) (root s) v = walk (nx_enabled s) (Suc lvl) (phys s) t v"
      using lvl(2) t by (intro walk_follow) (simp_all add: table_at_def)
    then have "entry_ok (nx_enabled s) ?e" using assms(2) by (auto simp: mmu_def Let_def split: if_splits)
    then have "entry_ok (nx_enabled s) ?e \<and> \<not> is_huge ?e"
      using way_clearD [OF assms(1) way t] by (simp add: entry_ok_def)
    then show ?thesis using lvl(2) t by (simp add: path_to_Suc table_at_def follow_snoc)
  qed
  have "\<exists>u. table_at s (path_to 3 v) = Some u" using step [of 3 "root s"] by simp
  then have "\<exists>u. table_at s (path_to 2 v) = Some u" using step [of 2] by (auto simp: numeral_3_eq_3 numeral_2_eq_2)
  then show ?thesis using step [of 1] by (auto simp: numeral_2_eq_2)
qed


section \<open>Windows\<close>

text \<open>
  The machine with the new table as its root. In a window the two machines see the same
  recursive region, so that operations that use only that region run alike.
\<close>

abbreviation at_root :: "u64 \<Rightarrow> machine \<Rightarrow> machine" where
  "at_root F s \<equiv> s\<lparr>cr3 := F\<rparr>"

lemma at_root_views [simp]:
  "phys (at_root F s) = phys s" "nx_enabled (at_root F s) = nx_enabled s" "frames (at_root F s) = frames s"
  "root (at_root F s) = entry_addr F" "pool_addrs bi (at_root F s) = pool_addrs bi s"
  by (simp_all add: nx_enabled_def root_def pool_addrs_def)

lemma page_aligned_root [simp]: "page_aligned (root s)"
  by (simp add: root_def)

definition window :: "mem \<Rightarrow> machine \<Rightarrow> u64 \<Rightarrow> bool" where
  "window bi s F \<longleftrightarrow> entry_addr F = F \<and> paging_ok bi (at_root F s) \<and> hangs (nx_enabled s) (entry_at (phys s) (root s) 511) F \<and>
     root s \<notin> tables_of (at_root F s) \<union> pool_addrs bi s \<and> (\<forall>v. index 4 v \<noteq> 511 \<longrightarrow> way_clear (at_root F s) v)"

lemma windowD:
  assumes "window bi s F"
  shows "entry_addr F = F" "paging_ok bi (at_root F s)" "hangs (nx_enabled s) (entry_at (phys s) (root s) 511) F"
    "root s \<notin> tables_of (at_root F s) \<union> pool_addrs bi s" "index 4 v \<noteq> 511 \<Longrightarrow> way_clear (at_root F s) v"
    "recursive (nx_enabled s) (phys s) F"
proof -
  show *: "entry_addr F = F" "paging_ok bi (at_root F s)" "hangs (nx_enabled s) (entry_at (phys s) (root s) 511) F"
    "root s \<notin> tables_of (at_root F s) \<union> pool_addrs bi s" "index 4 v \<noteq> 511 \<Longrightarrow> way_clear (at_root F s) v"
    using assms by (simp_all add: window_def)
  have "recursive (nx_enabled s) (phys s) (entry_addr F)"
    using *(2) by (simp add: paging_ok_def tables_ok_def)
  then show "recursive (nx_enabled s) (phys s) F" unfolding *(1) .
qed

text \<open>What the access to the recursive region depends on.\<close>

definition windowed :: "machine \<Rightarrow> u64 \<Rightarrow> bool" where
  "windowed s F \<longleftrightarrow> entry_addr F = F \<and> hangs (nx_enabled s) (entry_at (phys s) (root s) 511) F \<and>
     hangs (nx_enabled s) (entry_at (phys s) F 511) F"

lemma window_windowed: "window bi s F \<Longrightarrow> windowed s F"
  using windowD [of bi s F] by (simp add: windowed_def recursive_def)

lemma mmu_window:
  assumes "windowed s F" "index 4 v = 511"
  shows "mmu (at_root F s) v = mmu s v"
proof -
  have "walk nx 4 m r v = walk nx 3 m F v" if "hangs nx (entry_at m r 511) F" for nx m r
    using that assms(2) by (simp add: eval_nat_numeral hangs_def Let_def)
  then show ?thesis using assms(1) by (simp add: mmu_def windowed_def)
qed

lemma vload_window: "windowed s F \<Longrightarrow> index 4 v = 511 \<Longrightarrow> vload (at_root F s) v = vload s v"
  by (simp add: vload_def mmu_window split: option.split)

lemma vstore_window:
  "windowed s F \<Longrightarrow> index 4 v = 511 \<Longrightarrow> vstore (at_root F s) v x = ret s' \<Longrightarrow> vstore s v x = ret (at_root (cr3 s) s')"
  by (auto simp: vstore_def mmu_window split: option.splits)

lemma index_vtable: "table_path p \<Longrightarrow> i < 512 \<Longrightarrow> index 4 (vtable p + 8 * i) = 511"
proof -
  assume p: "table_path p" "i < 512"
  have "length p \<le> 3" using p(1) by (simp add: table_path_def)
  then have "hd (path_to 0 (vtable p)) = 511" unfolding vtable_path [OF p(1)] by (cases "4 - length p") simp_all
  then have "index 4 (vtable p) = 511" by (simp add: path_to_def)
  then show ?thesis using p(2) by (simp add: index_slot)
qed

lemma descend_window:
  "windowed s F \<Longrightarrow> table_path p \<Longrightarrow> i < 512 \<Longrightarrow>
     descened_page_table (vtable p) i (at_root F s) = descened_page_table (vtable p) i s"
  by (simp add: descened_page_table_def vload_window index_vtable)

lemma set_entry_window:
  assumes "windowed s F" "table_path p" "i < 512" "set_page_table_entry (vtable p + 8 * i) f flags (at_root F s) = ret s'"
  shows "set_page_table_entry (vtable p + 8 * i) f flags s = ret (at_root (cr3 s) s')"
  using assms(4) vstore_window [OF assms(1) index_vtable [OF assms(2,3)]]
  by (auto simp: set_page_table_entry_def obind_eq_ret)

lemma at_root_id [simp]: "at_root (cr3 s) s = s"
  by simp

lemma get_next_window:
  assumes w: "windowed s F" and p: "table_path p" "ucast idx < (512 :: u64)"
    and run: "get_next_page_table_or_create bi (vtable p) idx (at_root F s) = ret (u, s')"
    and w': "windowed (at_root (cr3 s) s') F" "cr3 s' = F"
  shows "get_next_page_table_or_create bi (vtable p) idx s = ret (u, at_root (cr3 s) s')"
proof -
  note desc = descend_window [OF w p]
  have same: "at_root F (at_root (cr3 s) s') = s'" using w'(2) by simp
  have desc': "descened_page_table (vtable p) (ucast idx) s' = descened_page_table (vtable p) (ucast idx) (at_root (cr3 s) s')"
    using descend_window [OF w'(1) p] unfolding same .
  obtain tbl where tbl: "descened_page_table (vtable p) (ucast idx) s = ret tbl"
    using run unfolding get_next_page_table_or_create_def desc by (auto simp: obind_eq_ret)
  show ?thesis
  proof (cases "tbl = 0")
    case False
    then show ?thesis using run tbl by (auto simp: get_next_page_table_or_create_def desc)
  next
    case True
    obtain c f al t where al: "allocate_frame bi (frames s, tty s) = ret (c, f, al, t)"
      using run tbl True by (auto simp: get_next_page_table_or_create_def desc alloc_frame_def obind_eq_ret)
    let ?s1 = "s\<lparr>frames := al, tty := t\<rparr>"
    have comm: "(at_root F s)\<lparr>frames := al, tty := t\<rparr> = at_root F ?s1" by simp
    have w1: "windowed ?s1 F" using w by (simp add: windowed_def)
    show ?thesis
    proof (cases "c = 0")
      case c: True
      obtain s2 where s2: "set_page_table_entry (vtable p + 8 * ucast idx) f (present_bit OR writeable_bit) (at_root F ?s1) = ret s2"
        "flush_tlb s2 = s'" "descened_page_table (vtable p) (ucast idx) s' = ret u"
        using run tbl True al c
        by (auto simp: get_next_page_table_or_create_def desc alloc_frame_def entry_ptr_def obind_eq_ret comm)
      moreover have "flush_tlb (at_root (cr3 s) s2) = at_root (cr3 s) s'"
        using s2(2) by (auto simp: flush_tlb_drops)
      ultimately show ?thesis
        using set_entry_window [OF w1 p s2(1)] tbl True al c desc'
        by (simp add: get_next_page_table_or_create_def alloc_frame_def entry_ptr_def)
    next
      case c: False
      then show ?thesis
        using run tbl True al desc'
        by (auto simp: get_next_page_table_or_create_def desc alloc_frame_def obind_eq_ret)
    qed
  qed
qed

text \<open>An operation on the new tables keeps the window open.\<close>

lemma window_grows:
  assumes w: "window bi s F" and g: "grows bi (at_root F s) s'" and ok: "paging_ok bi s'"
  shows "window bi (at_root (cr3 s) s') F" "cr3 s' = F" "root (at_root (cr3 s) s') = root s"
proof -
  note d = windowD [OF w] and gd = growsD [OF g]
  show c: "cr3 s' = F" using gd(1) by simp
  show r: "root (at_root (cr3 s) s') = root s" by (simp add: root_def)
  have b: "at_root F (at_root (cr3 s) s') = s'" using c by simp
  have nx: "nx_enabled s' = nx_enabled s" using gd(2) by (simp add: nx_enabled_def)
  have out: "root s \<notin> tables_of (at_root F s) \<union> pool_addrs bi (at_root F s)" using d(4) by simp
  then have e: "entry_at (phys s') (root s) 511 = entry_at (phys s) (root s) 511"
    using gd(6) unfolding keeps_others_def by simp
  have "root s \<notin> tables_of s' \<union> pool_addrs bi s'" using gd(3,4) out by blast
  moreover have "way_clear s' v" if "index 4 v \<noteq> 511" for v
    using d(5) [OF that] gd(7) that by (simp add: keeps_ways_def)
  ultimately show "window bi (at_root (cr3 s) s') F"
    using d(1,3) ok e nx unfolding window_def b r by (simp add: pool_addrs_def)
qed

text \<open>Mapping a page through a window.\<close>

lemma map_window:
  assumes w: "window bi s F" and v: "canonical v" "index 4 v \<noteq> 511"
    and pool: "k + 3 \<le> card (frame_pool bi (frames s))" and f: "unat f < 2 ^ 40" "flags_ok s flags"
  shows "\<exists>s'. map_page_to_frame bi (v div PAGE_SIZE) f flags s = ret (at_root (cr3 s) s') \<and> paging_ok bi s' \<and>
    grows bi (at_root F s) s' \<and> k \<le> card (frame_pool bi (frames s')) \<and>
    (\<forall>u. u div PAGE_SIZE = v div PAGE_SIZE \<longrightarrow> mmu s' u = Some (get_frame_start_addr f + u mod PAGE_SIZE)) \<and>
    (\<forall>u. index 4 u \<noteq> 511 \<longrightarrow> u div PAGE_SIZE \<noteq> v div PAGE_SIZE \<longrightarrow> mmu s' u = mmu (at_root F s) u) \<and>
    (\<forall>u. u div PAGE_SIZE = v div PAGE_SIZE \<longrightarrow> last_entry s' u = entry_for f (present_bit OR flags)) \<and>
    (\<forall>u. canonical u \<longrightarrow> index 4 u \<noteq> 511 \<longrightarrow> u div PAGE_SIZE \<noteq> v div PAGE_SIZE \<longrightarrow>
       last_entry s' u = last_entry (at_root F s) u)"
proof -
  let ?n = "at_root F s"
  note d = windowD [OF w]
  have way: "way_clear ?n v" by (rule d(5) [OF v(2)])
  have fl: "flags_ok ?n flags" using f(2) by (simp add: flags_ok_def)
  have p: "table_path [index 4 v]" "table_path [index 4 v, index 3 v]" "table_path (path_to 1 v)"
    using v(2) table_path_to [of 1 v] by (simp_all add: table_path_def)
  have idx: "ucast (get_p4_index (v div PAGE_SIZE)) < (512 :: u64)" "ucast (get_p3_index (v div PAGE_SIZE)) < (512 :: u64)"
    "ucast (get_p2_index (v div PAGE_SIZE)) < (512 :: u64)"
    by (simp_all add: page_indices)
  obtain s1 s2 s3 t where go:
    "get_next_page_table_or_create bi p4_table (get_p4_index (v div PAGE_SIZE)) ?n = ret (vtable [index 4 v], s1)"
    "get_next_page_table_or_create bi (vtable [index 4 v]) (get_p3_index (v div PAGE_SIZE)) s1 =
      ret (vtable [index 4 v, index 3 v], s2)"
    "get_next_page_table_or_create bi (vtable [index 4 v, index 3 v]) (get_p2_index (v div PAGE_SIZE)) s2 =
      ret (vtable (path_to 1 v), s3)"
    "paging_ok bi s3" "table_at s3 (path_to 1 v) = Some t" "nx_enabled s3 = nx_enabled ?n" "same_translation ?n s3"
    "k \<le> card (frame_pool bi (frames s3))" "frame_pool bi (frames s3) \<subseteq> frame_pool bi (frames ?n)"
    "paging_ok bi s1" "paging_ok bi s2" "grows bi ?n s1" "grows bi s1 s2" "grows bi s2 s3"
    using reach_last_table [OF d(2) v(2) way, of k] pool by auto
  let ?b = "at_root (cr3 s)"
  note w1 = window_grows [OF w go(12,10)]
  have b1: "at_root F (?b s1) = s1" "cr3 (?b s1) = cr3 s" using w1(2) by simp_all
  note w2 = window_grows [OF w1(1), unfolded b1, OF go(13,11)]
  have b2: "at_root F (?b s2) = s2" "cr3 (?b s2) = cr3 s" using w2(2) by simp_all
  note w3 = window_grows [OF w2(1), unfolded b2, OF go(14,4)]
  have b3: "at_root F (?b s3) = s3" "cr3 (?b s3) = cr3 s" using w3(2) by simp_all
  define s' where "s' = s3\<lparr>phys := st64 (phys s3) (t + 8 * index 1 v) (entry_for f (present_bit OR flags))\<rparr>"
  have r1: "get_next_page_table_or_create bi p4_table (get_p4_index (v div PAGE_SIZE)) s = ret (vtable [index 4 v], ?b s1)"
    using get_next_window [OF window_windowed [OF w] table_path_Nil idx(1), of bi "vtable [index 4 v]" s1]
      go(1) window_windowed [OF w1(1)] w1(2) by simp
  have r2: "get_next_page_table_or_create bi (vtable [index 4 v]) (get_p3_index (v div PAGE_SIZE)) (?b s1) =
      ret (vtable [index 4 v, index 3 v], ?b s2)"
    using get_next_window [OF window_windowed [OF w1(1)] p(1) idx(2), unfolded b1, OF go(2) window_windowed [OF w2(1)] w2(2)] .
  have r3: "get_next_page_table_or_create bi (vtable [index 4 v, index 3 v]) (get_p2_index (v div PAGE_SIZE)) (?b s2) =
      ret (vtable (path_to 1 v), ?b s3)"
    using get_next_window [OF window_windowed [OF w2(1)] p(2) idx(3), unfolded b2, OF go(3) window_windowed [OF w3(1)] w3(2)] .
  have set: "set_page_table_entry (vtable (path_to 1 v) + 8 * index 1 v) f (present_bit OR flags) s3 = ret s'"
    unfolding s'_def by (rule set_entry_table [OF paging_okD(1) [OF go(4)] p(3) go(5) index_lt])
  have r4: "set_page_table_entry (vtable (path_to 1 v) + 8 * index 1 v) f (present_bit OR flags) (?b s3) = ret (?b s')"
    using set_entry_window [OF window_windowed [OF w3(1)] p(3) index_lt, unfolded b3, OF set] .
  have "map_page_to_frame bi (v div PAGE_SIZE) f flags s = ret (?b s')"
    unfolding map_page_to_frame_def r1 by (simp add: r2 r3 r4 entry_ptrs del: One_nat_def)
  moreover have "map_page_to_frame bi (v div PAGE_SIZE) f flags ?n = ret s'"
    unfolding map_page_to_frame_def go(1) by (simp add: go(2,3) set entry_ptrs del: One_nat_def)
  ultimately show ?thesis
    using map_page_to_frame_ok [OF d(2) v way, of k f flags] pool f(1) fl by auto
qed


section \<open>Identity mapping through a window\<close>

definition low_frame :: "frame \<Rightarrow> bool" where
  "low_frame f \<longleftrightarrow> unat f < 2 ^ 35"

lemma low_address:
  assumes "unat v < 2 ^ 47"
  shows "canonical v" "index 4 v \<noteq> 511" "low_frame (v div PAGE_SIZE)"
proof -
  show "canonical v" using assms by (intro canonical_low) (simp add: word_less_nat_alt)
  have "unat (index 4 v) = unat v div 2 ^ 39 mod 512"
    by (simp add: index_def take_bit_eq_mod drop_bit_eq_div unat_mod unat_div)
  moreover have "unat v div 2 ^ 39 < 256" using assms by simp
  ultimately have "unat (index 4 v) < 256" by simp
  then show "index 4 v \<noteq> 511" by auto
  show "low_frame (v div PAGE_SIZE)" using assms by (simp add: low_frame_def PAGE_SIZE_def unat_div)
qed

lemma unat_frame_start: "unat f < 2 ^ 40 \<Longrightarrow> unat (get_frame_start_addr f) = 4096 * unat f"
  by (simp add: get_frame_start_addr_def PAGE_SIZE_def unat_word_ariths)

lemma low_frame_start:
  assumes "low_frame f"
  shows "unat f < 2 ^ 40" "unat (get_frame_start_addr f) < 2 ^ 47" "get_frame_start_addr f div PAGE_SIZE = f"
proof -
  show f: "unat f < 2 ^ 40" using assms by (simp add: low_frame_def)
  show "unat (get_frame_start_addr f) < 2 ^ 47" using assms unat_frame_start [OF f] by (simp add: low_frame_def)
  have "unat (get_frame_start_addr f div PAGE_SIZE) = unat f"
    using unat_frame_start [OF f] by (simp add: PAGE_SIZE_def unat_div)
  then show "get_frame_start_addr f div PAGE_SIZE = f" by (rule unsigned_word_eqI)
qed

lemma page_and_offset: "get_frame_start_addr (v div PAGE_SIZE) + v mod PAGE_SIZE = v"
  using word_mod_div_equality [of v PAGE_SIZE] by (simp add: get_frame_start_addr_def mult.commute)

text \<open>Pages that are given the same flags.\<close>

definition with_flags :: "page set \<Rightarrow> u64 \<Rightarrow> page \<Rightarrow> u64 option" where
  "with_flags P flags = (\<lambda>p. if p \<in> P then Some flags else None)"

lemma with_flags_app: "with_flags P flags p = (if p \<in> P then Some flags else None)"
  by (simp add: with_flags_def)

lemma dom_with_flags [simp]: "dom (with_flags P flags) = P"
  by (auto simp: with_flags_def dom_def)

lemma with_flags_empty [simp]: "with_flags {} flags = Map.empty"
  by (simp add: with_flags_def)

lemma with_flags_Un: "with_flags P flags ++ with_flags P' flags = with_flags (P \<union> P') flags"
  by (auto simp: with_flags_def map_add_def)

text \<open>
  The new tables gain the identity mapping of the pages of \<open>M\<close> with the flags it gives them,
  and up to three frames were taken for each of \<open>n\<close> calls.
\<close>

definition remaps :: "mem \<Rightarrow> u64 \<Rightarrow> nat \<Rightarrow> (page \<Rightarrow> u64 option) \<Rightarrow> machine \<Rightarrow> machine \<Rightarrow> bool" where
  "remaps bi F n M s s' \<longleftrightarrow> window bi s' F \<and> cr3 s' = cr3 s \<and> grows bi (at_root F s) (at_root F s') \<and>
     card (frame_pool bi (frames s)) \<le> card (frame_pool bi (frames s')) + 3 * n \<and>
     (\<forall>v. index 4 v \<noteq> 511 \<longrightarrow>
        mmu (at_root F s') v = (if v div PAGE_SIZE \<in> dom M then Some v else mmu (at_root F s) v)) \<and>
     (\<forall>v. canonical v \<longrightarrow> index 4 v \<noteq> 511 \<longrightarrow>
        last_entry (at_root F s') v = (case M (v div PAGE_SIZE) of
          Some flags \<Rightarrow> entry_for (v div PAGE_SIZE) (present_bit OR flags) | None \<Rightarrow> last_entry (at_root F s) v))"

lemma remapsD:
  assumes "remaps bi F n M s s'"
  shows "window bi s' F" "cr3 s' = cr3 s" "grows bi (at_root F s) (at_root F s')" "nx_enabled s' = nx_enabled s"
    "card (frame_pool bi (frames s)) \<le> card (frame_pool bi (frames s')) + 3 * n"
    "index 4 v \<noteq> 511 \<Longrightarrow> mmu (at_root F s') v = (if v div PAGE_SIZE \<in> dom M then Some v else mmu (at_root F s) v)"
    "canonical v \<Longrightarrow> index 4 v \<noteq> 511 \<Longrightarrow> last_entry (at_root F s') v = (case M (v div PAGE_SIZE) of
       Some flags \<Rightarrow> entry_for (v div PAGE_SIZE) (present_bit OR flags) | None \<Rightarrow> last_entry (at_root F s) v)"
  using assms growsD(2) [of bi "at_root F s" "at_root F s'"] by (simp_all add: remaps_def nx_enabled_def)

lemma remaps_refl: "window bi s F \<Longrightarrow> remaps bi F 0 Map.empty s s"
  by (simp add: remaps_def grows_refl)

lemma remaps_trans:
  assumes "remaps bi F n M s s'" "remaps bi F n' M' s' s''"
  shows "remaps bi F (n + n') (M ++ M') s s''"
proof -
  note a = remapsD [OF assms(1)] and b = remapsD [OF assms(2)]
  have "mmu (at_root F s'') v = (if v div PAGE_SIZE \<in> dom (M ++ M') then Some v else mmu (at_root F s) v)"
    if "index 4 v \<noteq> 511" for v
    using a(6) [OF that] b(6) [OF that] by auto
  moreover have "last_entry (at_root F s'') v = (case (M ++ M') (v div PAGE_SIZE) of
      Some flags \<Rightarrow> entry_for (v div PAGE_SIZE) (present_bit OR flags) | None \<Rightarrow> last_entry (at_root F s) v)"
    if "canonical v" "index 4 v \<noteq> 511" for v
    using a(7) [OF that] b(7) [OF that] by (simp add: map_add_def split: option.split)
  ultimately show ?thesis
    using a(2,5) b(1,2,5) grows_trans [OF a(3) b(3)] unfolding remaps_def by simp
qed

lemma window_tty [simp]:
  "window bi (s\<lparr>tty := t\<rparr>) F = window bi s F" "nx_enabled (s\<lparr>tty := t\<rparr>) = nx_enabled s" "root (s\<lparr>tty := t\<rparr>) = root s"
  "mmu (s\<lparr>tty := t\<rparr>) = mmu s" "tables_of (s\<lparr>tty := t\<rparr>) = tables_of s" "table_at (s\<lparr>tty := t\<rparr>) = table_at s"
  "pool_addrs bi (s\<lparr>tty := t\<rparr>) = pool_addrs bi s" "way_clear (s\<lparr>tty := t\<rparr>) = way_clear s"
  "paging_ok bi (s\<lparr>tty := t\<rparr>) = paging_ok bi s" "tables_ok (s\<lparr>tty := t\<rparr>) = tables_ok s"
  "last_entry (s\<lparr>tty := t\<rparr>) = last_entry s"
proof -
  show v: "nx_enabled (s\<lparr>tty := t\<rparr>) = nx_enabled s" "root (s\<lparr>tty := t\<rparr>) = root s" "mmu (s\<lparr>tty := t\<rparr>) = mmu s"
    "table_at (s\<lparr>tty := t\<rparr>) = table_at s" "pool_addrs bi (s\<lparr>tty := t\<rparr>) = pool_addrs bi s"
    "way_clear (s\<lparr>tty := t\<rparr>) = way_clear s" "tables_ok (s\<lparr>tty := t\<rparr>) = tables_ok s" for s
    by (simp_all add: nx_enabled_def root_def mmu_def table_at_def pool_addrs_def way_clear_def tables_ok_def fun_eq_iff)
  show "last_entry (s\<lparr>tty := t\<rparr>) = last_entry s"
    by (simp add: fun_eq_iff last_entry_def v split: option.split)
  show p: "paging_ok bi (s\<lparr>tty := t\<rparr>) = paging_ok bi s" for s
    by (simp add: paging_ok_def v allocator_ready_def)
  show o: "tables_of (s\<lparr>tty := t\<rparr>) = tables_of s" for s
    by (simp add: tables_of_def v)
  have swap: "at_root F (s\<lparr>tty := t\<rparr>) = (at_root F s)\<lparr>tty := t\<rparr>" by simp
  show "window bi (s\<lparr>tty := t\<rparr>) F = window bi s F"
    by (simp add: window_def swap v p o)
qed

lemma window_tlb [simp]:
  "window bi (s\<lparr>tlb := c\<rparr>) F = window bi s F" "tables_of (s\<lparr>tlb := c\<rparr>) = tables_of s"
  "pool_addrs bi (s\<lparr>tlb := c\<rparr>) = pool_addrs bi s" "way_clear (s\<lparr>tlb := c\<rparr>) = way_clear s"
  "last_entry (s\<lparr>tlb := c\<rparr>) = last_entry s"
proof -
  show v: "tables_of (s\<lparr>tlb := c\<rparr>) = tables_of s" "pool_addrs bi (s\<lparr>tlb := c\<rparr>) = pool_addrs bi s"
    "way_clear (s\<lparr>tlb := c\<rparr>) = way_clear s" for s
    by (simp_all add: tables_of_def pool_addrs_def way_clear_def fun_eq_iff)
  show "last_entry (s\<lparr>tlb := c\<rparr>) = last_entry s"
    by (simp add: fun_eq_iff last_entry_def split: option.split)
  have swap: "at_root F (s\<lparr>tlb := c\<rparr>) = (at_root F s)\<lparr>tlb := c\<rparr>" by simp
  show "window bi (s\<lparr>tlb := c\<rparr>) F = window bi s F"
    by (simp add: window_def swap v)
qed

lemma remaps_tty: "window bi s F \<Longrightarrow> remaps bi F 0 Map.empty s (s\<lparr>tty := t\<rparr>)"
proof -
  assume w: "window bi s F"
  have swap: "at_root F (s\<lparr>tty := t\<rparr>) = (at_root F s)\<lparr>frames := frames (at_root F s), tty := t\<rparr>" by simp
  have "grows bi (at_root F s) (at_root F (s\<lparr>tty := t\<rparr>))"
    unfolding swap by (rule alloc_grows) simp
  moreover have "mmu (at_root F (s\<lparr>tty := t\<rparr>)) = mmu (at_root F s)"
    "last_entry (at_root F (s\<lparr>tty := t\<rparr>)) = last_entry (at_root F s)"
    unfolding swap by simp_all
  ultimately show ?thesis using w by (simp add: remaps_def)
qed

lemma identity_map_window:
  assumes w: "window bi s F" and f: "low_frame f" and fl: "flags_ok s flags" and pool: "3 \<le> card (frame_pool bi (frames s))"
  shows "\<exists>s'. identity_map_page bi f flags s = ret s' \<and> remaps bi F 1 (with_flags {f} flags) s s'"
proof -
  let ?v = "get_frame_start_addr f"
  note lf = low_frame_start [OF f]
  note la = low_address [OF lf(2)]
  obtain k where k: "card (frame_pool bi (frames s)) = k + 3" using pool by (metis add.commute le_Suc_ex)
  obtain s' where s': "map_page_to_frame bi (?v div PAGE_SIZE) f flags s = ret (at_root (cr3 s) s')" "paging_ok bi s'"
    "grows bi (at_root F s) s'" "k \<le> card (frame_pool bi (frames s'))"
    "\<forall>u. u div PAGE_SIZE = ?v div PAGE_SIZE \<longrightarrow> mmu s' u = Some (get_frame_start_addr f + u mod PAGE_SIZE)"
    "\<forall>u. index 4 u \<noteq> 511 \<longrightarrow> u div PAGE_SIZE \<noteq> ?v div PAGE_SIZE \<longrightarrow> mmu s' u = mmu (at_root F s) u"
    "\<forall>u. u div PAGE_SIZE = ?v div PAGE_SIZE \<longrightarrow> last_entry s' u = entry_for f (present_bit OR flags)"
    "\<forall>u. canonical u \<longrightarrow> index 4 u \<noteq> 511 \<longrightarrow> u div PAGE_SIZE \<noteq> ?v div PAGE_SIZE \<longrightarrow>
       last_entry s' u = last_entry (at_root F s) u"
    using map_window [OF w la(1,2) _ lf(1) fl, of k] k by auto
  note g = window_grows [OF w s'(3,2)]
  have same: "at_root F (at_root (cr3 s) s') = s'" using g(2) by simp
  have "mmu s' u = Some u" if "u div PAGE_SIZE = f" for u
    using s'(5) that page_and_offset [of u] by (simp add: lf(3))
  then have "remaps bi F 1 (with_flags {f} flags) s (at_root (cr3 s) s')"
    using g(1) s'(3,4,6-8) k unfolding remaps_def same by (simp add: lf(3) with_flags_app)
  then show ?thesis
    using s'(1) by (auto simp: identity_map_page_def page_for_canonical [OF la(1)])
qed

lemma identity_map_list:
  assumes "window bi s F" "\<forall>f \<in> set fs. low_frame f" "flags_ok s flags" "3 * length fs \<le> card (frame_pool bi (frames s))"
  shows "\<exists>s'. foldM (\<lambda>f. identity_map_page bi f flags) fs s = ret s' \<and> remaps bi F (length fs) (with_flags (set fs) flags) s s'"
  using assms
proof (induction fs arbitrary: s)
  case Nil
  then show ?case by (simp add: remaps_refl)
next
  case (Cons f fs)
  obtain s1 where s1: "identity_map_page bi f flags s = ret s1" "remaps bi F 1 (with_flags {f} flags) s s1"
    using identity_map_window [of bi s F f flags] Cons.prems by auto
  note r = remapsD [OF s1(2)]
  have "flags_ok s1 flags" using Cons.prems(3) r(4) by (simp add: flags_ok_def)
  then obtain s2 where s2: "foldM (\<lambda>f. identity_map_page bi f flags) fs s1 = ret s2" "remaps bi F (length fs) (with_flags (set fs) flags) s1 s2"
    using Cons.IH [of s1] r(1,5) Cons.prems(2,4) by auto
  then show ?case using s1 remaps_trans [OF s1(2) s2(2)] by (auto simp: with_flags_Un)
qed

section \<open>The pages of the kernel\<close>

definition section_pages :: "multiboot_elf_section_header \<Rightarrow> page set" where
  "section_pages h =
     (if elf_section_is_allocated h then {x div PAGE_SIZE | x. sh_addr h \<le> x \<and> x < sh_addr h + sh_size h - 1} else {})"

definition boot_pages :: "mem \<Rightarrow> multiboot_data \<Rightarrow> page set" where
  "boot_pages bi d =
     {(md_start d + 4096 * of_nat k) div PAGE_SIZE | k. unat (md_start d) + 4096 * k \<le> unat (boot_last bi d)}"

definition kernel_section :: "mem \<Rightarrow> multiboot_data \<Rightarrow> nat \<Rightarrow> multiboot_elf_section_header" where
  "kernel_section bi d i = sectionheaders bi (md_elf_symbols d) (of_nat i)"

definition section_number :: "mem \<Rightarrow> multiboot_data \<Rightarrow> nat" where
  "section_number bi d = unat (elf_num bi (md_elf_symbols d))"

definition kernel_pages :: "mem \<Rightarrow> multiboot_data \<Rightarrow> page set" where
  "kernel_pages bi d =
     (\<Union>i \<in> {..<section_number bi d}. section_pages (kernel_section bi d i)) \<union> {0xb8} \<union> boot_pages bi d"

text \<open>The flags each page gets: where ranges share a page the last one decides.\<close>

definition sections_map :: "(nat \<Rightarrow> multiboot_elf_section_header) \<Rightarrow> nat list \<Rightarrow> page \<Rightarrow> u64 option" where
  "sections_map h is = foldr (\<lambda>i M. with_flags (section_pages (h i)) (section_flags (h i)) ++ M) is Map.empty"

definition kernel_map :: "mem \<Rightarrow> multiboot_data \<Rightarrow> page \<Rightarrow> u64 option" where
  "kernel_map bi d = sections_map (kernel_section bi d) [0..<section_number bi d] ++
     with_flags {0xb8} (writeable_bit OR present_bit OR no_exec_bit) ++ with_flags (boot_pages bi d) (present_bit OR no_exec_bit)"

lemma dom_sections_map: "dom (sections_map h is) = (\<Union>i \<in> set is. section_pages (h i))"
  by (induction "is") (auto simp: sections_map_def)

lemma dom_kernel_map: "dom (kernel_map bi d) = kernel_pages bi d"
  unfolding kernel_map_def dom_map_add dom_sections_map dom_with_flags kernel_pages_def by auto

lemma sections_map_only:
  assumes "i \<in> set is" "p \<in> section_pages (h i)" "\<And>j. j \<in> set is \<Longrightarrow> j \<noteq> i \<Longrightarrow> p \<notin> section_pages (h j)"
  shows "sections_map h is p = Some (section_flags (h i))"
  using assms
proof (induction "is")
  case (Cons j "is")
  have step: "sections_map h (j # is) = with_flags (section_pages (h j)) (section_flags (h j)) ++ sections_map h is"
    by (simp add: sections_map_def)
  show ?case
  proof (cases "i \<in> set is")
    case True
    then show ?thesis using Cons by (simp add: step map_add_def)
  next
    case False
    then have "p \<notin> dom (sections_map h is)" using Cons.prems(3) by (auto simp: dom_sections_map)
    then have "sections_map h is p = None" by (simp add: domIff)
    then show ?thesis using Cons.prems(1,2) False by (simp add: step map_add_def with_flags_def)
  qed
qed simp

text \<open>How many pages are mapped, counting repetitions.\<close>

definition section_calls :: "multiboot_elf_section_header \<Rightarrow> nat" where
  "section_calls h =
     (if elf_section_is_allocated h then section_page_count (sh_addr h) (sh_addr h + sh_size h - 1) else 0)"

definition kernel_calls :: "mem \<Rightarrow> multiboot_data \<Rightarrow> nat" where
  "kernel_calls bi d = sum_list (map (\<lambda>i. section_calls (kernel_section bi d i)) [0..<section_number bi d]) + 1 +
     boot_page_count (md_start d) (boot_last bi d)"

text \<open>Sections the code accepts, in the lower half of the address space.\<close>

definition loadable :: "multiboot_elf_section_header \<Rightarrow> bool" where
  "loadable h \<longleftrightarrow> (elf_section_is_allocated h \<longrightarrow>
     page_aligned (sh_addr h) \<and> 0 < sh_size h \<and> unat (sh_addr h) + unat (sh_size h) \<le> 2 ^ 47)"

definition boot_image_ok :: "mem \<Rightarrow> multiboot_data \<Rightarrow> bool" where
  "boot_image_ok bi d \<longleftrightarrow> section_number bi d < 2 ^ 31 \<and> (\<forall>i < section_number bi d. loadable (kernel_section bi d i)) \<and>
     unat (boot_last bi d) < 2 ^ 47"

lemma section_last:
  assumes "loadable h" "elf_section_is_allocated h"
  shows "unat (sh_addr h + sh_size h - 1) = unat (sh_addr h) + unat (sh_size h) - 1"
    "unat (sh_addr h + sh_size h - 1) < 2 ^ 47" "sh_addr h \<le> sh_addr h + sh_size h - 1"
proof -
  have h: "0 < unat (sh_size h)" "unat (sh_addr h) + unat (sh_size h) \<le> 2 ^ 47"
    using assms by (auto simp: loadable_def word_less_nat_alt)
  then have a: "unat (sh_addr h + sh_size h) = unat (sh_addr h) + unat (sh_size h)" by (intro unat_plus64) simp
  then have "1 \<le> sh_addr h + sh_size h" using h(1) by (simp add: word_le_nat_alt)
  then show u: "unat (sh_addr h + sh_size h - 1) = unat (sh_addr h) + unat (sh_size h) - 1"
    using a by (simp add: unat_sub)
  then show "unat (sh_addr h + sh_size h - 1) < 2 ^ 47" "sh_addr h \<le> sh_addr h + sh_size h - 1"
    using h by (simp_all add: word_le_nat_alt)
qed

lemma section_flags_ok: "nx_enabled s \<Longrightarrow> flags_ok s (section_flags h)"
  by (simp add: flags_ok_def section_flags_def present_bit_def no_exec_bit_def writeable_bit_def physical_addr_mask_def Let_def)

lemma page_aligned_mod: "page_aligned a \<Longrightarrow> a mod PAGE_SIZE = 0"
  by (simp add: page_aligned_def PAGE_SIZE_def word_unat_eq_iff unat_mod dvd_eq_mod_eq_0)

lemma print_out_msg:
  "\<exists>t. print_out bi (''Addr: %#zx'' @ [CHR 0x09] @ ''Flags : %#zX'' @ [newline]) [x, y] s = ret (s\<lparr>tty := t\<rparr>)"
  "\<exists>t. print_out bi (''CR3 = %#zx'' @ [newline]) [x] s = ret (s\<lparr>tty := t\<rparr>)"
  "\<exists>t. print_out bi (''Old page addr: %#zx'' @ [newline]) [x] s = ret (s\<lparr>tty := t\<rparr>)"
  "\<exists>t. print_out bi (''New p4 frame addr %#zX'' @ [newline]) [x] s = ret (s\<lparr>tty := t\<rparr>)"
  "\<exists>t. print_out bi (''Old p4 entry[511] %#zX'' @ [newline]) [x] s = ret (s\<lparr>tty := t\<rparr>)"
  "\<exists>t. print_out bi (''new p4 entry[511] %#zX'' @ [newline]) [x] s = ret (s\<lparr>tty := t\<rparr>)"
  "\<exists>t. print_out bi (''New kernel page tables set up.'' @ [newline]) [] s = ret (s\<lparr>tty := t\<rparr>)"
  "\<exists>t. print_out bi (''End of remap.'' @ [newline]) [] s = ret (s\<lparr>tty := t\<rparr>)"
  by (simp_all add: print_out_def newline_def printf_char printf_zx printf_nil) blast+

lemma remap_section_ok:
  assumes w: "window bi s F" and nx: "nx_enabled s" and h: "loadable h" and pool: "3 * section_calls h \<le> card (frame_pool bi (frames s))"
  shows "\<exists>s'. remap_section bi h s = ret s' \<and> remaps bi F (section_calls h) (with_flags (section_pages h) (section_flags h)) s s'"
proof (cases "elf_section_is_allocated h")
  case False
  then show ?thesis using remaps_refl [OF w] by (simp add: remap_section_def section_calls_def section_pages_def)
next
  case True
  let ?a = "sh_addr h" and ?e = "sh_addr h + sh_size h - 1"
  let ?fs = "page_steps ?a (section_page_count ?a ?e)"
  note last = section_last [OF h True]
  have a: "page_aligned ?a" using h True by (simp add: loadable_def)
  have e: "unat ?e + 4096 < 2 ^ 64" using last(2) by simp
  have set: "set ?fs = section_pages h"
    using True section_steps_set [OF a e] by (auto simp: section_pages_def get_frame_for_addr_def)
  have low: "\<forall>f \<in> set ?fs. low_frame f"
  proof
    fix f assume "f \<in> set ?fs"
    then obtain x where x: "x < ?e" "get_frame_for_addr x = f" using section_steps_set [OF a e] by blast
    then have "unat x < 2 ^ 47" using last(2) by (simp add: word_less_nat_alt)
    then show "low_frame f" using low_address(3) [of x] x(2) by (simp add: get_frame_for_addr_def)
  qed
  obtain t where t: "print_out bi (''Addr: %#zx'' @ [CHR 0x09] @ ''Flags : %#zX'' @ [newline]) [?a, section_flags h] s =
      ret (s\<lparr>tty := t\<rparr>)" using print_out_msg(1) by blast
  let ?s1 = "s\<lparr>tty := t\<rparr>"
  have len: "length ?fs = section_calls h" using True by (simp add: page_steps_def section_calls_def)
  have "3 * length ?fs \<le> card (frame_pool bi (frames ?s1))" using len pool by simp
  then obtain s' where s': "foldM (\<lambda>f. identity_map_page bi f (section_flags h)) ?fs ?s1 = ret s'"
    "remaps bi F (section_calls h) (with_flags (section_pages h) (section_flags h)) ?s1 s'"
    using identity_map_list [of bi ?s1 F ?fs "section_flags h"] w low section_flags_ok [of ?s1 h] nx by (auto simp: len set)
  have c: "(?a \<le> ?e) = True" using last(3) by simp
  have "remap_section bi h s = ret s'"
    unfolding remap_section_def Let_def page_aligned_mod [OF a] c obind_simps t map_section_pages_loop [OF e] s'(1)
    by (simp only: True not_True_eq_False if_False assert_c_simps obind_simps simp_thms)
  moreover have "remaps bi F (section_calls h) (with_flags (section_pages h) (section_flags h)) s s'"
    using remaps_trans [OF remaps_tty [OF w, of t] s'(2)] by simp
  ultimately show ?thesis by blast
qed

lemma remap_sections_ok:
  assumes "window bi s F" "nx_enabled s" "\<forall>i \<in> set is. loadable (h i)"
    and "3 * sum_list (map (\<lambda>i. section_calls (h i)) is) \<le> card (frame_pool bi (frames s))"
  shows "\<exists>s'. foldM (\<lambda>i. remap_section bi (h i)) is s = ret s' \<and>
    remaps bi F (sum_list (map (\<lambda>i. section_calls (h i)) is)) (sections_map h is) s s'"
  using assms
proof (induction "is" arbitrary: s)
  case Nil
  then show ?case by (simp add: remaps_refl sections_map_def)
next
  case (Cons i "is")
  obtain s1 where s1: "remap_section bi (h i) s = ret s1" "remaps bi F (section_calls (h i)) (with_flags (section_pages (h i)) (section_flags (h i))) s s1"
    using remap_section_ok [of bi s F "h i"] Cons.prems by auto
  note r = remapsD [OF s1(2)]
  obtain s2 where s2: "foldM (\<lambda>i. remap_section bi (h i)) is s1 = ret s2"
    "remaps bi F (sum_list (map (\<lambda>i. section_calls (h i)) is)) (sections_map h is) s1 s2"
    using Cons.IH [of s1] r(1,4,5) Cons.prems(2-4) by auto
  then show ?case using s1 remaps_trans [OF s1(2) s2(2)] by (auto simp: sections_map_def)
qed

lemma boot_steps:
  assumes "unat (boot_last bi d) < 2 ^ 47"
  shows "set (page_steps (md_start d) (boot_page_count (md_start d) (boot_last bi d))) = boot_pages bi d"
    "\<forall>f \<in> boot_pages bi d. low_frame f"
proof -
  let ?a = "md_start d" and ?l = "boot_last bi d"
  have count: "k < boot_page_count ?a ?l \<longleftrightarrow> unat ?a + 4096 * k \<le> unat ?l" for k
    unfolding boot_page_count_def word_le_nat_alt by (simp split: if_splits) linarith
  then show "set (page_steps ?a (boot_page_count ?a ?l)) = boot_pages bi d"
    by (auto simp: page_steps_def boot_pages_def get_frame_for_addr_def image_iff atLeast0LessThan)
  have "low_frame ((?a + 4096 * of_nat k) div PAGE_SIZE)" if "unat ?a + 4096 * k \<le> unat ?l" for k
  proof (rule low_address(3))
    have "unat (?a + 4096 * of_nat k) = unat ?a + 4096 * k"
      using that assms by (intro unat_page_step) simp
    then show "unat (?a + 4096 * of_nat k) < 2 ^ 47" using that assms by simp
  qed
  then show "\<forall>f \<in> boot_pages bi d. low_frame f" by (auto simp: boot_pages_def)
qed

text \<open>All the mapping that happens while the window is open.\<close>

lemma map_kernel:
  assumes w: "window bi s F" and nx: "nx_enabled s" and d: "boot_image_ok bi d"
    and pool: "3 * kernel_calls bi d \<le> card (frame_pool bi (frames s))"
  shows "\<exists>s'. map_image bi d s = ret s' \<and> remaps bi F (kernel_calls bi d) (kernel_map bi d) s s'"
proof -
  let ?n = "section_number bi d" and ?h = "kernel_section bi d" and ?l = "boot_last bi d"
  let ?c = "sum_list (map (\<lambda>i. section_calls (?h i)) [0..<?n])"
  have b: "?n < 2 ^ 31" "\<forall>i<?n. loadable (?h i)" "unat ?l < 2 ^ 47" using d by (simp_all add: boot_image_ok_def)
  have ir: "int_range (ucast (elf_num bi (md_elf_symbols d))) = ret [0..<?n]"
    using b(1) by (simp add: int_range_def section_number_def unat_ucast32)
  obtain s1 where s1: "foldM (\<lambda>i. remap_section bi (?h i)) [0..<?n] s = ret s1"
    "remaps bi F ?c (sections_map ?h [0..<?n]) s s1"
    using remap_sections_ok [OF w nx, of "[0..<?n]" ?h] b(2) pool by (auto simp: kernel_calls_def atLeast0LessThan)
  note r1 = remapsD [OF s1(2)]
  have nx1: "nx_enabled s1" using nx r1(4) by simp
  have vga: "get_frame_for_addr 0xb8000 = 0xb8" by (simp add: get_frame_for_addr_def PAGE_SIZE_def)
  have fl: "flags_ok s1 (writeable_bit OR present_bit OR no_exec_bit)"
    using nx1 by (simp add: flags_ok_def present_bit_def no_exec_bit_def writeable_bit_def physical_addr_mask_def)
  obtain s2 where s2: "identity_map_page bi 0xb8 (writeable_bit OR present_bit OR no_exec_bit) s1 = ret s2"
    "remaps bi F 1 (with_flags {0xb8} (writeable_bit OR present_bit OR no_exec_bit)) s1 s2"
    using identity_map_window [OF r1(1) _ fl, of "0xb8"] pool r1(5) by (auto simp: kernel_calls_def low_frame_def)
  note r2 = remapsD [OF s2(2)]
  let ?fs = "page_steps (md_start d) (boot_page_count (md_start d) ?l)"
  have fl2: "flags_ok s2 (present_bit OR no_exec_bit)"
    using nx1 r2(4) by (simp add: flags_ok_def present_bit_def no_exec_bit_def physical_addr_mask_def)
  have len: "length ?fs = boot_page_count (md_start d) ?l" by (simp add: page_steps_def)
  have low: "\<forall>f \<in> set ?fs. low_frame f" using boot_steps [OF b(3)] by blast
  have "3 * length ?fs \<le> card (frame_pool bi (frames s2))"
    using pool r1(5) r2(5) unfolding len by (simp add: kernel_calls_def)
  then obtain s3 where s3: "foldM (\<lambda>f. identity_map_page bi f (present_bit OR no_exec_bit)) ?fs s2 = ret s3"
    "remaps bi F (boot_page_count (md_start d) ?l) (with_flags (boot_pages bi d) (present_bit OR no_exec_bit)) s2 s3"
    using identity_map_list [OF r2(1) low fl2] boot_steps(1) [OF b(3)] by (auto simp: len)
  have "map_boot_pages bi (md_start d) ?l s2 = ret s3"
    using map_boot_pages_loop [of ?l bi "md_start d" s2] b(3) s3(1) by simp
  moreover have "remaps bi F (kernel_calls bi d) (kernel_map bi d) s s3"
    using remaps_trans [OF remaps_trans [OF s1(2) s2(2)] s3(2)] by (simp add: kernel_calls_def kernel_map_def)
  ultimately show ?thesis
    using s1(1) s2(1) unfolding map_image_def ir vga kernel_section_def by auto
qed

end
