(* ===== verification/Remap_Laws.thy ===== *)
theory Remap_Laws
  imports Window
begin

text \<open>
  The effect of \<open>remap_kernel\<close>: opening the window, mapping the kernel through it, restoring the
  old tables, switching to the new ones and unmapping the page of the old root.
\<close>

section \<open>Steps\<close>

text \<open>The virtual addresses the code puts the new and the old root at.\<close>

abbreviation new_root_addr :: u64 where
  "new_root_addr \<equiv> 0xdeadbeef * PAGE_SIZE"

abbreviation old_root_addr :: u64 where
  "old_root_addr \<equiv> 0xdddd0000 * PAGE_SIZE"

lemma root_addrs:
  "page_aligned new_root_addr" "canonical new_root_addr" "index 4 new_root_addr \<noteq> 511" "new_root_addr div PAGE_SIZE = 0xdeadbeef"
  "page_aligned old_root_addr" "canonical old_root_addr" "index 4 old_root_addr \<noteq> 511" "old_root_addr div PAGE_SIZE = 0xdddd0000"
  using low_address [of "0xdeadbeef000"] low_address [of "0xdddd0000000"] by (simp_all add: PAGE_SIZE_def page_aligned_def)

definition page_at :: "machine \<Rightarrow> u64 \<Rightarrow> u64 \<Rightarrow> bool" where
  "page_at s v t \<longleftrightarrow> (\<forall>w. w div PAGE_SIZE = v div PAGE_SIZE \<longrightarrow> mmu s w = Some (t + w mod PAGE_SIZE))"

lemma page_slot:
  assumes "page_aligned v" "i < 512"
  shows "(v + 8 * i) div PAGE_SIZE = v div PAGE_SIZE" "(v + 8 * i) mod PAGE_SIZE = 8 * i"
  using assms bit_slot_high [OF assms] offset_slot [OF assms] by (simp_all add: same_page_bits offset_mod)

lemma page_at_slot: "page_at s v t \<Longrightarrow> page_aligned v \<Longrightarrow> i < 512 \<Longrightarrow> mmu s (v + 8 * i) = Some (t + 8 * i)"
  by (simp add: page_at_def page_slot)

lemma set_entry_at:
  "mmu s a = Some p \<Longrightarrow> set_page_table_entry a f flags s = ret (s\<lparr>phys := st64 (phys s) p (entry_for f flags)\<rparr>)"
  by (simp add: set_page_table_entry_def vstore_def entry_for_def physical_addr_mask_def)

text \<open>Clearing a page that is blank changes nothing.\<close>

lemma init_blank:
  assumes "page_at s v t" "page_aligned v" "blank_table (phys s) t"
  shows "init_page_table v s = ret s"
proof -
  have one: "set_unused (v + 8 * i) s = ret s" if "i < 512" for i
    using page_at_slot [OF assms(1,2) that] assms(3) that
    by (simp add: set_unused_def vstore_def blank_table_def entry_at_def st64_zero)
  have "foldM (\<lambda>i. set_unused (v + 8 * of_nat i)) is s = ret s" if "set is \<subseteq> {..<512}" for "is"
    using that
  proof (induction "is")
    case (Cons i "is")
    then have "unat (of_nat i :: u64) < 512" using unat_of_nat64 [of i] by simp
    then show ?case using Cons one [of "of_nat i"] by (simp add: word_less_nat_alt)
  qed simp
  then show ?thesis by (simp add: init_page_table_def PAGE_TABLE_ENTRY_COUNT_def atLeast0LessThan)
qed

lemma print_entry_ok:
  assumes "mmu s a = Some p"
  shows "\<exists>t. print_entry bi ''Old p4 entry[511] %#zX'' a s = ret (s\<lparr>tty := t\<rparr>)"
    "\<exists>t. print_entry bi ''new p4 entry[511] %#zX'' a s = ret (s\<lparr>tty := t\<rparr>)"
  using assms print_out_msg(5,6) by (simp_all add: print_entry_def vload_def)

abbreviation rw_bits :: u64 where
  "rw_bits \<equiv> present_bit OR writeable_bit"

lemma rw_hangs: "unat f < 2 ^ 40 \<Longrightarrow> hangs nx (entry_for f rw_bits) (get_frame_start_addr f)"
  using entry_addr_for [of f rw_bits]
  by (simp add: hangs_def entry_for_facts present_bit_def writeable_bit_def physical_addr_mask_def)

lemma entry_addr_frame: "unat f < 2 ^ 40 \<Longrightarrow> entry_addr (get_frame_start_addr f) = get_frame_start_addr f"
  using entry_addr_for [of f 0]
  by (simp add: entry_for_def entry_addr_def and.assoc)

section \<open>Opening the window\<close>

text \<open>
  The state in which a blank frame \<open>F\<close> has become a root, and the recursive entry of the old root
  points at it: both have the entry \<open>x\<close> in slot 511.
\<close>

definition opened :: "mem \<Rightarrow> machine \<Rightarrow> frame \<Rightarrow> machine \<Rightarrow> bool" where
  "opened bi s n s' \<longleftrightarrow> paging_ok bi s \<and> unat n < 2 ^ 40 \<and>
     get_frame_start_addr n \<notin> tables_of s \<union> pool_addrs bi s \<and> blank_table (phys s) (get_frame_start_addr n) \<and>
     frames s' = frames s \<and> msr s' = msr s \<and> cr3 s' = cr3 s \<and>
     phys s' = st64 (st64 (phys s) (get_frame_start_addr n + 8 * 511) (entry_for n rw_bits)) (root s + 8 * 511) (entry_for n rw_bits)"

lemma openedD:
  assumes "opened bi s n s'"
  defines "F \<equiv> get_frame_start_addr n"
  shows "entry_addr F = F" "F \<noteq> root s" "nx_enabled s' = nx_enabled s" "root s' = root s"
    "page_aligned t \<Longrightarrow> i < 512 \<Longrightarrow>
       entry_at (phys s') t i = (if i = 511 \<and> (t = F \<or> t = root s) then entry_for n rw_bits else entry_at (phys s) t i)"
    "i < 512 \<Longrightarrow> entry_at (phys s') F i = (if i = 511 then entry_for n rw_bits else 0)"
    "hangs nx (entry_for n rw_bits) F"
proof -
  have s': "unat n < 2 ^ 40" "F \<notin> tables_of s" "blank_table (phys s) F" "msr s' = msr s" "cr3 s' = cr3 s"
    "phys s' = st64 (st64 (phys s) (F + 8 * 511) (entry_for n rw_bits)) (root s + 8 * 511) (entry_for n rw_bits)"
    using assms(1) by (simp_all add: opened_def F_def)
  have al: "page_aligned F" "page_aligned (root s)" by (simp_all add: F_def)
  show "entry_addr F = F" using entry_addr_frame [OF s'(1)] by (simp add: F_def)
  show ne: "F \<noteq> root s" using s'(2) root_in_tables [of s] by auto
  show "nx_enabled s' = nx_enabled s" "root s' = root s" using s'(4,5) by (simp_all add: nx_enabled_def root_def)
  show "hangs nx (entry_for n rw_bits) F" unfolding F_def by (rule rw_hangs [OF s'(1)])
  show entry: "entry_at (phys s') t i = (if i = 511 \<and> (t = F \<or> t = root s) then entry_for n rw_bits else entry_at (phys s) t i)"
    if "page_aligned t" "i < 512" for t i
    using entry_at_store [OF al(2) that(1) _ that(2), of 511] entry_at_store [OF al(1) that(1) _ that(2), of 511] ne
    by (auto simp: s'(6))
  show "entry_at (phys s') F i = (if i = 511 then entry_for n rw_bits else 0)" if "i < 512"
    using entry [OF al(1) that] s'(3) that by (simp add: blank_table_def)
qed

lemma opened_same:
  assumes "opened bi s n s'"
  shows "same_entries s s'"
  unfolding same_entries_def
proof (intro conjI allI impI)
  fix t i :: u64
  assume t: "t \<in> tables_of s" "i < 512" "\<not> (t = root s \<and> i = 511)"
  moreover have "t \<noteq> get_frame_start_addr n" using t(1) assms by (auto simp: opened_def)
  ultimately show "entry_at (phys s') t i = entry_at (phys s) t i"
    using openedD(5) [OF assms tables_aligned [OF page_aligned_root t(1)]] by auto
qed (use openedD(4) [OF assms] assms in \<open>simp_all add: opened_def\<close>)

text \<open>The tree of the new root is the root alone.\<close>

lemma opened_only:
  assumes o: "opened bi s n s'"
  defines "F \<equiv> get_frame_start_addr n"
  shows "table_path q \<Longrightarrow> table_at (at_root F s') q = Some t \<Longrightarrow> q = [] \<and> t = F" "tables_of (at_root F s') = {F}"
proof -
  note d = openedD [OF o, folded F_def]
  have none: "follow nx (phys s') F (i # is) = None" if "i < 512" "i \<noteq> 511" for nx i "is"
    using d(6) [OF that(1)] that(2) by (simp add: Let_def)
  show only: "q = [] \<and> t = F" if "table_path q" "table_at (at_root F s') q = Some t" for q t
  proof (cases q)
    case (Cons i "is")
    then show ?thesis using that none [of i _ "is"] by (simp add: table_path_def table_at_def d(1))
  qed (use that d(1) in \<open>simp add: table_at_def\<close>)
  show "tables_of (at_root F s') = {F}"
    using only root_in_tables [of "at_root F s'"] d(1) by (auto simp: tables_of_def)
qed

lemma opened_paging_ok:
  assumes o: "opened bi s n s'"
  defines "F \<equiv> get_frame_start_addr n"
  shows "paging_ok bi (at_root F s')"
proof -
  note d = openedD [OF o, folded F_def] and only = opened_only(1) [OF o, folded F_def]
  have ok: "paging_ok bi s" and fr: "frames s' = frames s" and out: "F \<notin> tables_of s \<union> pool_addrs bi s"
    using o by (simp_all add: opened_def F_def)
  have al: "page_aligned F" by (simp add: F_def)
  have "recursive (nx_enabled s') (phys s') F" using d(7) al d(6) [of 511] by (simp add: recursive_def)
  moreover have "tree_ok (nx_enabled s') (phys s') F"
    unfolding tree_ok_def
  proof (intro conjI allI impI)
    fix p q t
    assume "table_path p" "table_path q" "follow (nx_enabled s') (phys s') F p = Some t" "follow (nx_enabled s') (phys s') F q = Some t"
    then show "p = q" using only [of p t] only [of q t] by (simp add: table_at_def d(1))
  qed (rule al)
  ultimately have tok: "tables_ok (at_root F s')" by (simp add: tables_ok_def d(1))
  have pool: "unat f < 2 ^ 40 \<and> blank_table (phys s') (get_frame_start_addr f) \<and> get_frame_start_addr f \<noteq> F"
    if f: "f \<in> frame_pool bi (frames s)" for f
  proof -
    have "get_frame_start_addr f \<noteq> F" "get_frame_start_addr f \<noteq> root s"
      using out f paging_okD(5) [OF ok f table_path_Nil] by (auto simp: pool_addrs_def)
    then show ?thesis
      using paging_okD(3,4) [OF ok f] d(5) [OF frame_start_aligned] by (auto simp: blank_table_def)
  qed
  show ?thesis
    using tok paging_okD(2) [OF ok] pool only by (auto simp: paging_ok_def fr allocator_ready_def)
qed

lemma opened_window:
  assumes o: "opened bi s n s'"
  defines "F \<equiv> get_frame_start_addr n"
  shows "window bi s' F"
proof -
  note d = openedD [OF o, folded F_def] and only = opened_only [OF o, folded F_def]
  have ok: "paging_ok bi s" and fr: "frames s' = frames s" using o by (simp_all add: opened_def)
  have "hangs (nx_enabled s') (entry_at (phys s') (root s') 511) F"
    using d(5) [OF page_aligned_root, of 511] d(7) by (simp add: d(4))
  moreover have "root s' \<notin> tables_of (at_root F s') \<union> pool_addrs bi s'"
    using d(2) paging_okD(5) [OF ok _ table_path_Nil] unfolding only(2) d(4) by (auto simp: pool_addrs_def fr)
  moreover have "way_clear (at_root F s') w" if w: "index 4 w \<noteq> 511" for w
    unfolding way_clear_iff
  proof (intro allI impI)
    fix p i q u
    assume a: "path_to 1 w = p @ i # q" "table_at (at_root F s') p = Some u" "bit (entry_at (phys (at_root F s')) u i) 0"
    have p: "p = []" "u = F" using only(1) [OF path_1_prefix(1) [OF a(1) w] a(2)] by simp_all
    moreover have "i = index 4 w" using a(1) p(1) by (simp add: path_to_def)
    ultimately show "entry_ok (nx_enabled (at_root F s')) (entry_at (phys (at_root F s')) u i) \<and>
        \<not> is_huge (entry_at (phys (at_root F s')) u i)"
      using a(3) d(6) [of "index 4 w"] w by simp
  qed
  ultimately show ?thesis using d(1) opened_paging_ok [OF o, folded F_def] by (simp add: window_def)
qed

text \<open>Nothing but the recursive region is mapped in it.\<close>

lemma opened_empty:
  assumes o: "opened bi s n s'" and v: "index 4 v \<noteq> 511"
  defines "F \<equiv> get_frame_start_addr n"
  shows "mmu (at_root F s') v = None" "last_entry (at_root F s') v = 0"
proof -
  note d = openedD [OF o, folded F_def] and only = opened_only(1) [OF o, folded F_def]
  show "mmu (at_root F s') v = None"
    using d(6) [of "index 4 v"] v by (simp add: mmu_def d(1) eval_nat_numeral)
  have "table_at (at_root F s') (path_to 1 v) = None"
  proof (rule ccontr)
    assume "table_at (at_root F s') (path_to 1 v) \<noteq> None"
    then obtain t where "table_at (at_root F s') (path_to 1 v) = Some t" by blast
    then have "path_to 1 v = []" using only [of "path_to 1 v" t] table_path_to [of 1 v] v by simp
    then show False using length_path_to [of 1 v] by simp
  qed
  then show "last_entry (at_root F s') v = 0" by (simp add: last_entry_def del: One_nat_def)
qed

text \<open>Mapping through the window leaves the old tables alone.\<close>

lemma remaps_keep_old:
  assumes "remaps bi F n P s s'" "tables_of s \<inter> (tables_of (at_root F s) \<union> pool_addrs bi s) = {}"
  shows "same_entries s s'"
  unfolding same_entries_def
proof (intro conjI allI impI)
  note r = remapsD [OF assms(1)]
  show "root s' = root s" "msr s' = msr s" using r(2) growsD(2) [OF r(3)] by (simp_all add: root_def)
  fix t i :: u64
  assume t: "t \<in> tables_of s" "i < 512"
  then have "t \<notin> tables_of (at_root F s) \<union> pool_addrs bi (at_root F s)" using assms(2) by auto
  then show "entry_at (phys s') t i = entry_at (phys s) t i"
    using growsD(6) [OF r(3)] tables_aligned [OF page_aligned_root t(1)] t(2) by (simp add: keeps_others_def)
qed


section \<open>Building the tables\<close>

lemma window_top:
  assumes "window bi s F"
  shows "mmu s (p4_table + 8 * 511) = Some (F + 8 * 511)"
proof -
  note d = windowD [OF assms]
  have "mmu (at_root F s) (vtable [] + 8 * 511) = Some (F + 8 * 511)"
    by (rule mmu_table [OF paging_okD(1) [OF d(2)] table_path_Nil]) (simp_all add: d(1))
  then show ?thesis
    using mmu_window [OF window_windowed [OF assms] index_vtable [OF table_path_Nil], of 511] by simp
qed

lemma rw_flags_ok: "flags_ok s rw_bits"
  by (simp add: flags_ok_def present_bit_def writeable_bit_def physical_addr_mask_def)

lemma top_entry: "tables_ok u \<Longrightarrow> mmu u (p4_table + 8 * 511) = Some (root u + 8 * 511)"
  unfolding p4_table_top by (rule mmu_table [OF _ table_path_Nil table_at_root]) simp_all

text \<open>Two states with sound tables whose frames, of which the new root is one, are known to be apart.\<close>

definition root_frame :: "mem \<Rightarrow> machine \<Rightarrow> frame \<Rightarrow> bool" where
  "root_frame bi s n \<longleftrightarrow> paging_ok bi s \<and> nx_enabled s \<and> unat n < 2 ^ 40 \<and> page_at s new_root_addr (get_frame_start_addr n) \<and>
     get_frame_start_addr n \<notin> tables_of s \<union> pool_addrs bi s \<and> blank_table (phys s) (get_frame_start_addr n)"

text \<open>Mapping the old root keeps the frame of the new one what it is.\<close>

lemma root_frame_map_old:
  assumes f: "root_frame bi s n" and m: "unat m < 2 ^ 40" and way: "way_clear s old_root_addr"
    and pool: "3 \<le> card (frame_pool bi (frames s))"
  shows "\<exists>s' t. map_page_to_frame bi 0xdddd0000 m rw_bits s = ret s' \<and> root_frame bi s' n \<and>
    page_at s' old_root_addr (get_frame_start_addr m) \<and> table_at s' (path_to 1 old_root_addr) = Some t \<and> root s' = root s \<and>
    card (frame_pool bi (frames s)) - 3 \<le> card (frame_pool bi (frames s'))"
proof -
  let ?F = "get_frame_start_addr n"
  have ok: "paging_ok bi s" and A: "page_at s new_root_addr ?F" and out: "?F \<notin> tables_of s \<union> pool_addrs bi s"
    and blank: "blank_table (phys s) ?F" using f by (simp_all add: root_frame_def)
  obtain s' t where s': "map_page_to_frame bi 0xdddd0000 m rw_bits s = ret s'" "paging_ok bi s'"
    "page_at s' old_root_addr (get_frame_start_addr m)"
    "\<And>w. index 4 w \<noteq> 511 \<Longrightarrow> w div PAGE_SIZE \<noteq> 0xdddd0000 \<Longrightarrow> mmu s' w = mmu s w"
    "card (frame_pool bi (frames s)) - 3 \<le> card (frame_pool bi (frames s'))" "table_at s' (path_to 1 old_root_addr) = Some t"
    "grows bi s s'"
    using map_page_to_frame_ok [OF ok root_addrs(6,7) way, of "card (frame_pool bi (frames s)) - 3" m rw_bits] pool m rw_flags_ok
    unfolding page_at_def root_addrs(8) by auto
  note g = growsD [OF s'(7)]
  have "page_at s' new_root_addr ?F"
    unfolding page_at_def
  proof (intro allI impI)
    fix w assume w: "w div PAGE_SIZE = new_root_addr div PAGE_SIZE"
    then have "index 4 w \<noteq> 511" using same_page_index [OF w, of 4] root_addrs(3) by simp
    moreover have "w div PAGE_SIZE \<noteq> 0xdddd0000" unfolding w root_addrs(4) by simp
    ultimately show "mmu s' w = Some (?F + w mod PAGE_SIZE)" using s'(4) A w by (simp add: page_at_def)
  qed
  moreover have "root s' = root s" "nx_enabled s'" using g(1,2) f by (simp_all add: root_def nx_enabled_def root_frame_def)
  moreover have "?F \<notin> tables_of s' \<union> pool_addrs bi s'" using g(3,4) out by blast
  moreover have "blank_table (phys s') ?F" using g(6) out blank by (simp add: keeps_others_def blank_table_def)
  ultimately show ?thesis
    using s'(1-3,5,6) f by (intro exI [of _ s'] exI [of _ t]) (simp add: root_frame_def)
qed

lemma prepare_root_ok:
  assumes f: "root_frame bi s n" and m: "unat m < 2 ^ 40" "get_frame_start_addr m = root s" and way: "way_clear s old_root_addr"
    and pool: "3 \<le> card (frame_pool bi (frames s))"
  shows "\<exists>s' c t. prepare_root bi n m s =
      ret (s'\<lparr>tty := c, phys := st64 (phys s') (get_frame_start_addr n + 8 * 511) (entry_for n rw_bits)\<rparr>) \<and>
    root_frame bi s' n \<and> page_at s' old_root_addr (root s) \<and> table_at s' (path_to 1 old_root_addr) = Some t \<and>
    root s' = root s \<and> card (frame_pool bi (frames s)) - 3 \<le> card (frame_pool bi (frames s'))"
proof -
  let ?F = "get_frame_start_addr n"
  obtain s0 t where s0: "map_page_to_frame bi 0xdddd0000 m rw_bits s = ret s0" "root_frame bi s0 n"
    "page_at s0 old_root_addr (root s)" "table_at s0 (path_to 1 old_root_addr) = Some t" "root s0 = root s"
    "card (frame_pool bi (frames s)) - 3 \<le> card (frame_pool bi (frames s0))"
    using root_frame_map_old [OF f m(1) way pool] unfolding m(2) by blast
  define s1 where "s1 = flush_tlb s0"
  have s1: "root_frame bi s1 n" "page_at s1 old_root_addr (root s)" "table_at s1 (path_to 1 old_root_addr) = Some t" "root s1 = root s"
    "card (frame_pool bi (frames s)) - 3 \<le> card (frame_pool bi (frames s1))"
    using s0(2-6) by (simp_all add: s1_def flush_tlb_drops root_frame_def page_at_def)
  have A: "page_at s1 new_root_addr ?F" "blank_table (phys s1) ?F" and tok: "tables_ok s1"
    using s1(1) by (simp_all add: root_frame_def paging_ok_def)
  obtain c1 where c1: "print_out bi (''CR3 = %#zx'' @ [newline]) [read_tlb s1] s1 = ret (s1\<lparr>tty := c1\<rparr>)"
    using print_out_msg(2) by blast
  obtain c2 where c2: "print_entry bi ''Old p4 entry[511] %#zX'' (p4_table + 8 * 511) (s1\<lparr>tty := c1\<rparr>) = ret (s1\<lparr>tty := c2\<rparr>)"
    using print_entry_ok(1) [of "s1\<lparr>tty := c1\<rparr>" "p4_table + 8 * 511"] top_entry [of "s1\<lparr>tty := c1\<rparr>"] tok by auto
  have "mmu s1 (old_root_addr + 8 * 511) = Some (root s + 8 * 511)"
    by (rule page_at_slot [OF s1(2) root_addrs(5)]) simp
  then obtain c3 where c3: "print_entry bi ''Old p4 entry[511] %#zX'' (old_root_addr + 8 * 511) (s1\<lparr>tty := c2\<rparr>) = ret (s1\<lparr>tty := c3\<rparr>)"
    using print_entry_ok(1) [of "s1\<lparr>tty := c2\<rparr>" "old_root_addr + 8 * 511"] by auto
  obtain c4 where c4: "print_out bi (''New p4 frame addr %#zX'' @ [newline]) [?F] (s1\<lparr>tty := c3\<rparr>) = ret (s1\<lparr>tty := c4\<rparr>)"
    using print_out_msg(4) [of bi ?F "s1\<lparr>tty := c3\<rparr>"] by auto
  let ?s' = "s1\<lparr>tty := c4, phys := st64 (phys s1) (?F + 8 * 511) (entry_for n rw_bits)\<rparr>"
  have "mmu (s1\<lparr>tty := c4\<rparr>) (new_root_addr + 8 * 511) = Some (?F + 8 * 511)"
    using page_at_slot [OF A(1) root_addrs(1), of 511] by simp
  then have e: "set_page_table_entry (new_root_addr + 8 * 511) n rw_bits (s1\<lparr>tty := c4\<rparr>) = ret ?s'"
    using set_entry_at [of "s1\<lparr>tty := c4\<rparr>"] by simp
  have i: "init_page_table new_root_addr s1 = ret s1" by (rule init_blank [OF A(1) root_addrs(1) A(2)])
  have "prepare_root bi n m s = ret ?s'"
    unfolding prepare_root_def Let_def s0(1) obind_simps s1_def [symmetric] i c1 c2 c3 c4 by (rule e)
  then show ?thesis using s1 by blast
qed

lemma enter_root_ok:
  assumes f: "root_frame bi s n"
  shows "\<exists>s'. enter_root bi n (s\<lparr>tty := c, phys := st64 (phys s) (get_frame_start_addr n + 8 * 511) (entry_for n rw_bits)\<rparr>) = ret s' \<and>
    opened bi s n s'"
proof -
  let ?F = "get_frame_start_addr n" and ?x = "entry_for n rw_bits"
  let ?s1 = "s\<lparr>tty := c, phys := st64 (phys s) (?F + 8 * 511) ?x\<rparr>"
  let ?s2 = "?s1\<lparr>phys := st64 (phys ?s1) (root s + 8 * 511) ?x\<rparr>"
  have ok: "tables_ok s" and out: "?F \<notin> tables_of s" using f by (simp_all add: root_frame_def paging_ok_def)
  have same: "same_entries s ?s1"
    by (rule same_entries_store [of s ?F 511 _ ?x]) (use out in \<open>simp_all add: root_def\<close>)
  have "?F \<noteq> root s" using out root_in_tables [of s] by auto
  then have "entry_at (phys ?s1) (root s) 511 = entry_at (phys s) (root s) 511"
    using entry_at_store [of ?F "root s" 511 511 "phys s" ?x] by simp
  moreover have v: "root ?s1 = root s" "nx_enabled ?s1 = nx_enabled s" by (simp_all add: root_def nx_enabled_def)
  ultimately have tok: "tables_ok ?s1"
    using same_entries_tree(1) [OF same] ok unfolding tables_ok_def recursive_def by simp
  have e: "set_page_table_entry (p4_table + 8 * 511) n rw_bits ?s1 = ret ?s2"
    using set_entry_at [OF top_entry [OF tok], of n rw_bits] unfolding v .
  have o: "opened bi s n ?s2" using f by (simp add: opened_def root_frame_def)
  obtain c' where "print_entry bi ''new p4 entry[511] %#zX'' (p4_table + 8 * 511) ?s2 = ret (?s2\<lparr>tty := c'\<rparr>)"
    using print_entry_ok(2) [OF window_top [OF opened_window [OF o]]] by blast
  then have "enter_root bi n ?s1 = ret (?s2\<lparr>tty := c', tlb := Map.empty\<rparr>)"
    unfolding enter_root_def e obind_simps flush_tlb_drops by simp
  moreover have "opened bi s n (?s2\<lparr>tty := c', tlb := Map.empty\<rparr>)" using o by (simp add: opened_def)
  ultimately show ?thesis by blast
qed

text \<open>The window, and what the image looks like through it.\<close>

lemma map_image_ok:
  assumes o: "opened bi s n s5" and nx: "nx_enabled s" and d: "boot_image_ok bi d"
    and pool: "3 * kernel_calls bi d \<le> card (frame_pool bi (frames s))"
  defines "F \<equiv> get_frame_start_addr n"
  shows "\<exists>s'. map_image bi d s5 = ret s' \<and> window bi s' F \<and> same_entries s s' \<and> nx_enabled s' \<and>
    tables_of s' \<inter> tables_of (at_root F s') = {} \<and> tables_of s' \<inter> pool_addrs bi s' = {} \<and>
    (\<forall>v. index 4 v \<noteq> 511 \<longrightarrow> mmu (at_root F s') v = (if v div PAGE_SIZE \<in> kernel_pages bi d then Some v else None)) \<and>
    (\<forall>v. canonical v \<longrightarrow> index 4 v \<noteq> 511 \<longrightarrow> last_entry (at_root F s') v = (case kernel_map bi d (v div PAGE_SIZE) of
       Some flags \<Rightarrow> entry_for (v div PAGE_SIZE) (present_bit OR flags) | None \<Rightarrow> 0)) \<and>
    card (frame_pool bi (frames s)) \<le> card (frame_pool bi (frames s')) + 3 * kernel_calls bi d"
proof -
  have ok: "paging_ok bi s" and out: "F \<notin> tables_of s \<union> pool_addrs bi s" and fr: "frames s5 = frames s"
    using o by (simp_all add: opened_def F_def)
  note only = opened_only(2) [OF o, folded F_def] and empty = opened_empty [OF o, folded F_def]
  have tree: "tree_ok (nx_enabled s) (phys s) (root s)" using paging_okD(1) [OF ok] by (simp add: tables_ok_def)
  have nx5: "nx_enabled s5" using openedD(3) [OF o] nx by simp
  obtain s' where s': "map_image bi d s5 = ret s'" "remaps bi F (kernel_calls bi d) (kernel_map bi d) s5 s'"
    using map_kernel [OF opened_window [OF o] nx5 d] pool by (auto simp: fr F_def)
  note r = remapsD [OF s'(2)]
  have tabs5: "tables_of s5 = tables_of s" by (rule same_entries_tree(2) [OF opened_same [OF o] tree])
  have pool5: "pool_addrs bi s5 = pool_addrs bi s" by (simp add: pool_addrs_def fr)
  have away: "tables_of s \<inter> pool_addrs bi s = {}"
    using paging_okD(5) [OF ok] by (auto simp: tables_of_def pool_addrs_def)
  have "same_entries s5 s'" by (rule remaps_keep_old [OF s'(2)]) (use tabs5 only pool5 away out in auto)
  then have same: "same_entries s s'" by (rule same_entries_trans [OF opened_same [OF o] tree])
  have "tables_of s' \<inter> tables_of (at_root F s') = {}"
    using growsD(4) [OF r(3)] only pool5 away out same_entries_tree(2) [OF same tree] by auto
  moreover have "tables_of s' \<inter> pool_addrs bi s' = {}"
    using growsD(3) [OF r(3)] pool5 away same_entries_tree(2) [OF same tree] by auto
  moreover have "mmu (at_root F s') v = (if v div PAGE_SIZE \<in> kernel_pages bi d then Some v else None)" if "index 4 v \<noteq> 511" for v
    using r(6) [OF that] empty(1) [OF that] unfolding dom_kernel_map by simp
  moreover have "last_entry (at_root F s') v = (case kernel_map bi d (v div PAGE_SIZE) of
      Some flags \<Rightarrow> entry_for (v div PAGE_SIZE) (present_bit OR flags) | None \<Rightarrow> 0)" if "canonical v" "index 4 v \<noteq> 511" for v
    using r(7) [OF that] empty(2) [OF that(2)] by (simp split: option.split)
  moreover have "card (frame_pool bi (frames s)) \<le> card (frame_pool bi (frames s')) + 3 * kernel_calls bi d"
    using r(5) unfolding fr .
  ultimately show ?thesis using s'(1) r(1,4) same nx5 by blast
qed

lemma build_tables_ok:
  assumes f: "root_frame bi s n" and m: "unat m < 2 ^ 40" "get_frame_start_addr m = root s" and way: "way_clear s old_root_addr"
    and d: "boot_image_ok bi d" and pool: "3 + 3 * kernel_calls bi d \<le> card (frame_pool bi (frames s))"
  defines "F \<equiv> get_frame_start_addr n"
  shows "\<exists>s' t. build_tables bi d n m s = ret s' \<and> window bi s' F \<and> root s' = root s \<and> nx_enabled s' \<and>
    tree_ok (nx_enabled s') (phys s') (root s') \<and> page_at s' old_root_addr (root s) \<and> table_at s' (path_to 1 old_root_addr) = Some t \<and>
    tables_of s' \<inter> tables_of (at_root F s') = {} \<and>
    (\<forall>v. index 4 v \<noteq> 511 \<longrightarrow> mmu (at_root F s') v = (if v div PAGE_SIZE \<in> kernel_pages bi d then Some v else None)) \<and>
    (\<forall>v. canonical v \<longrightarrow> index 4 v \<noteq> 511 \<longrightarrow> last_entry (at_root F s') v = (case kernel_map bi d (v div PAGE_SIZE) of
       Some flags \<Rightarrow> entry_for (v div PAGE_SIZE) (present_bit OR flags) | None \<Rightarrow> 0)) \<and>
    tables_of s' \<inter> pool_addrs bi s' = {} \<and>
    card (frame_pool bi (frames s)) \<le> card (frame_pool bi (frames s')) + 3 + 3 * kernel_calls bi d"
proof -
  obtain s1 c t where s1: "prepare_root bi n m s =
      ret (s1\<lparr>tty := c, phys := st64 (phys s1) (get_frame_start_addr n + 8 * 511) (entry_for n rw_bits)\<rparr>)"
    "root_frame bi s1 n" "page_at s1 old_root_addr (root s)" "table_at s1 (path_to 1 old_root_addr) = Some t"
    "root s1 = root s" "card (frame_pool bi (frames s)) - 3 \<le> card (frame_pool bi (frames s1))"
    using prepare_root_ok [OF f m way] pool by auto
  obtain s5 where s5: "enter_root bi n (s1\<lparr>tty := c, phys := st64 (phys s1) (get_frame_start_addr n + 8 * 511) (entry_for n rw_bits)\<rparr>) = ret s5"
    "opened bi s1 n s5"
    using enter_root_ok [OF s1(2)] by blast
  have nx: "nx_enabled s1" and tree: "tree_ok (nx_enabled s1) (phys s1) (root s1)"
    using s1(2) unfolding root_frame_def paging_ok_def tables_ok_def by blast+
  have "3 * kernel_calls bi d \<le> card (frame_pool bi (frames s1))" using s1(6) pool by linarith
  then obtain s' where s': "map_image bi d s5 = ret s'" "window bi s' F" "same_entries s1 s'" "nx_enabled s'"
    "tables_of s' \<inter> tables_of (at_root F s') = {}" "tables_of s' \<inter> pool_addrs bi s' = {}"
    "\<forall>v. index 4 v \<noteq> 511 \<longrightarrow> mmu (at_root F s') v = (if v div PAGE_SIZE \<in> kernel_pages bi d then Some v else None)"
    "\<forall>v. canonical v \<longrightarrow> index 4 v \<noteq> 511 \<longrightarrow> last_entry (at_root F s') v = (case kernel_map bi d (v div PAGE_SIZE) of
       Some flags \<Rightarrow> entry_for (v div PAGE_SIZE) (present_bit OR flags) | None \<Rightarrow> 0)"
    "card (frame_pool bi (frames s1)) \<le> card (frame_pool bi (frames s')) + 3 * kernel_calls bi d"
    using map_image_ok [OF s5(2) nx d] unfolding F_def by blast
  have "build_tables bi d n m s = ret s'"
    unfolding build_tables_def s1(1) obind_simps s5(1) by (rule s'(1))
  moreover have "page_at s' old_root_addr (root s)"
    unfolding page_at_def
  proof (intro allI impI)
    fix w assume w: "w div PAGE_SIZE = old_root_addr div PAGE_SIZE"
    have "index 4 w \<noteq> 511" using same_page_index [OF w, of 4] root_addrs(7) by simp
    then show "mmu s' w = Some (root s + w mod PAGE_SIZE)"
      using same_entries_mmu [OF s'(3) tree] s1(3) w by (simp add: page_at_def)
  qed
  moreover have "table_at s' (path_to 1 old_root_addr) = Some t"
    using same_entries_tables [OF s'(3) tree table_path_to [of 1 old_root_addr]] root_addrs(7) s1(4) by simp
  moreover have "root s' = root s" using s'(3) s1(5) by (simp add: same_entries_def)
  moreover have "card (frame_pool bi (frames s)) \<le> card (frame_pool bi (frames s')) + 3 + 3 * kernel_calls bi d"
    using s'(9) s1(6) by linarith
  ultimately show ?thesis using s' same_entries_tree(1) [OF s'(3) tree] by blast
qed


section \<open>Switching to the new tables\<close>

lemma kernel_pages_low:
  assumes "boot_image_ok bi d" "f \<in> kernel_pages bi d"
  shows "low_frame f"
proof -
  have "low_frame f" if h: "loadable h" "f \<in> section_pages h" for h
  proof -
    obtain x where x: "f = x div PAGE_SIZE" "x < sh_addr h + sh_size h - 1" "elf_section_is_allocated h"
      using h(2) by (auto simp: section_pages_def split: if_splits)
    then have "unat x < 2 ^ 47" using section_last(2) [OF h(1) x(3)] by (simp add: word_less_nat_alt)
    then show ?thesis using low_address(3) x(1) by simp
  qed
  moreover have "low_frame 0xb8" by (simp add: low_frame_def)
  ultimately show ?thesis
    using assms boot_steps(2) [of bi d] by (auto simp: kernel_pages_def boot_image_ok_def)
qed

text \<open>Putting the recursive entry of the old root back, and taking its page out again.\<close>

lemma close_window:
  assumes w: "window bi s F" and m: "unat m < 2 ^ 40" "get_frame_start_addr m = root s"
    and tree: "tree_ok (nx_enabled s) (phys s) (root s)" and B: "table_at s (path_to 1 old_root_addr) = Some t"
    and apart: "tables_of s \<inter> tables_of (at_root F s) = {}" "tables_of s \<inter> pool_addrs bi s = {}"
    and s': "s' = s\<lparr>phys := st64 (phys s) (root s + 8 * 511) (entry_for m rw_bits)\<rparr>"
  shows "tables_ok s'" "table_at s' (path_to 1 old_root_addr) = Some t"
    "same_entries (at_root F s) (at_root F (s'\<lparr>phys := st64 (phys s') (t + 8 * index 1 old_root_addr) 0\<rparr>))"
    "paging_ok bi (at_root F (s'\<lparr>phys := st64 (phys s') (t + 8 * index 1 old_root_addr) 0\<rparr>))"
proof -
  let ?x = "entry_for m rw_bits" and ?p = "path_to 1 old_root_addr"
  note d = windowD [OF w]
  have p: "table_path ?p" using table_path_to [of 1 old_root_addr] root_addrs(7) by simp
  have same: "same_entries s s'"
    by (rule same_entries_store [of s "root s" 511 _ ?x]) (simp_all add: s' root_def)
  have views: "root s' = root s" "nx_enabled s' = nx_enabled s" by (simp_all add: s' root_def nx_enabled_def)
  have "entry_at (phys s') (root s) 511 = ?x"
    using entry_at_store [of "root s" "root s" 511 511 "phys s" ?x] by (simp add: s')
  then show "tables_ok s'"
    using same_entries_tree(1) [OF same tree] rw_hangs [OF m(1)] m(2) by (simp add: tables_ok_def recursive_def views)
  show at: "table_at s' ?p = Some t" using same_entries_tables [OF same tree p] B by simp
  have t: "t \<in> tables_of s" "page_aligned t" using tables_ofI [OF p B] tables_aligned [of s t] by simp_all
  have aF: "page_aligned F" using page_aligned_entry_addr [of F] d(1) by simp
  have F: "F \<in> tables_of (at_root F s)" using root_in_tables [of "at_root F s"] d(1) by simp
  have ne: "F \<noteq> root s" "F \<noteq> t" using F d(4) apart(1) t(1) by auto
  have tN: "tree_ok (nx_enabled s) (phys s) F"
    using paging_okD(1) [OF d(2)] d(1) by (simp add: tables_ok_def)
  have n1: "same_entries (at_root F s) (at_root F s')"
    by (rule same_entries_store [of "at_root F s" "root s" 511 _ ?x]) (use d(4) in \<open>simp_all add: s'\<close>)
  have "tables_of (at_root F s') = tables_of (at_root F s)"
    using same_entries_tree(2) [OF n1] tN d(1) by simp
  then have n2: "same_entries (at_root F s') (at_root F (s'\<lparr>phys := st64 (phys s') (t + 8 * index 1 old_root_addr) 0\<rparr>))"
    by (intro same_entries_store [of "at_root F s'" t "index 1 old_root_addr" _ 0]) (use t apart(1) in auto)
  show all: "same_entries (at_root F s) (at_root F (s'\<lparr>phys := st64 (phys s') (t + 8 * index 1 old_root_addr) 0\<rparr>))"
    by (rule same_entries_trans [OF n1 _ n2]) (simp add: tN d(1))
  have other: "entry_at (st64 (phys s') (t + 8 * index 1 old_root_addr) 0) u i = entry_at (phys s) u i"
    if "page_aligned u" "i < 512" "u \<noteq> root s" "u \<noteq> t" for u i
    using entry_at_store [OF t(2) that(1) index_lt that(2)] entry_at_store [of "root s" u 511 i "phys s" ?x] that
    by (simp add: s')
  show "paging_ok bi (at_root F (s'\<lparr>phys := st64 (phys s') (t + 8 * index 1 old_root_addr) 0\<rparr>))" (is "paging_ok bi ?n")
  proof (rule same_entries_paging [OF all d(2)])
    have "nx_enabled ?n = nx_enabled s" "root ?n = F" using same_entries_nx [OF all] d(1) by simp_all
    then show "recursive (nx_enabled ?n) (phys ?n) (root ?n)"
      using d(6) other [OF aF _ ne] by (simp add: recursive_def)
    show "frames ?n = frames (at_root F s)" by (simp add: s')
    fix u i :: u64 assume u: "u \<in> pool_addrs bi (at_root F s)" "i < 512"
    have "u \<noteq> root s" "u \<noteq> t" using u(1) d(4) apart(2) t(1) by auto
    moreover have "page_aligned u" using u(1) by (auto simp: pool_addrs_def)
    ultimately show "entry_at (phys ?n) u i = entry_at (phys (at_root F s)) u i" using other u(2) by simp
  qed
qed

text \<open>The steps up to the load of cr3: the old tables are as they were, the new ones complete.\<close>

lemma restore_old:
  assumes w: "window bi s F" and m: "unat m < 2 ^ 40" "get_frame_start_addr m = root s"
    and tree: "tree_ok (nx_enabled s) (phys s) (root s)" and B: "page_at s old_root_addr (root s)" "table_at s (path_to 1 old_root_addr) = Some t"
    and apart: "tables_of s \<inter> tables_of (at_root F s) = {}" "tables_of s \<inter> pool_addrs bi s = {}"
  shows "\<exists>c1 s2 s3 s4. print_out bi (''New kernel page tables set up.'' @ [newline]) [] s = ret (s\<lparr>tty := c1\<rparr>) \<and>
    set_page_table_entry (old_root_addr + 8 * 511) m rw_bits (s\<lparr>tty := c1\<rparr>) = ret s2 \<and>
    print_entry bi ''Old p4 entry[511] %#zX'' (p4_table + 8 * 511) (flush_tlb s2) = ret s3 \<and>
    unmap_page 0xdddd0000 g s3 = ret s4 \<and>
    same_entries (at_root F s) (at_root F s4) \<and> paging_ok bi (at_root F s4) \<and> frames s4 = frames s"
proof -
  let ?x = "entry_for m rw_bits"
  obtain c1 where c1: "print_out bi (''New kernel page tables set up.'' @ [newline]) [] s = ret (s\<lparr>tty := c1\<rparr>)"
    using print_out_msg(7) by blast
  let ?s1 = "s\<lparr>tty := c1\<rparr>"
  define s2 where "s2 = ?s1\<lparr>phys := st64 (phys ?s1) (root ?s1 + 8 * 511) ?x\<rparr>"
  have swap: "at_root F ?s1 = (at_root F s)\<lparr>tty := c1\<rparr>" by simp
  have one: "window bi ?s1 F" "get_frame_start_addr m = root ?s1" "tree_ok (nx_enabled ?s1) (phys ?s1) (root ?s1)"
    "table_at ?s1 (path_to 1 old_root_addr) = Some t" "tables_of ?s1 \<inter> tables_of (at_root F ?s1) = {}"
    "tables_of ?s1 \<inter> pool_addrs bi ?s1 = {}"
    using w m(2) tree B(2) apart unfolding swap window_tty by simp_all
  note close = close_window [OF one(1) m(1) one(2-6) s2_def]
  have "mmu ?s1 (old_root_addr + 8 * 511) = Some (root ?s1 + 8 * 511)"
    using page_at_slot [OF B(1) root_addrs(5), of 511] by simp
  then have e1: "set_page_table_entry (old_root_addr + 8 * 511) m rw_bits ?s1 = ret s2"
    unfolding s2_def by (rule set_entry_at)
  have "tables_ok (flush_tlb s2)" using close(1) by (simp add: flush_tlb_drops)
  then obtain c2 where c2: "print_entry bi ''Old p4 entry[511] %#zX'' (p4_table + 8 * 511) (flush_tlb s2) = ret ((flush_tlb s2)\<lparr>tty := c2\<rparr>)"
    using print_entry_ok(1) [OF top_entry] by blast
  let ?s3 = "(flush_tlb s2)\<lparr>tty := c2\<rparr>"
  define s4 where "s4 = ?s3\<lparr>phys := st64 (phys ?s3) (t + 8 * index 1 old_root_addr) 0, tlb := Map.empty\<rparr>"
  have "tables_ok ?s3" "table_at ?s3 (path_to 1 old_root_addr) = Some t"
    using close(1,2) unfolding window_tty flush_tlb_drops tlb_views by simp_all
  then have u1: "unmap_page 0xdddd0000 g ?s3 = ret s4"
    using unmap_page_ok [OF _ root_addrs(6,7), of ?s3 t g] unfolding root_addrs(8) s4_def by auto
  have "same_entries (at_root F s) (at_root F s4)"
    using close(3) unfolding s4_def swap flush_tlb_drops by (simp add: same_entries_def tables_of_def table_at_def)
  moreover have swap4: "at_root F s4 =
      (at_root F (s2\<lparr>phys := st64 (phys s2) (t + 8 * index 1 old_root_addr) 0\<rparr>))\<lparr>tty := c2, tlb := Map.empty\<rparr>"
    unfolding s4_def flush_tlb_drops by simp
  have "paging_ok bi (at_root F s4)" unfolding swap4 window_tty tlb_views by (rule close(4))
  moreover have "frames s4 = frames s" by (simp add: s4_def s2_def flush_tlb_drops)
  ultimately show ?thesis using c1 e1 c2 u1 by blast
qed

lemma switch_tables_ok:
  assumes w: "window bi s F" and F: "F = get_frame_start_addr n"
    and m: "low_frame m" "get_frame_start_addr m = root s"
    and tree: "tree_ok (nx_enabled s) (phys s) (root s)" and B: "page_at s old_root_addr (root s)" "table_at s (path_to 1 old_root_addr) = Some t"
    and apart: "tables_of s \<inter> tables_of (at_root F s) = {}" "tables_of s \<inter> pool_addrs bi s = {}" and guard: "mmu (at_root F s) (root s) \<noteq> None"
  shows "\<exists>s'. switch_tables bi n m g s = ret s' \<and> paging_ok bi s' \<and> root s' = F \<and> nx_enabled s' = nx_enabled s \<and>
    frames s' = frames s \<and> (\<forall>v. index 4 v \<noteq> 511 \<longrightarrow> way_clear s' v) \<and>
    (\<forall>v. canonical v \<longrightarrow> index 4 v \<noteq> 511 \<longrightarrow> v div PAGE_SIZE \<noteq> m \<longrightarrow> last_entry s' v = last_entry (at_root F s) v) \<and>
    (\<forall>v. v div PAGE_SIZE = m \<longrightarrow> mmu s' v = None) \<and>
    (\<forall>v. index 4 v \<noteq> 511 \<longrightarrow> v div PAGE_SIZE \<noteq> m \<longrightarrow> mmu s' v = mmu (at_root F s) v)"
proof -
  note lm = low_frame_start [OF m(1)]
  note la = low_address(1,2) [OF lm(2), unfolded m(2)]
  have vm: "root s div PAGE_SIZE = m" using lm(3) m(2) by simp
  note d = windowD [OF w]
  obtain c1 s2 s3 s4 where s4: "print_out bi (''New kernel page tables set up.'' @ [newline]) [] s = ret (s\<lparr>tty := c1\<rparr>)"
    "set_page_table_entry (old_root_addr + 8 * 511) m rw_bits (s\<lparr>tty := c1\<rparr>) = ret s2"
    "print_entry bi ''Old p4 entry[511] %#zX'' (p4_table + 8 * 511) (flush_tlb s2) = ret s3"
    "unmap_page 0xdddd0000 g s3 = ret s4"
    "same_entries (at_root F s) (at_root F s4)" "paging_ok bi (at_root F s4)" "frames s4 = frames s"
    using restore_old [OF w lm(1) m(2) tree B apart] by blast
  define s5 where "s5 = (at_root F s4)\<lparr>tlb := Map.empty\<rparr>"
  have load: "flush_tlb (write_tlb (n * PAGE_SIZE) s4) = s5"
    by (simp add: write_tlb_def flush_tlb_drops s5_def F get_frame_start_addr_def)
  have same: "same_entries (at_root F s) s5" and ok5: "paging_ok bi s5"
    using s4(5,6) by (simp_all add: s5_def same_entries_def)
  note tok5 = paging_okD(1) [OF ok5]
  have tN: "tree_ok (nx_enabled (at_root F s)) (phys (at_root F s)) (root (at_root F s))"
    using paging_okD(1) [OF d(2)] by (simp add: tables_ok_def)
  have v5: "root s5 = F" "nx_enabled s5 = nx_enabled s"
    using same_entries_nx [OF same] by (simp_all add: d(1) s5_def)
  obtain t' where t': "table_at (at_root F s) (path_to 1 (root s)) = Some t'"
    using mapped_table [OF d(5) [OF la(2)] guard] by blast
  have at5: "table_at s5 (path_to 1 (root s)) = Some t'"
    using same_entries_tables [OF same tN table_path_to [of 1 "root s"]] la(2) t' by simp
  define s6 where "s6 = s5\<lparr>phys := st64 (phys s5) (t' + 8 * index 1 (root s)) 0\<rparr>"
  have s6: "unmap_page m g s5 = ret (s6\<lparr>tlb := Map.empty\<rparr>)" "\<forall>v. v div PAGE_SIZE = m \<longrightarrow> mmu s6 v = None"
    "\<forall>v. index 4 v \<noteq> 511 \<longrightarrow> v div PAGE_SIZE \<noteq> m \<longrightarrow> mmu s6 v = mmu s5 v"
    using unmap_page_ok [OF tok5 la at5, of g] unfolding vm s6_def by auto
  have ok6: "paging_ok bi s6" by (rule paging_ok_leaf [OF ok5 la(2) at5 s6_def])
  have ways: "way_clear s6 v" if "index 4 v \<noteq> 511" for v
    using growsD(7) [OF leaf_grows [OF tok5 la(2) at5 s6_def]] same_entries_way [OF same tN that d(5) [OF that]] that
    by (simp add: keeps_ways_def)
  let ?s6 = "s6\<lparr>tlb := Map.empty\<rparr>"
  obtain c3 where c3: "print_out bi (''End of remap.'' @ [newline]) [] ?s6 = ret (?s6\<lparr>tty := c3\<rparr>)"
    using print_out_msg(8) by blast
  let ?s7 = "?s6\<lparr>tty := c3\<rparr>"
  have "switch_tables bi n m g s = ret ?s7"
    unfolding switch_tables_def Let_def s4(1-3) obind_simps s4(4) load s6(1) c3 ..
  moreover have "root ?s7 = F" "nx_enabled ?s7 = nx_enabled s"
    using v5 by (simp_all add: root_def nx_enabled_def s6_def)
  moreover have "frames ?s7 = frames s" using s4(7) by (simp add: s6_def s5_def)
  moreover have "mmu ?s7 v = mmu (at_root F s) v" if "index 4 v \<noteq> 511" "v div PAGE_SIZE \<noteq> m" for v
    using s6(3) that same_entries_mmu [OF same tN that(1)] by simp
  moreover have "last_entry ?s7 v = last_entry (at_root F s) v"
    if "canonical v" "index 4 v \<noteq> 511" "v div PAGE_SIZE \<noteq> m" for v
    using leaf_last_entry(2) [OF tok5 la at5 s6_def that(1,2)] that(3) same_entries_last [OF same tN that(2)] by (simp add: vm)
  ultimately show ?thesis using ok6 ways s6(2) by (intro exI [of _ ?s7]) simp
qed

section \<open>The whole of \<open>remap_kernel\<close>\<close>

definition remap_ready :: "mem \<Rightarrow> multiboot_data \<Rightarrow> machine \<Rightarrow> bool" where
  "remap_ready bi d s \<longleftrightarrow> paging_ok bi s \<and> unat (cr3 s) < 2 ^ 52 \<and> boot_image_ok bi d \<and>
     way_clear s (0xdeadbeef * PAGE_SIZE) \<and> way_clear s (0xdddd0000 * PAGE_SIZE) \<and>
     get_frame_for_addr (cr3 s) \<in> kernel_pages bi d \<and> 7 + 3 * kernel_calls bi d \<le> card (frame_pool bi (frames s))"

lemma cr3_frame:
  assumes "unat (cr3 s) < 2 ^ 52"
  shows "get_frame_start_addr (get_frame_for_addr (cr3 s)) = root s"
proof -
  have "n < 52" if "bit (cr3 s) n" for n
  proof -
    have "take_bit 52 (cr3 s) = cr3 s" using assms by (simp add: take_bit_eq_mod word_unat_eq_iff unat_mod)
    then show ?thesis using that by (metis bit_take_bit_iff)
  qed
  then show ?thesis
    by (intro bit_eqI) (auto simp: frame_start_push get_frame_for_addr_def page_drop root_def entry_addr_def
      bit_push_bit_iff bit_drop_bit_eq bit_and_iff bit_phys_mask)
qed

text \<open>The frame of the new root, and its first mapping.\<close>

lemma take_root:
  assumes ready: "remap_ready bi d (enable_no_exec s)"
  shows "\<exists>n s1 s2. alloc_frame bi (enable_no_exec s) = ret (0, n, s1) \<and> n \<in> frame_pool bi (frames s) \<and>
    map_page_to_frame bi 0xdeadbeef n rw_bits s1 = ret s2 \<and> root_frame bi s2 n \<and> way_clear s2 old_root_addr \<and>
    root s2 = root s \<and> cr3 s2 = cr3 s \<and> card (frame_pool bi (frames s)) - 4 \<le> card (frame_pool bi (frames s2))"
proof -
  let ?s0 = "enable_no_exec s"
  have s0: "cr3 ?s0 = cr3 s" "frames ?s0 = frames s" "phys ?s0 = phys s" "root ?s0 = root s"
    by (simp_all add: enable_no_exec_def root_def)
  have r: "paging_ok bi ?s0" "way_clear ?s0 new_root_addr" "way_clear ?s0 old_root_addr" "7 \<le> card (frame_pool bi (frames s))"
    using ready s0 by (simp_all add: remap_ready_def)
  obtain n al c where n: "alloc_frame bi ?s0 = ret (0, n, ?s0\<lparr>frames := al, tty := c\<rparr>)" "n \<in> frame_pool bi (frames s)"
    "frame_pool bi al = frame_pool bi (frames s) - {n}" "allocator_ready bi (al, c)"
    using alloc_frame_takes [OF r(1)] r(4) s0(2) by fastforce
  define s1 where "s1 = ?s0\<lparr>frames := al, tty := c\<rparr>"
  let ?F = "get_frame_start_addr n"
  have sub: "frame_pool bi al \<subseteq> frame_pool bi (frames ?s0)" unfolding n(3) s0(2) by (rule Diff_subset)
  have ok1: "paging_ok bi s1" using paging_ok_alloc [OF r(1) sub n(4)] by (simp add: s1_def)
  have n40: "unat n < 2 ^ 40" using paging_okD(3) [OF r(1)] n(2) s0(2) by simp
  have "tables_of s1 = tables_of ?s0" by (simp add: tables_of_def table_at_def nx_enabled_def root_def s1_def)
  then have "?F \<notin> tables_of s1" using paging_okD(5) [OF r(1)] n(2) s0(2) by (auto simp: tables_of_def)
  moreover have "?F \<notin> pool_addrs bi s1"
  proof
    assume "?F \<in> pool_addrs bi s1"
    then obtain f where f: "f \<in> frame_pool bi al" "?F = get_frame_start_addr f" by (auto simp: pool_addrs_def s1_def)
    then have "unat f < 2 ^ 40" "f \<noteq> n" using paging_okD(3) [OF r(1)] n(3) s0(2) by auto
    then show False using frame_start_inj [of f n] n40 f(2) by simp
  qed
  ultimately have out1: "?F \<notin> tables_of s1 \<union> pool_addrs bi s1" by blast
  have blank1: "blank_table (phys s1) ?F" using paging_okD(4) [OF r(1)] n(2) s0(2) by (simp add: s1_def)
  have v1: "nx_enabled s1" "way_clear s1 new_root_addr" "way_clear s1 old_root_addr" "cr3 s1 = cr3 s"
    using enable_no_exec_bit(3) [of s] r(2,3) s0(1) by (simp_all add: s1_def nx_enabled_def way_clear_def root_def)
  have card1: "card (frame_pool bi (frames s1)) = card (frame_pool bi (frames s)) - 1"
    using n(2,3) by (simp add: s1_def)
  obtain s2 where s2: "map_page_to_frame bi 0xdeadbeef n rw_bits s1 = ret s2" "paging_ok bi s2" "page_at s2 new_root_addr ?F"
    "card (frame_pool bi (frames s)) - 4 \<le> card (frame_pool bi (frames s2))" "grows bi s1 s2"
    using map_page_to_frame_ok [OF ok1 root_addrs(2,3) v1(2), of "card (frame_pool bi (frames s)) - 4" n rw_bits] card1 r(4) n40 rw_flags_ok
    unfolding page_at_def root_addrs(4) by auto
  note g = growsD [OF s2(5)]
  have "?F \<notin> tables_of s2 \<union> pool_addrs bi s2" using g(3,4) out1 by blast
  moreover have "blank_table (phys s2) ?F" using g(6) out1 blank1 by (simp add: keeps_others_def blank_table_def)
  ultimately have "root_frame bi s2 n"
    using s2(2,3) g(2) v1(1) n40 by (simp add: root_frame_def nx_enabled_def)
  moreover have "way_clear s2 old_root_addr" "cr3 s2 = cr3 s" "root s2 = root s"
    using g(1,7) v1 root_addrs(7) by (simp_all add: root_def keeps_ways_def)
  ultimately show ?thesis using n(1,2) s2(1,4) unfolding s1_def by blast
qed

lemma remap_kernel_steps:
  assumes ready: "remap_ready bi d (enable_no_exec s)"
  shows "\<exists>n s'. n \<in> frame_pool bi (frames s) \<and> remap_kernel bi d g s = ret s' \<and> paging_ok bi s' \<and>
    root s' = get_frame_start_addr n \<and> nx_enabled s' \<and>
    (\<forall>v. index 4 v \<noteq> 511 \<longrightarrow> way_clear s' v) \<and>
    card (frame_pool bi (frames s)) \<le> card (frame_pool bi (frames s')) + 7 + 3 * kernel_calls bi d \<and>
    (\<forall>v. canonical v \<longrightarrow> index 4 v \<noteq> 511 \<longrightarrow> v div PAGE_SIZE \<noteq> get_frame_for_addr (cr3 s) \<longrightarrow>
       last_entry s' v = (case kernel_map bi d (v div PAGE_SIZE) of
         Some flags \<Rightarrow> entry_for (v div PAGE_SIZE) (present_bit OR flags) | None \<Rightarrow> 0)) \<and>
    (\<forall>v. v div PAGE_SIZE = get_frame_for_addr (cr3 s) \<longrightarrow> mmu s' v = None) \<and>
    (\<forall>v. index 4 v \<noteq> 511 \<longrightarrow> v div PAGE_SIZE \<noteq> get_frame_for_addr (cr3 s) \<longrightarrow>
       mmu s' v = (if v div PAGE_SIZE \<in> kernel_pages bi d then Some v else None))"
proof -
  let ?m = "get_frame_for_addr (cr3 s)"
  have r: "unat (cr3 s) < 2 ^ 52" "boot_image_ok bi d" "?m \<in> kernel_pages bi d"
    "7 + 3 * kernel_calls bi d \<le> card (frame_pool bi (frames s))"
    using ready by (simp_all add: remap_ready_def enable_no_exec_def)
  obtain n s1 s2 where s2: "alloc_frame bi (enable_no_exec s) = ret (0, n, s1)" "n \<in> frame_pool bi (frames s)"
    "map_page_to_frame bi 0xdeadbeef n rw_bits s1 = ret s2" "root_frame bi s2 n" "way_clear s2 old_root_addr"
    "root s2 = root s" "cr3 s2 = cr3 s" "card (frame_pool bi (frames s)) - 4 \<le> card (frame_pool bi (frames s2))"
    using take_root [OF ready] by blast
  let ?F = "get_frame_start_addr n"
  obtain c2 where c2: "print_out bi (''Old page addr: %#zx'' @ [newline]) [?m] s2 = ret (s2\<lparr>tty := c2\<rparr>)"
    using print_out_msg(3) by blast
  let ?s3 = "s2\<lparr>tty := c2\<rparr>"
  have lm: "low_frame ?m" by (rule kernel_pages_low [OF r(2,3)])
  have m: "get_frame_start_addr ?m = root s" by (rule cr3_frame [OF r(1)])
  have three: "root_frame bi ?s3 n" "get_frame_start_addr ?m = root ?s3" "way_clear ?s3 old_root_addr"
    "3 + 3 * kernel_calls bi d \<le> card (frame_pool bi (frames ?s3))"
    using s2(4-6,8) m r(4) by (simp_all add: root_frame_def page_at_def)
  obtain s4 t where s4: "build_tables bi d n ?m ?s3 = ret s4" "window bi s4 ?F" "root s4 = root ?s3" "nx_enabled s4"
    "tree_ok (nx_enabled s4) (phys s4) (root s4)" "page_at s4 old_root_addr (root ?s3)" "table_at s4 (path_to 1 old_root_addr) = Some t"
    "tables_of s4 \<inter> tables_of (at_root ?F s4) = {}"
    "\<forall>v. index 4 v \<noteq> 511 \<longrightarrow> mmu (at_root ?F s4) v = (if v div PAGE_SIZE \<in> kernel_pages bi d then Some v else None)"
    "\<forall>v. canonical v \<longrightarrow> index 4 v \<noteq> 511 \<longrightarrow> last_entry (at_root ?F s4) v = (case kernel_map bi d (v div PAGE_SIZE) of
       Some flags \<Rightarrow> entry_for (v div PAGE_SIZE) (present_bit OR flags) | None \<Rightarrow> 0)"
    "tables_of s4 \<inter> pool_addrs bi s4 = {}"
    "card (frame_pool bi (frames ?s3)) \<le> card (frame_pool bi (frames s4)) + 3 + 3 * kernel_calls bi d"
    using build_tables_ok [OF three(1) low_frame_start(1) [OF lm] three(2,3) r(2) three(4)] by blast
  have guard: "mmu (at_root ?F s4) (root s4) \<noteq> None"
    using s4(9) low_address(2) [OF low_frame_start(2) [OF lm]] low_frame_start(3) [OF lm] r(3) s2(6)
    unfolding s4(3) by (simp add: m)
  obtain s5 where s5: "switch_tables bi n ?m g s4 = ret s5" "paging_ok bi s5" "root s5 = ?F" "nx_enabled s5"
    "\<forall>v. v div PAGE_SIZE = ?m \<longrightarrow> mmu s5 v = None"
    "\<forall>v. index 4 v \<noteq> 511 \<longrightarrow> v div PAGE_SIZE \<noteq> ?m \<longrightarrow> mmu s5 v = mmu (at_root ?F s4) v"
    "frames s5 = frames s4" "\<forall>v. index 4 v \<noteq> 511 \<longrightarrow> way_clear s5 v"
    "\<forall>v. canonical v \<longrightarrow> index 4 v \<noteq> 511 \<longrightarrow> v div PAGE_SIZE \<noteq> ?m \<longrightarrow> last_entry s5 v = last_entry (at_root ?F s4) v"
    using switch_tables_ok [OF s4(2) refl lm _ s4(5) _ s4(7,8,11) guard, of g] s4(3,4,6) three(2) by auto
  have "remap_kernel bi d g s = ret s5"
    unfolding remap_kernel_def s2(1) obind_simps prod.case s2(3) Let_def read_tlb_def s2(7) c2 s4(1) s5(1) ..
  moreover have "card (frame_pool bi (frames s)) \<le> card (frame_pool bi (frames s5)) + 7 + 3 * kernel_calls bi d"
    using s4(12) s2(8) s5(7) by simp
  ultimately show ?thesis using s2(2) s5 s4(9,10) by (intro exI [of _ n] exI [of _ s5]) simp
qed


lemma low_frame_address:
  assumes "low_frame (v div PAGE_SIZE)"
  shows "canonical v" "index 4 v \<noteq> 511"
proof -
  have "unat v div 4096 < 2 ^ 35" using assms by (simp add: low_frame_def PAGE_SIZE_def unat_div)
  then have "unat v < 2 ^ 47" by simp
  then show "canonical v" "index 4 v \<noteq> 511" by (rule low_address)+
qed

lemma section_flag_bits:
  "bit (present_bit OR section_flags h) 1 \<longleftrightarrow> elf_section_is_writable h"
  "bit (present_bit OR section_flags h) 63 \<longleftrightarrow> \<not> elf_section_is_exectuable h"
  by (simp_all add: section_flags_def present_bit_def no_exec_bit_def writeable_bit_def Let_def)

section \<open>Properties\<close>

text \<open>C4. After \<open>remap_kernel\<close> the processor translates exactly the pages of the kernel, each to
  itself: the pages of the allocated sections, the video memory and the boot information, but
  not the page of the old root, which becomes a guard page. The tables are new ones, sound,
  with their root in a frame of the allocator, and no-execute is on. It holds when the
  recursive mapping is set up, at most three blank frames for each page and seven more are
  free, the sections start on page boundaries in the lower half of the address space, and the
  old root lies in a section.\<close>

theorem remap_kernel_maps:
  assumes "remap_ready bi d (enable_no_exec s)"
  shows "\<exists>s' n. remap_kernel bi d g s = ret s' \<and> n \<in> frame_pool bi (frames s) \<and> root s' = get_frame_start_addr n \<and>
    paging_ok bi s' \<and> nx_enabled s' \<and>
    (\<forall>v. index 4 v \<noteq> 511 \<longrightarrow>
       mmu s' v = (if v div PAGE_SIZE \<in> kernel_pages bi d - {get_frame_for_addr (cr3 s)} then Some v else None))"
proof -
  obtain n s' where s': "n \<in> frame_pool bi (frames s)" "remap_kernel bi d g s = ret s'" "paging_ok bi s'"
    "root s' = get_frame_start_addr n" "nx_enabled s'"
    "\<forall>v. v div PAGE_SIZE = get_frame_for_addr (cr3 s) \<longrightarrow> mmu s' v = None"
    "\<forall>v. index 4 v \<noteq> 511 \<longrightarrow> v div PAGE_SIZE \<noteq> get_frame_for_addr (cr3 s) \<longrightarrow>
       mmu s' v = (if v div PAGE_SIZE \<in> kernel_pages bi d then Some v else None)"
    using remap_kernel_steps [OF assms] by blast
  show ?thesis
    by (intro exI [of _ s'] exI [of _ n] conjI s'(1-5)) (use s'(6,7) in auto)
qed

text \<open>A machine whose only page table is its root, in one of the frames 1 and 2.\<close>

definition bare_machine :: "u64 \<Rightarrow> machine" where
  "bare_machine r = \<lparr>phys = put_entry r 511 (r + 3) (\<lambda>_. 0), tlb = Map.empty, cr0 = 0x80000011, cr3 = r + 3, cr4 = 0x20, msr = (\<lambda>_. 0),
     frames = sample_allocator, tty = sample_terminal\<rparr>"

lemma first_pool: "f \<in> frame_pool sample_image sample_allocator \<longleftrightarrow> f = 0 \<or> 4 \<le> f \<and> f \<le> 0x70FF"
proof -
  have last: "get_frame_for_addr (area_last (area sample_image 0x1008 0)) = 0x70FF"
    by (simp add: area_last_def area_def sample_facts get_frame_for_addr_def PAGE_SIZE_def)
  have ahead: "areas_ahead sample_image 0x1008 1 0 = {0}"
    by (auto simp: areas_ahead_def)
  have "f \<in> frame_pool sample_image sample_allocator \<longleftrightarrow> \<not> (2 \<le> f \<and> f \<le> 3) \<and> f \<noteq> 1 \<and> f \<le> 0x70FF"
    using ahead last by (auto simp: frame_pool_def can_issue_def reserved_def sample_allocator_def)
  also have "\<dots> \<longleftrightarrow> f = 0 \<or> 4 \<le> f \<and> f \<le> 0x70FF"
    by (auto simp: word_le_nat_alt word_unat_eq_iff)
  finally show ?thesis .
qed

lemma bare_root:
  assumes "r = 0x1000 \<or> r = 0x2000"
  shows "page_aligned r" "entry_addr (r + 3) = r" "hangs nx (r + 3) r"
  using assms by (auto simp: sample_aligned hangs_def entry_ok_def is_huge_def entry_addr_def physical_addr_mask_def bit_0)

lemma bare_views:
  assumes "r = 0x1000 \<or> r = 0x2000"
  shows "phys (enable_no_exec (bare_machine r)) = put_entry r 511 (r + 3) (\<lambda>_. 0)" "root (enable_no_exec (bare_machine r)) = r"
    "cr3 (enable_no_exec (bare_machine r)) = r + 3"
    "frames (enable_no_exec (bare_machine r)) = sample_allocator"
  using bare_root(2) [OF assms] by (simp_all add: enable_no_exec_def bare_machine_def root_def)

lemma bare_entries:
  assumes "r = 0x1000 \<or> r = 0x2000" "page_aligned t" "i < 512"
  shows "entry_at (put_entry r 511 (r + 3) (\<lambda>_. 0)) t i = (if t = r \<and> i = 511 then r + 3 else 0)"
  using entry_at_put [OF bare_root(1) [OF assms(1)] assms(2) _ assms(3), of 511 "r + 3" "\<lambda>_. 0"] by auto

lemma bare_only:
  assumes "r = 0x1000 \<or> r = 0x2000" "table_path q" "table_at (enable_no_exec (bare_machine r)) q = Some t"
  shows "q = [] \<and> t = r"
proof (cases q)
  case (Cons i "is")
  then have "entry_at (put_entry r 511 (r + 3) (\<lambda>_. 0)) r i = 0"
    using assms(2) by (simp add: bare_entries [OF assms(1)] bare_root [OF assms(1)] table_path_def)
  then show ?thesis using assms(3) Cons by (simp add: table_at_def bare_views [OF assms(1)])
qed (use assms in \<open>simp add: bare_views\<close>)

lemma bare_paging_ok:
  assumes r: "r = 0x1000 \<or> r = 0x2000"
  shows "paging_ok sample_image (enable_no_exec (bare_machine r))"
proof -
  let ?s = "enable_no_exec (bare_machine r)"
  note views = bare_views [OF r] and entries = bare_entries [OF r] and only = bare_only [OF r]
  have "recursive (nx_enabled ?s) (phys ?s) (root ?s)"
    by (simp add: recursive_def views entries bare_root [OF r])
  moreover have "tree_ok (nx_enabled ?s) (phys ?s) (root ?s)"
    unfolding tree_ok_def table_at_def [symmetric]
  proof (intro conjI allI impI)
    fix p q t
    assume "table_path p" "table_path q" "table_at ?s p = Some t" "table_at ?s q = Some t"
    then show "p = q" using only [of p t] only [of q t] by simp
  qed simp
  moreover have "unat f < 2 ^ 40 \<and> blank_table (phys ?s) (get_frame_start_addr f) \<and>
      (\<forall>q. table_path q \<longrightarrow> table_at ?s q \<noteq> Some (get_frame_start_addr f))"
    if f: "f = 0 \<or> 4 \<le> f \<and> f \<le> 0x70FF" for f
  proof -
    have u: "unat f \<le> 0x70FF" "unat f = 0 \<or> 4 \<le> unat f" using f by (auto simp: word_le_nat_alt)
    then have "unat (get_frame_start_addr f) = 4096 * unat f" by (intro unat_frame_start) simp
    then have "get_frame_start_addr f \<noteq> r" using u r by auto
    then show ?thesis using u only by (auto simp: blank_table_def views entries)
  qed
  ultimately show ?thesis
    using sample_ready by (simp add: paging_ok_def tables_ok_def views first_pool)
qed

lemma sample_section_flags: "sh_flags (kernel_section sample_image sample_tables 0) = 7"
  by (simp add: kernel_section_def sample_tables_def sample_image_def sectionheaders_def section_header_at_def load_eval)

lemma sample_sections:
  "section_number sample_image sample_tables = 1"
  "boot_last sample_image sample_tables = 0x1500"
  "sh_addr (kernel_section sample_image sample_tables 0) = 0x2000"
  "sh_size (kernel_section sample_image sample_tables 0) = 0x1000"
  "elf_section_is_allocated (kernel_section sample_image sample_tables 0)"
proof -
  show "elf_section_is_allocated (kernel_section sample_image sample_tables 0)"
    by (simp add: sample_section_flags elf_section_is_allocated_def)
qed (simp_all add: section_number_def boot_last_def kernel_section_def sample_tables_def sample_facts)

lemma sample_kernel_pages:
  "1 \<in> kernel_pages sample_image sample_tables" "2 \<in> section_pages (kernel_section sample_image sample_tables 0)"
  "2 \<in> kernel_pages sample_image sample_tables"
proof -
  have "1 \<in> boot_pages sample_image sample_tables"
    unfolding boot_pages_def sample_sections by (auto simp: sample_tables_def PAGE_SIZE_def intro!: exI [of _ 0])
  then show "1 \<in> kernel_pages sample_image sample_tables" by (simp add: kernel_pages_def)
  show "2 \<in> section_pages (kernel_section sample_image sample_tables 0)"
    unfolding section_pages_def sample_sections
    by (simp add: sample_sections) (intro exI [of _ "0x2000"], simp add: PAGE_SIZE_def)
  then show "2 \<in> kernel_pages sample_image sample_tables"
    by (simp add: kernel_pages_def sample_sections)
qed

lemma bare_frame:
  assumes "r = 0x1000 \<or> r = 0x2000"
  shows "get_frame_for_addr (r + 3) = r div 0x1000" "get_frame_for_addr (r + 3) = 1 \<or> get_frame_for_addr (r + 3) = 2"
  using assms by (auto simp: get_frame_for_addr_def PAGE_SIZE_def)

lemma sample_counts:
  "kernel_calls sample_image sample_tables = 3" "60 \<le> card (frame_pool sample_image sample_allocator)"
proof -
  show "kernel_calls sample_image sample_tables = 3"
    by (simp add: kernel_calls_def sample_sections section_calls_def section_page_count_def boot_page_count_def)
      (simp add: sample_tables_def)
  have "card ((\<lambda>k. of_nat k :: frame) ` {4..<64}) \<le> card (frame_pool sample_image sample_allocator)"
    by (rule card_mono) (auto simp: first_pool word_le_nat_alt unat_of_nat64)
  moreover have "card ((\<lambda>k. of_nat k :: frame) ` {4..<64}) = 60"
    by (subst card_image) (auto simp: inj_on_def of_nat64_eq_iff)
  ultimately show "60 \<le> card (frame_pool sample_image sample_allocator)" by simp
qed

lemma bare_ready:
  assumes r: "r = 0x1000 \<or> r = 0x2000"
  shows "remap_ready sample_image sample_tables (enable_no_exec (bare_machine r))"
proof -
  let ?s = "enable_no_exec (bare_machine r)"
  have way: "way_clear ?s v" if "index 4 v \<noteq> 511" for v
    unfolding way_clear_iff
  proof (intro allI impI)
    fix p i q u
    assume a: "path_to 1 v = p @ i # q" "table_at ?s p = Some u" "bit (entry_at (phys ?s) u i) 0"
    have "p = []" "u = r" using bare_only [OF r path_1_prefix(1) [OF a(1) that] a(2)] by simp_all
    moreover have "i = index 4 v" using a(1) \<open>p = []\<close> by (simp add: path_to_def)
    ultimately have False using a(3) that by (simp add: bare_views [OF r] bare_entries [OF r] bare_root [OF r])
    then show "entry_ok (nx_enabled ?s) (entry_at (phys ?s) u i) \<and> \<not> is_huge (entry_at (phys ?s) u i)" ..
  qed
  have "get_frame_for_addr (cr3 ?s) \<in> kernel_pages sample_image sample_tables"
    using bare_frame(2) [OF r] sample_kernel_pages(1,3) unfolding bare_views [OF r] by auto
  moreover have "unat (cr3 ?s) < 2 ^ 52" using r by (auto simp: bare_views [OF r])
  moreover have "boot_image_ok sample_image sample_tables"
    by (simp add: boot_image_ok_def sample_sections loadable_def page_aligned_def)
  ultimately show ?thesis
    using bare_paging_ok [OF r] sample_counts way [OF root_addrs(3)] way [OF root_addrs(7)]
    by (simp add: remap_ready_def bare_views [OF r])
qed

theorem remap_kernel_maps_witness:
  "\<exists>s'. remap_kernel sample_image sample_tables 0 (bare_machine 0x2000) = ret s' \<and>
     mmu s' 0xb8123 = Some 0xb8123 \<and> mmu s' 0x1010 = Some 0x1010 \<and> mmu s' 0x2008 = None \<and> mmu s' 0x7000 = None"
proof -
  obtain s' where s': "remap_kernel sample_image sample_tables 0 (bare_machine 0x2000) = ret s'"
    "\<forall>v. index 4 v \<noteq> 511 \<longrightarrow> mmu s' v =
       (if v div PAGE_SIZE \<in> kernel_pages sample_image sample_tables - {get_frame_for_addr (cr3 (bare_machine 0x2000))} then Some v else None)"
    using remap_kernel_maps [OF bare_ready, of "0x2000" 0] by auto
  have m: "get_frame_for_addr (cr3 (bare_machine 0x2000)) = 2"
    by (simp add: bare_machine_def get_frame_for_addr_def PAGE_SIZE_def)
  have k: "0xb8 \<in> kernel_pages sample_image sample_tables" by (simp add: kernel_pages_def)
  note b = sample_kernel_pages(1)
  have z: "7 \<notin> kernel_pages sample_image sample_tables"
  proof
    assume "7 \<in> kernel_pages sample_image sample_tables"
    then consider x where "7 = x div PAGE_SIZE" "x < 0x2FFF" | k :: nat where "7 = (0x1000 + 4096 * of_nat k :: u64) div PAGE_SIZE" "4096 * k \<le> 0x500"
      by (auto simp: kernel_pages_def sample_sections section_pages_def boot_pages_def split: if_splits) (auto simp: sample_tables_def)
    then show False
    proof cases
      case 1
      have "unat (7 :: u64) = unat x div 4096" unfolding 1(1) by (simp add: PAGE_SIZE_def unat_div)
      moreover have "unat x < 0x2FFF" using 1(2) by (simp add: word_less_nat_alt)
      ultimately have "unat x < 0x2FFF" "unat x div 4096 = 7" by simp_all
      then show False by simp
    next
      case 2
      then have "k = 0" by simp
      then show False using 2(1) by (simp add: PAGE_SIZE_def)
    qed
  qed
  have i: "index 4 0xb8123 \<noteq> 511" "index 4 0x1010 \<noteq> 511" "index 4 0x2008 \<noteq> 511" "index 4 0x7000 \<noteq> 511"
    by (rule low_address(2); simp)+
  show ?thesis
    using s' i k b z unfolding m by (intro exI [of _ s']) (simp add: PAGE_SIZE_def)
qed

text \<open>C6. The new tables protect the sections as their flags say: a page that belongs to one section only
  is mapped writable exactly if the section is, and not executable exactly if the section is
  not. Three kinds of pages are left out, which the code maps apart from the sections: the guard
  page of the old root, the page of the video memory and those of the boot information.\<close>

theorem remap_kernel_protects:
  assumes "remap_ready bi d (enable_no_exec s)" "i < section_number bi d"
    and "v div PAGE_SIZE \<in> section_pages (kernel_section bi d i)"
    and "\<forall>j < section_number bi d. j \<noteq> i \<longrightarrow> v div PAGE_SIZE \<notin> section_pages (kernel_section bi d j)"
    and "v div PAGE_SIZE \<notin> {0xb8, get_frame_for_addr (cr3 s)} \<union> boot_pages bi d"
  shows "\<exists>s'. remap_kernel bi d g s = ret s' \<and> mmu s' v = Some v \<and>
    (bit (last_entry s' v) 1 \<longleftrightarrow> elf_section_is_writable (kernel_section bi d i)) \<and>
    (bit (last_entry s' v) 63 \<longleftrightarrow> \<not> elf_section_is_exectuable (kernel_section bi d i))"
proof -
  let ?p = "v div PAGE_SIZE" and ?h = "kernel_section bi d i"
  have k: "?p \<in> kernel_pages bi d" using assms(2,3) by (auto simp: kernel_pages_def)
  have "low_frame ?p" using kernel_pages_low [OF _ k] assms(1) by (simp add: remap_ready_def)
  note v = low_frame_address [OF this]
  have "sections_map (kernel_section bi d) [0..<section_number bi d] ?p = Some (section_flags ?h)"
    using assms(2-4) by (intro sections_map_only) auto
  then have m: "kernel_map bi d ?p = Some (section_flags ?h)"
    using assms(5) by (simp add: kernel_map_def map_add_def with_flags_app)
  obtain s' where s': "remap_kernel bi d g s = ret s'" "mmu s' v = Some v"
    "last_entry s' v = entry_for ?p (present_bit OR section_flags ?h)"
    using remap_kernel_steps [OF assms(1), of g] v k m assms(5) by auto
  then show ?thesis using section_flag_bits [of ?h] by (auto simp: bit_entry_for)
qed

theorem remap_kernel_protects_witness:
  "\<exists>s'. remap_kernel sample_image sample_tables 0 (bare_machine 0x1000) = ret s' \<and> mmu s' 0x2123 = Some 0x2123 \<and>
     bit (last_entry s' 0x2123) 1 \<and> \<not> bit (last_entry s' 0x2123) 63"
proof -
  have p: "0x2123 div PAGE_SIZE = 2" by (simp add: PAGE_SIZE_def)
  have m: "get_frame_for_addr (cr3 (bare_machine 0x1000)) = 1"
    by (simp add: bare_machine_def get_frame_for_addr_def PAGE_SIZE_def)
  have f: "elf_section_is_writable (kernel_section sample_image sample_tables 0)"
    "elf_section_is_exectuable (kernel_section sample_image sample_tables 0)"
    by (simp_all add: sample_section_flags elf_section_is_writable_def elf_section_is_exectuable_def)
  have b: "2 \<notin> boot_pages sample_image sample_tables"
  proof
    assume "2 \<in> boot_pages sample_image sample_tables"
    then obtain k where k: "2 = (md_start sample_tables + 4096 * of_nat k) div PAGE_SIZE" "unat (md_start sample_tables) + 4096 * k \<le> 0x1500"
      unfolding boot_pages_def sample_sections by auto
    then have "k = 0" by (simp add: sample_tables_def)
    then show False using k(1) by (simp add: sample_tables_def PAGE_SIZE_def)
  qed
  show ?thesis
    using remap_kernel_protects [OF bare_ready, of "0x1000" 0 "0x2123" 0] sample_kernel_pages(2) b f
    by (simp add: p m sample_sections)
qed

end
