(* ===== verification/Kmalloc.thy ===== *)
theory Kmalloc
  imports Remap
begin

text \<open>
  The kernel heap (src/kmalloc.c): a first-fit allocator that keeps its free list inside the
  heap. The \<open>struct free_node\<close> at address \<open>a\<close> is two packed 64-bit words, \<open>next\<close> at \<open>a\<close> and \<open>size\<close> at
  \<open>a + 8\<close>; every access goes byte by byte through the mapped part of the virtual memory, as
  nodes are not aligned. The lemmas refine \<open>allocate_memory\<close> to a first-fit allocator on lists
  of blocks, and show what the code does when its heap is exhausted or a block is freed twice.
\<close>

section \<open>The heap's memory\<close>

definition heap_start_addr :: u64 where "heap_start_addr = 4096 * 512 * 512"
definition heap_size :: u64 where "heap_size = 100 * 1024"
definition node_size :: u64 where "node_size = 16"
definition minimum_alloc_size :: u64 where "minimum_alloc_size = node_size + 2 * 8"

text \<open>The two static variables, the bytes the heap reads and writes, and the terminal it prints to.\<close>

record kheap =
  hmem :: mem
  hmapped :: "u64 \<Rightarrow> bool"
  heap_addr :: u64
  free_list_head :: u64
  hterm :: terminal

definition touch :: "u64 \<Rightarrow> nat \<Rightarrow> kheap \<Rightarrow> unit out" where
  "touch a n h =
     (case find (\<lambda>x. \<not> hmapped h x) (map (\<lambda>i. a + of_nat i) [0..<n]) of
        Some x \<Rightarrow> fail (Page_fault x) | None \<Rightarrow> ret ())"

definition hload :: "u64 \<Rightarrow> kheap \<Rightarrow> u64 out" where
  "hload a h = obind (touch a 8 h) (\<lambda>_. ret (ld64 (hmem h) a))"

definition hstore :: "u64 \<Rightarrow> u64 \<Rightarrow> kheap \<Rightarrow> kheap out" where
  "hstore a v h = obind (touch a 8 h) (\<lambda>_. ret (h\<lparr>hmem := st64 (hmem h) a v\<rparr>))"

definition say :: "string \<Rightarrow> u64 list \<Rightarrow> kheap \<Rightarrow> kheap out" where
  "say fmt args h = obind (terminal_printf (hmem h) (fmt @ [newline]) args (hterm h)) (\<lambda>t. ret (h\<lparr>hterm := t\<rparr>))"

text \<open>\<open>node->next\<close> and \<open>node->size\<close>, read and written.\<close>

definition get_next :: "u64 \<Rightarrow> kheap \<Rightarrow> u64 out" where "get_next node h = hload node h"
definition get_size :: "u64 \<Rightarrow> kheap \<Rightarrow> u64 out" where "get_size node h = hload (node + 8) h"
definition set_next :: "u64 \<Rightarrow> u64 \<Rightarrow> kheap \<Rightarrow> kheap out" where "set_next node v h = hstore node v h"
definition set_size :: "u64 \<Rightarrow> u64 \<Rightarrow> kheap \<Rightarrow> kheap out" where "set_size node v h = hstore (node + 8) v h"

section \<open>The operations\<close>

definition align_addr :: "u64 \<Rightarrow> u64 \<Rightarrow> u64" where
  "align_addr addr alignment = (if alignment \<noteq> 0 then (addr + alignment - 1) AND NOT (alignment - 1) else addr)"

definition get_free_node_from_addr :: "u64 \<Rightarrow> u64" where
  "get_free_node_from_addr addr = addr - node_size"

partial_function (option) compact_from :: "u64 \<Rightarrow> kheap \<Rightarrow> unit out" where
  "compact_from node h =
     (if node \<noteq> 0 then obind (get_next node h) (\<lambda>n. compact_from n h) else ret ())"

declare compact_from.simps [code]

definition compact_heap :: "kheap \<Rightarrow> unit out" where
  "compact_heap h = compact_from (free_list_head h) h"

text \<open>The two branches of \<open>allocate_memory\<close>: a block behind \<open>node\<close> is split or taken whole.\<close>

definition take_next :: "u64 \<Rightarrow> u64 \<Rightarrow> kheap \<Rightarrow> (u64 \<times> kheap) out" where
  "take_next required_bytes node h =
     obind (get_next node h) (\<lambda>old_node.
     obind (say ''Not from head, old node: %zx'' [old_node] h) (\<lambda>h1.
     obind (get_next old_node h1) (\<lambda>new_next_node.
     obind (get_size old_node h1) (\<lambda>old_size.
       let new_free_bytes = old_size - required_bytes;
           whole = (new_free_bytes < minimum_alloc_size);
           required_bytes = (if whole then old_size else required_bytes);
           new_free_bytes = (if whole then 0 else new_free_bytes)
       in obind (if new_free_bytes \<noteq> 0
                 then (let new_next_node = old_node + node_size + required_bytes
                       in obind (say ''New free bytes: %zx'' [new_free_bytes] h1) (\<lambda>h2.
                          obind (say ''New next node: %zx'' [new_next_node] h2) (\<lambda>h3.
                          obind (set_size new_next_node (new_free_bytes - node_size) h3) (\<lambda>h4.
                          obind (get_next old_node h4) (\<lambda>nx.
                          obind (set_next new_next_node nx h4) (\<lambda>h5. ret (new_next_node, h5)))))))
                 else ret (new_next_node, h1)) (\<lambda>(new_next_node, h6).
          obind (set_next old_node 0 h6) (\<lambda>h7.
          obind (set_size old_node required_bytes h7) (\<lambda>h8.
          obind (set_next node new_next_node h8) (\<lambda>h9. ret (old_node, h9))))))))) "

definition take_head :: "u64 \<Rightarrow> kheap \<Rightarrow> (u64 \<times> kheap) out" where
  "take_head required_bytes h =
     obind (say ''From head'' [] h) (\<lambda>h1.
       let old_head = free_list_head h1;
           new_head = old_head + node_size + required_bytes
       in obind (get_size old_head h1) (\<lambda>sz.
          obind (set_size new_head (sz - required_bytes - node_size) h1) (\<lambda>h2.
          obind (get_next old_head h2) (\<lambda>nx.
          obind (set_next new_head nx h2) (\<lambda>h3.
          obind (set_next old_head 0 h3) (\<lambda>h4.
          obind (set_size old_head required_bytes h4) (\<lambda>h5.
            ret (old_head, h5\<lparr>free_list_head := new_head\<rparr>))))))))"

partial_function (option) search_list :: "u64 \<Rightarrow> u64 \<Rightarrow> kheap \<Rightarrow> (u64 \<times> kheap) out" where
  "search_list required_bytes node h =
     obind (get_next node h) (\<lambda>nx.
       if nx \<noteq> 0 then
         obind (get_size nx h) (\<lambda>sz.
         obind (say ''Old size: %zx'' [sz] h) (\<lambda>h1.
           if sz \<ge> required_bytes then take_next required_bytes node h1
           else search_list required_bytes nx h1))
       else ret (0, h))"

declare search_list.simps [code]

definition allocate_memory :: "u64 \<Rightarrow> kheap \<Rightarrow> (u64 \<times> kheap) out" where
  "allocate_memory required_bytes h =
     obind (say ''Required bytes %zx'' [required_bytes] h) (\<lambda>h1.
     obind (search_list required_bytes (free_list_head h1) h1) (\<lambda>(alloc_node, h2).
       if alloc_node = 0 then take_head required_bytes h2 else ret (alloc_node, h2)))"

definition kmalloc :: "u64 \<Rightarrow> kheap \<Rightarrow> (u64 \<times> kheap) out" where
  "kmalloc bytes h = obind (allocate_memory bytes h) (\<lambda>(node, h'). ret (node + node_size, h'))"

definition kfree :: "u64 \<Rightarrow> kheap \<Rightarrow> kheap out" where
  "kfree addr h =
     (let node = get_free_node_from_addr addr
      in obind (say ''Free node base %zx'' [node] h) (\<lambda>h1.
         obind (get_next (free_list_head h1) h1) (\<lambda>nx.
         obind (set_next node nx h1) (\<lambda>h2.
           set_next (free_list_head h2) node h2))))"

definition copy_byte :: "u64 \<Rightarrow> u64 \<Rightarrow> kheap \<Rightarrow> kheap out" where
  "copy_byte d s h =
     obind (touch s 1 h) (\<lambda>_. obind (touch d 1 h) (\<lambda>_. ret (h\<lparr>hmem := (hmem h)(d := hmem h s)\<rparr>)))"

definition kmemcpy :: "u64 \<Rightarrow> u64 \<Rightarrow> u64 \<Rightarrow> kheap \<Rightarrow> kheap out" where
  "kmemcpy dest src bytes h = foldM (\<lambda>i. copy_byte (dest + of_nat i) (src + of_nat i)) [0..<unat bytes] h"

definition krealloc :: "u64 \<Rightarrow> u64 \<Rightarrow> kheap \<Rightarrow> (u64 \<times> kheap) out" where
  "krealloc addr bytes h =
     (let node = get_free_node_from_addr addr
      in obind (get_size node h) (\<lambda>sz.
         if sz \<ge> bytes then ret (addr, h)
         else obind (kmalloc bytes h) (\<lambda>(new_addr, h1).
              obind (get_size node h1) (\<lambda>sz1.
              obind (kmemcpy new_addr addr sz1 h1) (\<lambda>h2.
              obind (kfree addr h2) (\<lambda>h3. ret (new_addr, h3)))))))"

section \<open>Setting the heap up\<close>

definition map_heap_page :: "mem \<Rightarrow> u64 \<Rightarrow> machine \<Rightarrow> machine out" where
  "map_heap_page bi addr s =
     obind (get_page_for_vaddr addr) (\<lambda>page.
     obind (print_out bi (''Mapping page %#x'' @ [newline]) [addr] s) (\<lambda>s1.
       map_page bi page (present_bit OR writeable_bit) s1))"

partial_function (option) map_heap_pages :: "mem \<Rightarrow> u64 \<Rightarrow> machine \<Rightarrow> machine out" where
  "map_heap_pages bi addr s =
     (if addr < heap_start_addr + heap_size then
        obind (map_heap_page bi addr s) (\<lambda>s'. map_heap_pages bi (addr + PAGE_SIZE) s')
      else ret s)"

declare map_heap_pages.simps [code]

text \<open>The virtual memory of a machine, as the heap's loads and stores see it.\<close>

definition heap_view :: "machine \<Rightarrow> u64 \<Rightarrow> kheap" where
  "heap_view s head =
     \<lparr>hmem = (\<lambda>v. case mmu s v of Some p \<Rightarrow> phys s p | None \<Rightarrow> 0), hmapped = (\<lambda>v. mmu s v \<noteq> None),
      heap_addr = heap_start_addr, free_list_head = head, hterm = tty s\<rparr>"

definition init_heap :: "mem \<Rightarrow> machine \<Rightarrow> (machine \<times> kheap) out" where
  "init_heap bi s =
     obind (map_heap_pages bi heap_start_addr s) (\<lambda>s1.
       let h = heap_view s1 heap_start_addr
       in obind (set_next (free_list_head h) 0 h) (\<lambda>h1.
          obind (set_size (free_list_head h1) heap_size h1) (\<lambda>h2. ret (s1, h2))))"


section \<open>Nodes in memory\<close>

text \<open>
  What the free list needs of its nodes, whatever their layout: a field reads back as written, and
  writing a field changes no other field and no node that lies far away.
\<close>

definition far :: "u64 \<Rightarrow> u64 \<Rightarrow> bool" where
  "far a b \<longleftrightarrow> unat a + 16 \<le> unat b \<or> unat b + 16 \<le> unat a"

text \<open>Following the next pointers from node \<open>p\<close> visits the blocks and ends with pointer \<open>e\<close>.\<close>

type_synonym block = "u64 \<times> u64"

fun linked :: "(u64 \<Rightarrow> u64) \<Rightarrow> (u64 \<Rightarrow> u64) \<Rightarrow> u64 \<Rightarrow> block list \<Rightarrow> u64 \<Rightarrow> bool" where
  "linked nx sz p [] e \<longleftrightarrow> nx p = e"
| "linked nx sz p ((a, s) # bs) e \<longleftrightarrow> nx p = a \<and> a \<noteq> 0 \<and> sz a = s \<and> linked nx sz a bs e"

lemma linked_append:
  "linked nx sz p (xs @ ys) e \<longleftrightarrow>
     linked nx sz p xs (nx (last (p # map fst xs))) \<and> linked nx sz (last (p # map fst xs)) ys e"
  by (induction xs arbitrary: p) auto

lemma linked_last: "linked nx sz p bs e \<Longrightarrow> nx (last (p # map fst bs)) = e"
  by (induction nx sz p bs e rule: linked.induct) auto

lemma linked_cong:
  assumes "linked nx sz p bs e" "\<And>x. x \<in> insert p (fst ` set bs) \<Longrightarrow> nx' x = nx x" "\<And>x. x \<in> fst ` set bs \<Longrightarrow> sz' x = sz x"
  shows "linked nx' sz' p bs e"
  using assms by (induction nx sz p bs e rule: linked.induct) auto

lemma linked_move:
  assumes "linked nx sz p bs e" "nx' p' = nx p" "\<And>x. x \<in> fst ` set bs \<Longrightarrow> nx' x = nx x \<and> sz' x = sz x"
  shows "linked nx' sz' p' bs e"
  using assms
proof (cases bs)
  case (Cons b cs)
  then have "linked nx' sz' (fst b) cs e"
    using assms by (cases b) (auto intro!: linked_cong [of nx sz _ cs e])
  then show ?thesis using assms Cons by (cases b) auto
qed simp

lemma linked_relink:
  assumes "linked nx sz p bs e" "distinct (p # map fst bs)" "nx' (last (p # map fst bs)) = e'"
    and "\<And>x. x \<in> insert p (fst ` set bs) \<Longrightarrow> x \<noteq> last (p # map fst bs) \<Longrightarrow> nx' x = nx x"
    and "\<And>x. x \<in> fst ` set bs \<Longrightarrow> sz' x = sz x"
  shows "linked nx' sz' p bs e'"
  using assms
proof (induction nx sz p bs e rule: linked.induct)
  case (2 nx sz p a s bs e)
  have "last (a # map fst bs) \<in> set (a # map fst bs)" by (rule last_in_set) simp
  moreover have "p \<notin> set (a # map fst bs)" using 2(3) by simp
  ultimately have "p \<noteq> last (a # map fst bs)" by metis
  then have "nx' p = nx p" using 2(5) [of p] by simp
  moreover have "linked nx' sz' a bs e'"
    using 2 by (intro 2(1)) auto
  ultimately show ?case using 2 by auto
qed simp

locale node_store =
  fixes nx sz :: "'m \<Rightarrow> u64 \<Rightarrow> u64"
    and put_nx put_sz :: "'m \<Rightarrow> u64 \<Rightarrow> u64 \<Rightarrow> 'm"
    and node :: "u64 \<Rightarrow> bool"
  assumes same: "node a \<Longrightarrow> nx (put_nx m a v) a = v" "node a \<Longrightarrow> sz (put_sz m a v) a = v"
      "node a \<Longrightarrow> sz (put_nx m a v) a = sz m a" "node a \<Longrightarrow> nx (put_sz m a v) a = nx m a"
    and other: "node a \<Longrightarrow> node b \<Longrightarrow> far a b \<Longrightarrow> nx (put_nx m a v) b = nx m b \<and> sz (put_nx m a v) b = sz m b"
      "node a \<Longrightarrow> node b \<Longrightarrow> far a b \<Longrightarrow> nx (put_sz m a v) b = nx m b \<and> sz (put_sz m a v) b = sz m b"
begin

lemma push_front:
  assumes l: "linked (nx m) (sz m) p bs e" and n: "node a" "\<forall>x \<in> insert p (fst ` set bs). node x \<and> far a x"
    and d: "p \<notin> fst ` set bs" "node p" "\<forall>x \<in> fst ` set bs. far p x" "a \<noteq> 0" "far p a"
  shows "linked (nx (put_nx (put_nx m a (nx m p)) p a)) (sz (put_nx (put_nx m a (nx m p)) p a)) p ((a, sz m a) # bs) e"
proof -
  let ?m1 = "put_nx m a (nx m p)"
  let ?m2 = "put_nx ?m1 p a"
  have a: "nx ?m2 a = nx m p" "sz ?m2 a = sz m a" using n(1) d same other by simp_all
  have x: "nx ?m2 x = nx m x \<and> sz ?m2 x = sz m x" if "x \<in> fst ` set bs" for x
  proof -
    have "node x" "far a x" "far p x" using that n(2) d(3) by blast+
    then show ?thesis using n(1) d(2) other by simp
  qed
  have "linked (nx ?m2) (sz ?m2) a bs e" by (rule linked_move [OF l a(1) x])
  then show ?thesis using d n same a by simp
qed

end

text \<open>The layout of the code: \<open>next\<close> at offset 0, \<open>size\<close> at offset 8.\<close>

definition nx_of :: "mem \<Rightarrow> u64 \<Rightarrow> u64" where "nx_of m a = ld64 m a"
definition sz_of :: "mem \<Rightarrow> u64 \<Rightarrow> u64" where "sz_of m a = ld64 m (a + 8)"
definition put_nx :: "mem \<Rightarrow> u64 \<Rightarrow> u64 \<Rightarrow> mem" where "put_nx m a v = st64 m a v"
definition put_sz :: "mem \<Rightarrow> u64 \<Rightarrow> u64 \<Rightarrow> mem" where "put_sz m a v = st64 m (a + 8) v"
definition is_node :: "u64 \<Rightarrow> bool" where "is_node a \<longleftrightarrow> unat a + 16 \<le> 2 ^ 64"

lemmas field_defs = nx_of_def sz_of_def put_nx_def put_sz_def

lemma unat_field: "is_node a \<Longrightarrow> unat (a + 8) = unat a + 8"
  unfolding is_node_def by (subst unat_plus64) simp_all

lemma disj64_fields: "is_node a \<Longrightarrow> disj64 a (a + 8)" "is_node a \<Longrightarrow> disj64 (a + 8) a"
  by (rule disj64_apart; simp add: unat_field; simp add: is_node_def)+

lemma disj64_far:
  assumes "is_node a" "is_node b" "far a b"
  shows "disj64 a b" "disj64 (a + 8) b" "disj64 a (b + 8)" "disj64 (a + 8) (b + 8)"
  by (rule disj64_apart; use assms in \<open>auto simp: unat_field is_node_def far_def\<close>)+

interpretation nodes: node_store nx_of sz_of put_nx put_sz is_node
  by unfold_locales (simp_all add: field_defs ld64_st64_other disj64_fields disj64_far)


section \<open>Accesses inside the heap\<close>

definition heap_end :: nat where
  "heap_end = unat heap_start_addr + unat heap_size"

definition in_heap :: "u64 \<Rightarrow> nat \<Rightarrow> bool" where
  "in_heap a n \<longleftrightarrow> unat heap_start_addr \<le> unat a \<and> unat a + n \<le> heap_end"

abbreviation heap_node :: "u64 \<Rightarrow> bool" where
  "heap_node a \<equiv> in_heap a 16"

definition heap_mapped :: "kheap \<Rightarrow> bool" where
  "heap_mapped h \<longleftrightarrow> (\<forall>x. in_heap x 1 \<longrightarrow> hmapped h x)"

lemma heap_mapped_update [simp]:
  "heap_mapped (h\<lparr>hmem := m\<rparr>) = heap_mapped h" "heap_mapped (h\<lparr>hterm := t\<rparr>) = heap_mapped h"
  "heap_mapped (h\<lparr>free_list_head := a\<rparr>) = heap_mapped h"
  by (simp_all add: heap_mapped_def)

lemma heap_numbers: "unat heap_start_addr = 1073741824" "unat heap_size = 102400" "heap_end = 1073844224"
  by (simp_all add: heap_end_def heap_start_addr_def heap_size_def)

lemma heap_node_is_node: "heap_node a \<Longrightarrow> is_node a"
  by (simp add: in_heap_def is_node_def heap_numbers)

lemma heap_node_nonzero: "heap_node a \<Longrightarrow> a \<noteq> 0"
  by (auto simp: in_heap_def heap_numbers)

lemma touch_ok [simp]:
  assumes "heap_mapped h" "in_heap a n"
  shows "touch a n h = ret ()"
proof -
  have "hmapped h (a + of_nat i)" if i: "i < n" for i
  proof -
    have le: "unat a + i < 2 ^ 64" using assms(2) i by (simp add: in_heap_def heap_numbers)
    then have "unat (of_nat i :: u64) = i" by (intro unat_of_nat64) simp
    then have "unat (a + of_nat i) = unat a + i" using le unat_plus64 [of a "of_nat i"] by simp
    then have "in_heap (a + of_nat i) 1" using assms(2) i by (simp add: in_heap_def)
    then show ?thesis using assms(1) by (simp add: heap_mapped_def)
  qed
  then have "find (\<lambda>x. \<not> hmapped h x) (map (\<lambda>i. a + of_nat i) [0..<n]) = None"
    by (auto simp: find_None_iff)
  then show ?thesis by (simp add: touch_def)
qed

lemma heap_node_fields: "heap_node a \<Longrightarrow> in_heap a 8" "heap_node a \<Longrightarrow> in_heap (a + 8) 8"
  using unat_field [OF heap_node_is_node, of a] by (simp_all add: in_heap_def)

lemma field_access [simp]:
  assumes "heap_mapped h" "heap_node a"
  shows "get_next a h = ret (nx_of (hmem h) a)" "get_size a h = ret (sz_of (hmem h) a)"
    "set_next a v h = ret (h\<lparr>hmem := put_nx (hmem h) a v\<rparr>)" "set_size a v h = ret (h\<lparr>hmem := put_sz (hmem h) a v\<rparr>)"
  using assms heap_node_fields [OF assms(2)]
  by (simp_all add: get_next_def get_size_def set_next_def set_size_def hload_def hstore_def field_defs)

section \<open>The messages\<close>

lemma printf_prefix: "plain s \<Longrightarrow> terminal_printf m (s @ r) args t = terminal_printf m r args (fold print_plain s t)"
  by (induction s arbitrary: t) (simp_all add: plain_def printf_char)

definition echo :: "string \<Rightarrow> u64 \<Rightarrow> terminal \<Rightarrow> terminal" where
  "echo msg v t = print_plain newline (print_text (digits_text (CHR ''x'') (unat v)) (fold print_plain msg t))"

lemma say_zx: "plain msg \<Longrightarrow> say (msg @ ''%zx'') [v] h = ret (h\<lparr>hterm := echo msg v (hterm h)\<rparr>)"
  using printf_prefix [of msg "hmem h" "''%zx'' @ [newline]" "[v]" "hterm h"]
  by (simp add: say_def printf_x printf_char printf_nil newline_def echo_def)

lemma say_messages [simp]:
  "say ''Not from head, old node: %zx'' [v] h = ret (h\<lparr>hterm := echo ''Not from head, old node: '' v (hterm h)\<rparr>)"
  "say ''New free bytes: %zx'' [v] h = ret (h\<lparr>hterm := echo ''New free bytes: '' v (hterm h)\<rparr>)"
  "say ''New next node: %zx'' [v] h = ret (h\<lparr>hterm := echo ''New next node: '' v (hterm h)\<rparr>)"
  "say ''Old size: %zx'' [v] h = ret (h\<lparr>hterm := echo ''Old size: '' v (hterm h)\<rparr>)"
  "say ''Required bytes %zx'' [v] h = ret (h\<lparr>hterm := echo ''Required bytes '' v (hterm h)\<rparr>)"
  "say ''Free node base %zx'' [v] h = ret (h\<lparr>hterm := echo ''Free node base '' v (hterm h)\<rparr>)"
  using say_zx [of "''Not from head, old node: ''" v h] say_zx [of "''New free bytes: ''" v h]
    say_zx [of "''New next node: ''" v h] say_zx [of "''Old size: ''" v h] say_zx [of "''Required bytes ''" v h]
    say_zx [of "''Free node base ''" v h]
  by (simp_all add: plain_def)

lemma say_from_head [simp]:
  "say ''From head'' [] h = ret (h\<lparr>hterm := fold print_plain (''From head'' @ [newline]) (hterm h)\<rparr>)"
  by (simp add: say_def terminal_printf_plain plain_def newline_def)

section \<open>What the branches store\<close>

text \<open>The memory after a block \<open>a\<close> behind \<open>p\<close> was taken, and after one was cut from the head.\<close>

definition cut_memory :: "u64 \<Rightarrow> u64 \<Rightarrow> u64 \<Rightarrow> mem \<Rightarrow> mem" where
  "cut_memory req p a m =
     (let s = sz_of m a; b = a + node_size + req; m1 = put_sz m b (s - req - node_size); m2 = put_nx m1 b (nx_of m1 a)
      in if s - req < minimum_alloc_size then put_nx (put_sz (put_nx m a 0) a s) p (nx_of m a)
         else put_nx (put_sz (put_nx m2 a 0) a req) p b)"

definition head_memory :: "u64 \<Rightarrow> u64 \<Rightarrow> mem \<Rightarrow> mem" where
  "head_memory req a m =
     (let b = a + node_size + req; m1 = put_sz m b (sz_of m a - req - node_size); m2 = put_nx m1 b (nx_of m1 a)
      in put_sz (put_nx m2 a 0) a req)"

lemma take_next_stores:
  assumes "heap_mapped h" "heap_node p" "heap_node a" "nx_of (hmem h) p = a"
    and "\<not> sz_of (hmem h) a - req < minimum_alloc_size \<Longrightarrow> heap_node (a + node_size + req)"
  shows "\<exists>t. take_next req p h = ret (a, h\<lparr>hterm := t, hmem := cut_memory req p a (hmem h)\<rparr>)"
  using assms by (auto simp: take_next_def cut_memory_def Let_def minimum_alloc_size_def node_size_def)

lemma take_head_stores:
  assumes "heap_mapped h" "heap_node (free_list_head h)" "heap_node (free_list_head h + node_size + req)"
  shows "\<exists>t. take_head req h = ret (free_list_head h, h\<lparr>hterm := t,
    hmem := head_memory req (free_list_head h) (hmem h), free_list_head := free_list_head h + node_size + req\<rparr>)"
  using assms by (auto simp: take_head_def head_memory_def Let_def)

text \<open>The search stops at the first block that is large enough.\<close>

lemma search_finds:
  assumes "heap_mapped h" "linked (nx_of (hmem h)) (sz_of (hmem h)) p (xs @ (a, s) # ys) 0"
    and "heap_node p" "\<forall>b \<in> set xs. heap_node (fst b) \<and> snd b < req" "heap_node a" "req \<le> s"
  shows "\<exists>t. search_list req p h = take_next req (last (p # map fst xs)) (h\<lparr>hterm := t\<rparr>)"
  using assms
proof (induction xs arbitrary: p h)
  case Nil
  then show ?case by (subst search_list.simps) auto
next
  case (Cons b xs)
  obtain c r where b: "b = (c, r)" by (cases b)
  let ?h = "h\<lparr>hterm := echo ''Old size: '' r (hterm h)\<rparr>"
  have "search_list req p h = search_list req c ?h"
    using Cons.prems b by (subst search_list.simps) auto
  moreover have "\<exists>t. search_list req c ?h = take_next req (last (c # map fst xs)) (?h\<lparr>hterm := t\<rparr>)"
    using Cons.prems b by (intro Cons.IH) simp_all
  ultimately show ?case using b by (auto split: if_splits)
qed

lemma search_fails:
  assumes "heap_mapped h" "linked (nx_of (hmem h)) (sz_of (hmem h)) p xs 0" "heap_node p"
    and "\<forall>b \<in> set xs. heap_node (fst b) \<and> snd b < req"
  shows "\<exists>t. search_list req p h = ret (0, h\<lparr>hterm := t\<rparr>)"
  using assms
proof (induction xs arbitrary: p h)
  case Nil
  then show ?case by (subst search_list.simps) (auto intro!: exI [of _ "hterm h"])
next
  case (Cons b xs)
  obtain c r where b: "b = (c, r)" by (cases b)
  let ?h = "h\<lparr>hterm := echo ''Old size: '' r (hterm h)\<rparr>"
  have "search_list req p h = search_list req c ?h"
    using Cons.prems b by (subst search_list.simps) auto
  moreover have "\<exists>t. search_list req c ?h = ret (0, ?h\<lparr>hterm := t\<rparr>)"
    using Cons.prems b by (intro Cons.IH) simp_all
  ultimately show ?case by auto
qed


section \<open>The allocator as lists of blocks\<close>

text \<open>
  A block is the address and the size of a node; it occupies its header and \<open>size\<close> bytes. The
  block at the top of the heap counts its own header in its size.
\<close>

record aheap =
  top :: block
  frees :: "block list"
  live :: "block set"

definition extent :: "block \<Rightarrow> nat" where
  "extent b = 16 + unat (snd b)"

definition apart :: "block \<Rightarrow> block \<Rightarrow> bool" where
  "apart b c \<longleftrightarrow> unat (fst b) + extent b \<le> unat (fst c) \<or> unat (fst c) + extent c \<le> unat (fst b)"

definition blocks :: "aheap \<Rightarrow> block set" where
  "blocks A = set (frees A) \<union> live A"

text \<open>The blocks lie between the start of the heap and its top, they do not overlap, and no byte is lost.\<close>

definition aheap_ok :: "aheap \<Rightarrow> bool" where
  "aheap_ok A \<longleftrightarrow>
     finite (live A) \<and> distinct (frees A) \<and> set (frees A) \<inter> live A = {} \<and>
     (\<forall>b \<in> blocks A. unat heap_start_addr \<le> unat (fst b) \<and> unat (fst b) + extent b \<le> unat (fst (top A))) \<and>
     pairwise apart (blocks A) \<and>
     unat (fst (top A)) = unat heap_start_addr + (\<Sum>b \<in> blocks A. extent b) \<and>
     unat (fst (top A)) + unat (snd (top A)) = heap_end \<and> 16 \<le> unat (snd (top A))"

text \<open>First fit: the first free block that is large enough, cut when at least 32 bytes remain.\<close>

definition cut_block :: "u64 \<Rightarrow> block \<Rightarrow> block \<times> block list" where
  "cut_block req = (\<lambda>(a, s). if unat s - unat req < 32 then ((a, s), []) else ((a, req), [(a + 16 + req, s - req - 16)]))"

fun first_fit :: "u64 \<Rightarrow> block list \<Rightarrow> (block \<times> block list) option" where
  "first_fit req [] = None"
| "first_fit req (b # bs) =
     (if req \<le> snd b then Some (fst (cut_block req b), snd (cut_block req b) @ bs)
      else map_option (\<lambda>(c, cs). (c, b # cs)) (first_fit req bs))"

definition alloc_spec :: "u64 \<Rightarrow> aheap \<Rightarrow> (block \<times> aheap) option" where
  "alloc_spec req A =
     (case first_fit req (frees A) of
        Some (b, bs) \<Rightarrow> Some (b, A\<lparr>frees := bs, live := insert b (live A)\<rparr>)
      | None \<Rightarrow>
          if unat req + 32 \<le> unat (snd (top A)) then
            (let b = (fst (top A), req)
             in Some (b, A\<lparr>top := (fst (top A) + 16 + req, snd (top A) - req - 16), live := insert b (live A)\<rparr>))
          else None)"

definition free_spec :: "block \<Rightarrow> aheap \<Rightarrow> aheap" where
  "free_spec b A = A\<lparr>frees := b # frees A, live := live A - {b}\<rparr>"

lemma first_fit_None: "first_fit req bs = None \<longleftrightarrow> (\<forall>b \<in> set bs. snd b < req)"
  by (induction bs) (auto simp: not_le)

lemma first_fit_Some:
  assumes "first_fit req bs = Some (c, cs)"
  obtains xs b ys where "bs = xs @ b # ys" "\<forall>x \<in> set xs. snd x < req" "req \<le> snd b"
    "c = fst (cut_block req b)" "cs = xs @ snd (cut_block req b) @ ys"
  using assms
proof (induction bs arbitrary: cs thesis)
  case (Cons b bs)
  show ?case
  proof (cases "req \<le> snd b")
    case True
    then show ?thesis using Cons.prems(2) by (intro Cons.prems(1) [of "[]" b bs]) auto
  next
    case False
    then obtain ds where d: "first_fit req bs = Some (c, ds)" "cs = b # ds" using Cons.prems(2) by auto
    obtain xs e ys where "bs = xs @ e # ys" "\<forall>x \<in> set xs. snd x < req" "req \<le> snd e"
      "c = fst (cut_block req e)" "ds = xs @ snd (cut_block req e) @ ys"
      using Cons.IH [OF _ d(1)] by blast
    then show ?thesis using d(2) False by (intro Cons.prems(1) [of "b # xs" e ys]) (auto simp: not_le)
  qed
qed simp

lemma pairwise_apart_sym: "apart b c = apart c b"
  by (auto simp: apart_def)

lemma apart_far: "apart b c \<Longrightarrow> far (fst b) (fst c)"
  by (auto simp: apart_def far_def extent_def)

lemma not_apart_self [simp]: "\<not> apart b b"
  by (simp add: apart_def extent_def)

text \<open>Cutting a block replaces it by blocks that lie inside it and fill it.\<close>

lemma cut_block_parts:
  assumes "cut_block req b = (c, cs)" "req \<le> snd b" "unat (fst b) + extent b \<le> heap_end"
  shows "distinct (c # cs)" "(\<Sum>x \<in> set (c # cs). extent x) = extent b" "pairwise apart (set (c # cs))"
    "\<forall>x \<in> set (c # cs). unat (fst b) \<le> unat (fst x) \<and> unat (fst x) + extent x \<le> unat (fst b) + extent b"
    "fst c = fst b" "req \<le> snd c"
proof -
  obtain a s where b: "b = (a, s)" by (cases b)
  have le: "unat req \<le> unat s" using assms(2) b by (simp add: word_le_nat_alt)
  have "distinct (c # cs) \<and> (\<Sum>x \<in> set (c # cs). extent x) = extent b \<and> pairwise apart (set (c # cs)) \<and>
    (\<forall>x \<in> set (c # cs). unat (fst b) \<le> unat (fst x) \<and> unat (fst x) + extent x \<le> unat (fst b) + extent b) \<and>
    fst c = fst b \<and> req \<le> snd c"
  proof (cases "unat s - unat req < 32")
    case True
    then show ?thesis using assms b by (auto simp: cut_block_def)
  next
    case False
    then have c: "c = (a, req)" "cs = [(a + 16 + req, s - req - 16)]" using assms(1) b by (auto simp: cut_block_def)
    have end_lt: "unat a + 16 + unat s \<le> heap_end" using assms(3) b by (simp add: extent_def)
    then have "unat (a + 16) = unat a + 16" by (subst unat_plus64) (simp_all add: heap_numbers)
    then have n: "unat (a + 16 + req) = unat a + 16 + unat req"
      using end_lt le by (subst unat_plus64) (simp_all add: heap_numbers)
    have "unat (s - req) = unat s - unat req" using le by (simp add: unat_sub word_le_nat_alt)
    then have r: "unat (s - req - 16) = unat s - unat req - 16"
      using False by (subst unat_sub) (simp_all add: word_le_nat_alt)
    have ne: "(a, req) \<noteq> (a + 16 + req, s - req - 16)"
      using n by (metis add_le_same_cancel1 le_add1 not_numeral_le_zero prod.inject add.assoc)
    have ap: "apart (a, req) (a + 16 + req, s - req - 16)" using n by (simp add: apart_def extent_def)
    then show ?thesis
      using ne n r b c False le by (auto simp: extent_def pairwise_insert apart_def)
  qed
  then show "distinct (c # cs)" "(\<Sum>x \<in> set (c # cs). extent x) = extent b" "pairwise apart (set (c # cs))"
    "\<forall>x \<in> set (c # cs). unat (fst b) \<le> unat (fst x) \<and> unat (fst x) + extent x \<le> unat (fst b) + extent b"
    "fst c = fst b" "req \<le> snd c" by blast+
qed

lemma apart_inside:
  assumes "apart b y" "unat (fst b) \<le> unat (fst x)" "unat (fst x) + extent x \<le> unat (fst b) + extent b"
  shows "apart x y"
  using assms by (auto simp: apart_def)

lemma replace_block:
  assumes "pairwise apart (insert b X)" "b \<notin> X" "pairwise apart P"
    and "\<forall>x \<in> P. unat (fst b) \<le> unat (fst x) \<and> unat (fst x) + extent x \<le> unat (fst b) + extent b"
  shows "pairwise apart (P \<union> X)" "P \<inter> X = {}"
proof -
  have ap: "apart x y" "apart y x" if "x \<in> P" "y \<in> X" for x y
  proof -
    have "apart b y" using assms(1,2) that by (auto simp: pairwise_def)
    then show "apart x y" using assms(4) that apart_inside by blast
    then show "apart y x" by (simp add: pairwise_apart_sym)
  qed
  show "P \<inter> X = {}" using ap(1) not_apart_self by blast
  show "pairwise apart (P \<union> X)" using ap assms(1,3) by (auto simp: pairwise_def)
qed

lemma aheap_okD:
  assumes "aheap_ok A"
  shows "finite (live A)" "distinct (frees A)" "set (frees A) \<inter> live A = {}" "finite (blocks A)"
    "b \<in> blocks A \<Longrightarrow> unat heap_start_addr \<le> unat (fst b) \<and> unat (fst b) + extent b \<le> unat (fst (top A))"
    "pairwise apart (blocks A)"
    "unat (fst (top A)) = unat heap_start_addr + (\<Sum>b \<in> blocks A. extent b)"
    "unat (fst (top A)) + unat (snd (top A)) = heap_end" "16 \<le> unat (snd (top A))"
  using assms by (auto simp: aheap_ok_def blocks_def)

lemma alloc_fit_ok:
  assumes ok: "aheap_ok A" and fit: "first_fit req (frees A) = Some (c, ds)"
  shows "aheap_ok (A\<lparr>frees := ds, live := insert c (live A)\<rparr>) \<and> req \<le> snd c \<and> c \<notin> live A"
proof -
  obtain xs b ys where f: "frees A = xs @ b # ys" "\<forall>x \<in> set xs. snd x < req" "req \<le> snd b"
    "c = fst (cut_block req b)" "ds = xs @ snd (cut_block req b) @ ys"
    by (rule first_fit_Some [OF fit])
  note A = aheap_okD [OF ok]
  let ?X = "set xs \<union> set ys \<union> live A"
  obtain cs where cs: "cut_block req b = (c, cs)" using f(4) by (metis prod.collapse)
  have X: "blocks A = insert b ?X" "b \<notin> ?X" "finite ?X" using A(1-3) f(1) by (auto simp: blocks_def)
  have b: "unat heap_start_addr \<le> unat (fst b)" "unat (fst b) + extent b \<le> unat (fst (top A))"
    "unat (fst b) + extent b \<le> heap_end"
    using A(5) [of b] A(8) X(1) by auto
  note parts = cut_block_parts [OF cs f(3) b(3)]
  have rep: "pairwise apart (set (c # cs) \<union> ?X)" "set (c # cs) \<inter> ?X = {}"
    using replace_block [OF _ X(2) parts(3,4)] A(6) X(1) by auto
  let ?B = "A\<lparr>frees := ds, live := insert c (live A)\<rparr>"
  have B: "blocks ?B = set (c # cs) \<union> ?X" using f(5) cs by (auto simp: blocks_def)
  have "(\<Sum>x \<in> blocks ?B. extent x) = (\<Sum>x \<in> set (c # cs). extent x) + (\<Sum>x \<in> ?X. extent x)"
    unfolding B using rep(2) X(3) by (intro sum.union_disjoint) auto
  then have sum: "(\<Sum>x \<in> blocks ?B. extent x) = (\<Sum>x \<in> blocks A. extent x)"
    using parts(2) X by simp
  have "aheap_ok ?B"
    unfolding aheap_ok_def
  proof (intro conjI)
    show "distinct (frees ?B)" "set (frees ?B) \<inter> live ?B = {}"
      using rep(2) parts(1) A(2,3) f(1,5) cs by auto
    show "\<forall>x \<in> blocks ?B. unat heap_start_addr \<le> unat (fst x) \<and> unat (fst x) + extent x \<le> unat (fst (top ?B))"
    proof
      fix x assume "x \<in> blocks ?B"
      then consider "x \<in> set (c # cs)" | "x \<in> blocks A" using B X(1) by blast
      then show "unat heap_start_addr \<le> unat (fst x) \<and> unat (fst x) + extent x \<le> unat (fst (top ?B))"
      proof cases
        case 1
        then have "unat (fst b) \<le> unat (fst x)" "unat (fst x) + extent x \<le> unat (fst b) + extent b" using parts(4) by auto
        then show ?thesis using b by simp
      qed (use A(5) [of x] in simp)
    qed
    show "pairwise apart (blocks ?B)" using rep(1) B by simp
    show "unat (fst (top ?B)) = unat heap_start_addr + (\<Sum>b \<in> blocks ?B. extent b)" using sum A(7) by simp
  qed (use A in simp_all)
  then show ?thesis using parts(6) rep(2) by auto
qed

lemma alloc_top_ok:
  assumes ok: "aheap_ok A" and room: "unat req + 32 \<le> unat (snd (top A))"
  shows "aheap_ok (A\<lparr>top := (fst (top A) + 16 + req, snd (top A) - req - 16), live := insert (fst (top A), req) (live A)\<rparr>) \<and>
    (fst (top A), req) \<notin> blocks A"
proof -
  note A = aheap_okD [OF ok]
  obtain H S where t: "top A = (H, S)" by (cases "top A")
  let ?b = "(H, req)"
  let ?B = "A\<lparr>top := (H + 16 + req, S - req - 16), live := insert ?b (live A)\<rparr>"
  have S: "unat H + unat S = heap_end" "unat req + 32 \<le> unat S" using A(8) room t by simp_all
  then have "unat (H + 16) = unat H + 16" by (subst unat_plus64) (simp_all add: heap_numbers)
  then have H: "unat (H + 16 + req) = unat H + 16 + unat req"
    using S by (subst unat_plus64) (simp_all add: heap_numbers)
  have "unat (S - req) = unat S - unat req" using S by (simp add: unat_sub word_le_nat_alt)
  then have S': "unat (S - req - 16) = unat S - unat req - 16"
    using S by (subst unat_sub) (simp_all add: word_le_nat_alt)
  have in_b: "unat heap_start_addr \<le> unat (fst x) \<and> unat (fst x) + extent x \<le> unat H" if "x \<in> blocks A" for x
    using A(5) [OF that] t by simp
  have new: "?b \<notin> blocks A" using in_b [of ?b] by (auto simp: extent_def)
  have B: "blocks ?B = insert ?b (blocks A)" by (auto simp: blocks_def)
  have ap: "apart ?b x" "apart x ?b" if "x \<in> blocks A" for x using in_b [OF that] by (simp_all add: apart_def)
  have "aheap_ok ?B"
    unfolding aheap_ok_def
  proof (intro conjI)
    show "set (frees ?B) \<inter> live ?B = {}" using A(3) new by (auto simp: blocks_def)
    show "\<forall>x \<in> blocks ?B. unat heap_start_addr \<le> unat (fst x) \<and> unat (fst x) + extent x \<le> unat (fst (top ?B))"
    proof
      fix x assume "x \<in> blocks ?B"
      then consider "x = ?b" | "x \<in> blocks A" using B by blast
      then show "unat heap_start_addr \<le> unat (fst x) \<and> unat (fst x) + extent x \<le> unat (fst (top ?B))"
        by cases (use A(7) t H in_b [of x] in \<open>simp_all add: extent_def\<close>)
    qed
    show "pairwise apart (blocks ?B)" using A(6) ap unfolding B by (auto simp: pairwise_insert)
    show "unat (fst (top ?B)) = unat heap_start_addr + (\<Sum>b \<in> blocks ?B. extent b)"
      unfolding B using A(4,7) new t H by (simp add: extent_def)
    show "unat (fst (top ?B)) + unat (snd (top ?B)) = heap_end" "16 \<le> unat (snd (top ?B))" using S S' H by simp_all
  qed (use A in simp_all)
  then show ?thesis using new t by simp
qed

lemma alloc_spec_ok:
  assumes "aheap_ok A" "alloc_spec req A = Some (b, B)"
  shows "aheap_ok B \<and> req \<le> snd b \<and> b \<notin> live A \<and> live B = insert b (live A)"
  using assms alloc_fit_ok [OF assms(1), of req] alloc_top_ok [OF assms(1), of req]
  by (auto simp: alloc_spec_def Let_def blocks_def split: option.splits if_splits)

lemma free_spec_ok:
  assumes "aheap_ok A" "b \<in> live A"
  shows "aheap_ok (free_spec b A)" "blocks (free_spec b A) = blocks A"
proof -
  show "blocks (free_spec b A) = blocks A" using assms(2) by (auto simp: blocks_def free_spec_def)
  then show "aheap_ok (free_spec b A)"
    using aheap_okD [OF assms(1)] assms(2) unfolding aheap_ok_def by (auto simp: free_spec_def)
qed


section \<open>Refinement\<close>

text \<open>The memory holds the abstract heap: its top, its free list in order, and the header of each live block.\<close>

definition represents :: "kheap \<Rightarrow> aheap \<Rightarrow> bool" where
  "represents h A \<longleftrightarrow> heap_mapped h \<and> free_list_head h = fst (top A) \<and> sz_of (hmem h) (fst (top A)) = snd (top A) \<and>
     linked (nx_of (hmem h)) (sz_of (hmem h)) (fst (top A)) (frees A) 0 \<and>
     (\<forall>b \<in> live A. sz_of (hmem h) (fst b) = snd b)"

definition heap_rel :: "kheap \<Rightarrow> aheap \<Rightarrow> bool" where
  "heap_rel h A \<longleftrightarrow> aheap_ok A \<and> represents h A"

text \<open>The bytes a block gives to its user.\<close>

definition payload :: "block \<Rightarrow> u64 set" where
  "payload b = {x. unat (fst b) + 16 \<le> unat x \<and> unat x < unat (fst b) + extent b}"

lemma byte_kept:
  assumes "is_node a" "unat x < unat a \<or> unat a + 16 \<le> unat x"
  shows "put_nx m a v x = m x" "put_sz m a v x = m x"
proof -
  have "x \<notin> span a 8" using assms span_unat [of a 8 x] by (auto simp: is_node_def)
  moreover have "x \<notin> span (a + 8) 8"
    using assms span_unat [of "a + 8" 8 x] unat_field [OF assms(1)] by (auto simp: is_node_def)
  ultimately show "put_nx m a v x = m x" "put_sz m a v x = m x"
    by (simp_all add: put_nx_def put_sz_def st64_byte_other)
qed

lemma heap_rel_nodes:
  assumes "aheap_ok A"
  shows "heap_node (fst (top A))" "b \<in> blocks A \<Longrightarrow> heap_node (fst b)" "b \<in> blocks A \<Longrightarrow> far (fst b) (fst (top A))"
    "b \<in> blocks A \<Longrightarrow> c \<in> blocks A \<Longrightarrow> b \<noteq> c \<Longrightarrow> far (fst b) (fst c)" "inj_on fst (blocks A)"
proof -
  note A = aheap_okD [OF assms]
  show "heap_node (fst (top A))" using A(7-9) by (simp add: in_heap_def)
  show "heap_node (fst b)" "far (fst b) (fst (top A))" if "b \<in> blocks A" for b
    using A(5) [OF that] A(8) by (simp_all add: in_heap_def extent_def far_def)
  show *: "far (fst b) (fst c)" if "b \<in> blocks A" "c \<in> blocks A" "b \<noteq> c" for b c
    using A(6) that by (intro apart_far) (simp add: pairwise_def)
  show "inj_on fst (blocks A)"
  proof (rule inj_onI)
    fix b c assume "b \<in> blocks A" "c \<in> blocks A" "fst b = fst c"
    then show "b = c" using * [of b c] by (cases "b = c") (auto simp: far_def)
  qed
qed

lemma payload_misses:
  assumes "aheap_ok A" "b \<in> blocks A" "c \<in> blocks A" "x \<in> payload c"
  shows "unat x < unat (fst b) \<or> unat (fst b) + 16 \<le> unat x"
proof -
  have "c = b \<or> apart b c" using aheap_okD(6) [OF assms(1)] assms(2,3) by (auto simp: pairwise_def)
  then show ?thesis using assms(4) by (auto simp: payload_def apart_def extent_def)
qed

text \<open>\<open>kfree\<close> pushes the block behind the head.\<close>

lemma far_sym: "far a b = far b a"
  by (auto simp: far_def)

lemma far_irrefl [simp]: "\<not> far a a"
  by (simp add: far_def)

lemma kfree_pushes:
  assumes rel: "heap_rel h A" and b: "b \<in> live A"
  shows "\<exists>h'. kfree (fst b + 16) h = ret h' \<and> hmapped h' = hmapped h \<and> heap_rel h' (free_spec b A) \<and>
    (\<forall>c \<in> blocks A. \<forall>x \<in> payload c. hmem h' x = hmem h x)"
proof -
  have ok: "aheap_ok A" and rep: "represents h A" using rel by (simp_all add: heap_rel_def)
  let ?p = "fst (top A)" and ?a = "fst b" and ?m = "hmem h"
  let ?m' = "put_nx (put_nx ?m ?a (nx_of ?m ?p)) ?p ?a"
  note nodes = heap_rel_nodes [OF ok]
  have bb: "b \<in> blocks A" using b by (simp add: blocks_def)
  have n: "heap_node ?p" "heap_node ?a" "is_node ?p" "is_node ?a" "far ?a ?p" "?a \<noteq> 0"
    using nodes(1) nodes(2,3) [OF bb] heap_node_is_node heap_node_nonzero by auto
  have h: "free_list_head h = ?p" "heap_mapped h" "sz_of ?m ?p = snd (top A)"
    "linked (nx_of ?m) (sz_of ?m) ?p (frees A) 0" "\<forall>c \<in> live A. sz_of ?m (fst c) = snd c"
    using rep by (simp_all add: represents_def)
  let ?h' = "h\<lparr>hterm := echo ''Free node base '' ?a (hterm h), hmem := ?m'\<rparr>"
  have run: "kfree (?a + 16) h = ret ?h'"
    using h(1,2) n(1,2) by (simp add: kfree_def get_free_node_from_addr_def node_size_def Let_def)
  have fr: "is_node x \<and> far ?a x \<and> far ?p x" if x: "x \<in> fst ` set (frees A)" for x
  proof -
    obtain c where c: "c \<in> set (frees A)" "x = fst c" using x by blast
    then have "c \<in> blocks A" "c \<noteq> b" using b aheap_okD(3) [OF ok] by (auto simp: blocks_def)
    then show ?thesis
      using nodes(2,3) [of c] nodes(4) [OF bb, of c] c(2) heap_node_is_node far_sym by auto
  qed
  have "linked (nx_of ?m') (sz_of ?m') ?p ((?a, sz_of ?m ?a) # frees A) 0"
  proof (rule nodes.push_front [OF h(4) n(4) _ _ n(3) _ n(6)])
    show "?p \<notin> fst ` set (frees A)" using fr [of ?p] by auto
  qed (use fr n far_sym in auto)
  then have "linked (nx_of ?m') (sz_of ?m') ?p (b # frees A) 0" using h(5) b by (metis prod.collapse)
  moreover have "sz_of ?m' (fst c) = sz_of ?m (fst c)" if "c = top A \<or> c \<in> blocks A" for c
  proof (cases "c = top A \<or> c = b")
    case True
    then show ?thesis using n nodes.same nodes.other far_sym by (metis (no_types))
  next
    case False
    then have c: "c \<in> blocks A" "c \<noteq> b" using that by auto
    have "is_node (fst c)" "far ?a (fst c)" "far ?p (fst c)"
      using nodes(2,3) [OF c(1)] nodes(4) [OF bb c(1)] c(2) heap_node_is_node far_sym by auto
    then show ?thesis using n nodes.other by simp
  qed
  ultimately have "represents ?h' (free_spec b A)"
    using h by (auto simp: represents_def free_spec_def blocks_def)
  moreover have "?m' x = ?m x" if c: "c \<in> blocks A" and x: "x \<in> payload c" for c x
  proof -
    have "unat x < unat ?p" using x aheap_okD(5) [OF ok c] by (simp add: payload_def)
    moreover have "unat x < unat ?a \<or> unat ?a + 16 \<le> unat x"
      by (rule payload_misses [OF ok bb c x])
    ultimately show ?thesis using n byte_kept by simp
  qed
  ultimately show ?thesis
    using run free_spec_ok(1) [OF ok b] by (auto simp: heap_rel_def)
qed


lemma cut_fields:
  assumes n: "is_node p" "is_node a" "far a p"
    and b: "\<not> sz_of m a - req < minimum_alloc_size \<Longrightarrow>
      is_node (a + node_size + req) \<and> far a (a + node_size + req) \<and> far p (a + node_size + req)"
  shows "nx_of (cut_memory req p a m) p =
      (if sz_of m a - req < minimum_alloc_size then nx_of m a else a + node_size + req)"
    "sz_of (cut_memory req p a m) p = sz_of m p"
    "sz_of (cut_memory req p a m) a = (if sz_of m a - req < minimum_alloc_size then sz_of m a else req)"
    "\<not> sz_of m a - req < minimum_alloc_size \<Longrightarrow> nx_of (cut_memory req p a m) (a + node_size + req) = nx_of m a"
    "\<not> sz_of m a - req < minimum_alloc_size \<Longrightarrow>
       sz_of (cut_memory req p a m) (a + node_size + req) = sz_of m a - req - node_size"
    "is_node x \<Longrightarrow> far a x \<Longrightarrow> far p x \<Longrightarrow> (\<not> sz_of m a - req < minimum_alloc_size \<Longrightarrow> far (a + node_size + req) x) \<Longrightarrow>
       nx_of (cut_memory req p a m) x = nx_of m x \<and> sz_of (cut_memory req p a m) x = sz_of m x"
  using n b by (auto simp: cut_memory_def Let_def nodes.same nodes.other far_sym)

lemma cut_bytes:
  assumes n: "is_node p" "is_node a"
    and b: "\<not> sz_of m a - req < minimum_alloc_size \<Longrightarrow> is_node (a + node_size + req) \<and>
      (unat x < unat (a + node_size + req) \<or> unat (a + node_size + req) + 16 \<le> unat x)"
    and x: "unat x < unat p \<or> unat p + 16 \<le> unat x" "unat x < unat a \<or> unat a + 16 \<le> unat x"
  shows "cut_memory req p a m x = m x"
  using n b x by (auto simp: cut_memory_def Let_def byte_kept)

lemma head_fields:
  assumes n: "is_node a" "is_node (a + node_size + req)" "far a (a + node_size + req)"
  shows "sz_of (head_memory req a m) a = req" "nx_of (head_memory req a m) (a + node_size + req) = nx_of m a"
    "sz_of (head_memory req a m) (a + node_size + req) = sz_of m a - req - node_size"
    "is_node x \<Longrightarrow> far a x \<Longrightarrow> far (a + node_size + req) x \<Longrightarrow>
       nx_of (head_memory req a m) x = nx_of m x \<and> sz_of (head_memory req a m) x = sz_of m x"
  using n by (auto simp: head_memory_def Let_def nodes.same nodes.other far_sym)

text \<open>Taking the head.\<close>

lemma kmalloc_head:
  assumes rel: "heap_rel h A" and none: "first_fit req (frees A) = None" and room: "unat req + 32 \<le> unat (snd (top A))"
  shows "\<exists>h'. kmalloc req h = ret (fst (top A) + 16, h') \<and> hmapped h' = hmapped h \<and>
    heap_rel h' (A\<lparr>top := (fst (top A) + 16 + req, snd (top A) - req - 16), live := insert (fst (top A), req) (live A)\<rparr>) \<and>
    (\<forall>c \<in> blocks A. \<forall>x \<in> payload c. hmem h' x = hmem h x)"
proof -
  have ok: "aheap_ok A" and rep: "represents h A" using rel by (simp_all add: heap_rel_def)
  let ?p = "fst (top A)" and ?m = "hmem h" and ?b = "fst (top A) + 16 + req"
  let ?m' = "head_memory req ?p ?m"
  let ?B = "A\<lparr>top := (?b, snd (top A) - req - 16), live := insert (?p, req) (live A)\<rparr>"
  note nodes = heap_rel_nodes [OF ok]
  have B: "aheap_ok ?B" using alloc_top_ok [OF ok room] by blast
  have h: "free_list_head h = ?p" "heap_mapped h" "sz_of ?m ?p = snd (top A)"
    "linked (nx_of ?m) (sz_of ?m) ?p (frees A) 0" "\<forall>c \<in> live A. sz_of ?m (fst c) = snd c"
    using rep by (simp_all add: represents_def)
  have hn: "heap_node ?p" "heap_node ?b" using nodes(1) heap_rel_nodes(1) [OF B] by simp_all
  then have n: "is_node ?p" "is_node (?p + node_size + req)" using heap_node_is_node by (simp_all add: node_size_def)
  have "far ?p ?b" using heap_rel_nodes(3) [OF B, of "(?p, req)"] by (simp add: blocks_def)
  then have fb: "far ?p (?p + node_size + req)" by (simp add: node_size_def)
  note fields = head_fields [OF n fb, where m = ?m, unfolded node_size_def]
  have other: "nx_of ?m' (fst c) = nx_of ?m (fst c) \<and> sz_of ?m' (fst c) = sz_of ?m (fst c)" if c: "c \<in> blocks A" for c
  proof -
    have "c \<in> blocks ?B" using c by (auto simp: blocks_def)
    then have "far (fst c) ?b" using heap_rel_nodes(3) [OF B] by fastforce
    then show ?thesis
      using nodes(2,3) [OF c] heap_node_is_node far_sym by (intro fields(4)) auto
  qed
  have small: "\<forall>b \<in> set (frees A). heap_node (fst b) \<and> snd b < req"
    using none nodes(2) by (auto simp: first_fit_None blocks_def)
  obtain t where s: "search_list req ?p (h\<lparr>hterm := echo ''Required bytes '' req (hterm h)\<rparr>) = ret (0, h\<lparr>hterm := t\<rparr>)"
    using search_fails [of "h\<lparr>hterm := echo ''Required bytes '' req (hterm h)\<rparr>" ?p "frees A" req] h hn(1) small
    by auto
  obtain t' where "take_head req (h\<lparr>hterm := t\<rparr>) = ret (?p, h\<lparr>hterm := t', hmem := ?m', free_list_head := ?b\<rparr>)"
    using take_head_stores [of "h\<lparr>hterm := t\<rparr>" req] h hn by (auto simp: node_size_def)
  then have run: "kmalloc req h = ret (?p + 16, h\<lparr>hterm := t', hmem := ?m', free_list_head := ?b\<rparr>)"
    using s h(1) by (simp add: kmalloc_def allocate_memory_def node_size_def)
  have "linked (nx_of ?m') (sz_of ?m') ?b (frees A) 0"
    using fields(2) other by (intro linked_move [OF h(4)]) (auto simp: blocks_def)
  then have "represents (h\<lparr>hterm := t', hmem := ?m', free_list_head := ?b\<rparr>) ?B"
    using h fields(1,3) other by (auto simp: represents_def blocks_def)
  moreover have "?m' x = ?m x" if c: "c \<in> blocks A" and x: "x \<in> payload c" for c x
  proof -
    have "unat x < unat ?p" using x aheap_okD(5) [OF ok c] by (simp add: payload_def)
    moreover have "unat ?p \<le> unat ?b" using aheap_okD(7) [OF ok] aheap_okD(5) [OF B, of "(?p, req)"] by (simp add: blocks_def)
    ultimately show ?thesis using n by (simp add: head_memory_def Let_def byte_kept node_size_def)
  qed
  ultimately show ?thesis using run B by (auto simp: heap_rel_def)
qed


text \<open>
  Taking a block of the free list. \<open>cut_at\<close> is the situation: the block \<open>(a, s)\<close> is the first that
  fits, \<open>c\<close> is what is handed out of it and \<open>B\<close> the heap afterwards; the node before the block
  is the last of the nodes in front of it.
\<close>

definition cut_at :: "kheap \<Rightarrow> aheap \<Rightarrow> u64 \<Rightarrow> block list \<Rightarrow> u64 \<Rightarrow> u64 \<Rightarrow> block list \<Rightarrow> block \<Rightarrow> aheap \<Rightarrow> bool" where
  "cut_at h A req xs a s ys c B \<longleftrightarrow> heap_rel h A \<and> aheap_ok B \<and> c \<notin> live A \<and>
     frees A = xs @ (a, s) # ys \<and> (\<forall>x \<in> set xs. snd x < req) \<and> req \<le> s \<and>
     c = (a, if s - req < minimum_alloc_size then s else req) \<and>
     B = A\<lparr>frees := xs @ (if s - req < minimum_alloc_size then [] else [(a + node_size + req, s - req - node_size)]) @ ys,
           live := insert c (live A)\<rparr>"

definition prev_node :: "aheap \<Rightarrow> block list \<Rightarrow> u64" where
  "prev_node A xs = last (fst (top A) # map fst xs)"

lemma prev_node_cases: "prev_node A xs = fst (top A) \<or> (\<exists>d \<in> set xs. prev_node A xs = fst d)"
  by (cases xs rule: rev_cases) (auto simp: prev_node_def)

lemma cut_at_fit:
  assumes rel: "heap_rel h A" and fit: "first_fit req (frees A) = Some (c, ds)"
  shows "\<exists>xs a s ys. cut_at h A req xs a s ys c (A\<lparr>frees := ds, live := insert c (live A)\<rparr>)"
proof -
  have ok: "aheap_ok A" using rel by (simp add: heap_rel_def)
  obtain xs e ys where f: "frees A = xs @ e # ys" "\<forall>x \<in> set xs. snd x < req" "req \<le> snd e"
    "c = fst (cut_block req e)" "ds = xs @ snd (cut_block req e) @ ys"
    by (rule first_fit_Some [OF fit])
  obtain a s where e: "e = (a, s)" by (cases e)
  have "s - req < minimum_alloc_size \<longleftrightarrow> unat s - unat req < 32"
    using f(3) e by (simp add: minimum_alloc_size_def node_size_def word_less_nat_alt word_le_nat_alt unat_sub)
  then show ?thesis
    using rel alloc_fit_ok [OF ok fit] f e
    by (intro exI [of _ xs] exI [of _ a] exI [of _ s] exI [of _ ys]) (auto simp: cut_at_def cut_block_def node_size_def)
qed

lemma cut_at_blocks:
  assumes cut: "cut_at h A req xs a s ys c B"
  shows "aheap_ok B" "top B = top A" "fst c = a" "c \<in> blocks B"
    "\<not> s - req < minimum_alloc_size \<Longrightarrow> (a + node_size + req, s - req - node_size) \<in> blocks B"
    "\<not> s - req < minimum_alloc_size \<Longrightarrow> c \<noteq> (a + node_size + req, s - req - node_size)"
    "d \<in> set xs \<union> set ys \<union> live A \<Longrightarrow> d \<in> blocks B" "d \<in> set xs \<union> set ys \<union> live A \<Longrightarrow> d \<noteq> c"
    "\<not> s - req < minimum_alloc_size \<Longrightarrow> d \<in> set xs \<union> set ys \<union> live A \<Longrightarrow> d \<noteq> (a + node_size + req, s - req - node_size)"
  using cut aheap_okD(2,3) [of B] by (auto simp: cut_at_def blocks_def)

text \<open>The nodes that are written are inside the heap and do not overlap each other or a node that is not.\<close>

lemma cut_at_nodes:
  assumes cut: "cut_at h A req xs a s ys c B"
  shows "heap_node a" "heap_node (prev_node A xs)" "far a (prev_node A xs)"
    "\<not> s - req < minimum_alloc_size \<Longrightarrow> heap_node (a + node_size + req) \<and> far a (a + node_size + req) \<and>
       far (prev_node A xs) (a + node_size + req)"
    "d = top A \<or> d \<in> set xs \<union> set ys \<union> live A \<Longrightarrow> heap_node (fst d) \<and> far a (fst d) \<and>
       (\<not> s - req < minimum_alloc_size \<longrightarrow> far (a + node_size + req) (fst d))"
    "d = top A \<or> d \<in> set xs \<union> set ys \<union> live A \<Longrightarrow> fst d \<noteq> prev_node A xs \<Longrightarrow> far (prev_node A xs) (fst d)"
proof -
  note B = cut_at_blocks [OF cut]
  note nodes = heap_rel_nodes [OF B(1), unfolded B(2)]
  show a: "heap_node a" using nodes(2) [OF B(4)] B(3) by simp
  show far_a: "heap_node (fst d) \<and> far a (fst d) \<and> (\<not> s - req < minimum_alloc_size \<longrightarrow> far (a + node_size + req) (fst d))"
    if d: "d = top A \<or> d \<in> set xs \<union> set ys \<union> live A" for d
  proof (cases "d = top A")
    case True
    then show ?thesis using nodes(1) nodes(3) [OF B(4)] nodes(3) [OF B(5)] B(3) by simp
  next
    case False
    then have "d \<in> set xs \<union> set ys \<union> live A" using d by blast
    then show ?thesis
      using nodes(2) [OF B(7)] nodes(4) [OF B(4) B(7)] nodes(4) [OF B(5) B(7)] B(3,8,9) by (metis fst_conv)
  qed
  show p: "heap_node (prev_node A xs)" "far a (prev_node A xs)"
    using prev_node_cases [of A xs] far_a by (metis UnI1)+
  have "far (prev_node A xs) (a + node_size + req)" if "\<not> s - req < minimum_alloc_size"
    using prev_node_cases [of A xs] far_a that far_sym by (metis UnI1)
  then show "heap_node (a + node_size + req) \<and> far a (a + node_size + req) \<and> far (prev_node A xs) (a + node_size + req)"
    if "\<not> s - req < minimum_alloc_size"
    using nodes(2) [OF B(5) [OF that]] nodes(4) [OF B(4) B(5) [OF that] B(6) [OF that]] B(3) that by simp
  show "far (prev_node A xs) (fst d)" if d: "d = top A \<or> d \<in> set xs \<union> set ys \<union> live A" "fst d \<noteq> prev_node A xs" for d
    using prev_node_cases [of A xs]
  proof
    assume hd: "prev_node A xs = fst (top A)"
    then have "d \<in> blocks B" using d B(7) by metis
    then show ?thesis using nodes(3) [of d] hd far_sym by simp
  next
    assume "\<exists>x \<in> set xs. prev_node A xs = fst x"
    then obtain x where x: "x \<in> set xs" "prev_node A xs = fst x" by blast
    then have "x \<in> blocks B" using B(7) by blast
    then show ?thesis using d x(2) nodes(3) [of x] nodes(4) [of x d] B(7) [of d] by (cases "d = top A") auto
  qed
qed

text \<open>The fields after the cut.\<close>

lemma cut_at_fields:
  assumes cut: "cut_at h A req xs a s ys c B" and s: "sz_of (hmem h) a = s"
  defines "m' \<equiv> cut_memory req (prev_node A xs) a (hmem h)"
  shows "nx_of m' (prev_node A xs) = (if s - req < minimum_alloc_size then nx_of (hmem h) a else a + node_size + req)"
    "sz_of m' a = snd c"
    "\<not> s - req < minimum_alloc_size \<Longrightarrow>
       nx_of m' (a + node_size + req) = nx_of (hmem h) a \<and> sz_of m' (a + node_size + req) = s - req - node_size"
    "d = top A \<or> d \<in> set xs \<union> set ys \<union> live A \<Longrightarrow> sz_of m' (fst d) = sz_of (hmem h) (fst d)"
    "d = top A \<or> d \<in> set xs \<union> set ys \<union> live A \<Longrightarrow> fst d \<noteq> prev_node A xs \<Longrightarrow> nx_of m' (fst d) = nx_of (hmem h) (fst d)"
proof -
  note n = cut_at_nodes [OF cut]
  have b: "\<not> s - req < minimum_alloc_size \<Longrightarrow>
      is_node (a + node_size + req) \<and> far a (a + node_size + req) \<and> far (prev_node A xs) (a + node_size + req)"
    using n(4) heap_node_is_node by blast
  note fields = cut_fields [OF heap_node_is_node [OF n(2)] heap_node_is_node [OF n(1)] n(3), where m = "hmem h" and req = req,
      unfolded s, folded m'_def]
  have other: "nx_of m' (fst d) = nx_of (hmem h) (fst d) \<and> sz_of m' (fst d) = sz_of (hmem h) (fst d)"
    if "d = top A \<or> d \<in> set xs \<union> set ys \<union> live A" "fst d \<noteq> prev_node A xs" for d
    using fields(6) [OF b, of "fst d"] n(5) [OF that(1)] n(6) [OF that] heap_node_is_node by blast
  show "nx_of m' (prev_node A xs) = (if s - req < minimum_alloc_size then nx_of (hmem h) a else a + node_size + req)"
    by (rule fields(1) [OF b])
  show "sz_of m' a = snd c" using fields(3) [OF b] cut by (simp add: cut_at_def)
  show "\<not> s - req < minimum_alloc_size \<Longrightarrow>
      nx_of m' (a + node_size + req) = nx_of (hmem h) a \<and> sz_of m' (a + node_size + req) = s - req - node_size"
    using fields(4,5) [OF b] by blast
  show "sz_of m' (fst d) = sz_of (hmem h) (fst d)" if "d = top A \<or> d \<in> set xs \<union> set ys \<union> live A"
    using other [OF that] fields(2) [OF b] by (cases "fst d = prev_node A xs") auto
  show "nx_of m' (fst d) = nx_of (hmem h) (fst d)" if "d = top A \<or> d \<in> set xs \<union> set ys \<union> live A" "fst d \<noteq> prev_node A xs"
    using other [OF that] by blast
qed

text \<open>What the old memory holds.\<close>

lemma cut_at_before:
  assumes "cut_at h A req xs a s ys c B"
  shows "free_list_head h = fst (top A)" "heap_mapped h" "sz_of (hmem h) (fst (top A)) = snd (top A)"
    "\<forall>c \<in> live A. sz_of (hmem h) (fst c) = snd c" "linked (nx_of (hmem h)) (sz_of (hmem h)) (fst (top A)) xs a"
    "nx_of (hmem h) (prev_node A xs) = a" "sz_of (hmem h) a = s" "a \<noteq> 0" "linked (nx_of (hmem h)) (sz_of (hmem h)) a ys 0"
proof -
  have h: "represents h A" "frees A = xs @ (a, s) # ys" using assms by (simp_all add: cut_at_def heap_rel_def)
  then show "free_list_head h = fst (top A)" "heap_mapped h" "sz_of (hmem h) (fst (top A)) = snd (top A)"
    "\<forall>c \<in> live A. sz_of (hmem h) (fst c) = snd c"
    by (simp_all add: represents_def)
  have "linked (nx_of (hmem h)) (sz_of (hmem h)) (fst (top A)) (xs @ (a, s) # ys) 0" using h by (simp add: represents_def)
  then show "linked (nx_of (hmem h)) (sz_of (hmem h)) (fst (top A)) xs a"
    "nx_of (hmem h) (prev_node A xs) = a" "sz_of (hmem h) a = s" "a \<noteq> 0" "linked (nx_of (hmem h)) (sz_of (hmem h)) a ys 0"
    unfolding linked_append by (auto simp: prev_node_def simp del: last.simps)
qed

lemma cut_at_addresses:
  assumes "cut_at h A req xs a s ys c B"
  shows "distinct (fst (top A) # map fst xs)" "d \<in> set ys \<Longrightarrow> fst d \<noteq> prev_node A xs"
proof -
  have ok: "aheap_ok A" and f: "frees A = xs @ (a, s) # ys" using assms by (simp_all add: cut_at_def heap_rel_def)
  note nodes = heap_rel_nodes [OF ok]
  have in_A: "set xs \<subseteq> blocks A" "set ys \<subseteq> blocks A" "set xs \<inter> set ys = {}" "distinct xs"
    using f aheap_okD(2) [OF ok] by (auto simp: blocks_def)
  have nhd: "fst d \<noteq> fst (top A)" if "d \<in> blocks A" for d using nodes(3) [OF that] by auto
  show "distinct (fst (top A) # map fst xs)"
    using in_A nhd inj_on_subset [OF nodes(5) in_A(1)] by (auto simp: distinct_map)
  show "fst d \<noteq> prev_node A xs" if d: "d \<in> set ys"
    using prev_node_cases [of A xs]
  proof
    assume "\<exists>x \<in> set xs. prev_node A xs = fst x"
    then obtain x where "x \<in> set xs" "prev_node A xs = fst x" by blast
    then show ?thesis using d in_A inj_onD [OF nodes(5), of d x] by auto
  next
    assume hd: "prev_node A xs = fst (top A)"
    show ?thesis unfolding hd using d in_A(2) nhd by blast
  qed
qed

lemma cut_at_represents:
  assumes cut: "cut_at h A req xs a s ys c B"
  defines "m' \<equiv> cut_memory req (prev_node A xs) a (hmem h)"
  shows "represents (h\<lparr>hterm := t, hmem := m'\<rparr>) B"
proof -
  note h = cut_at_before [OF cut] and ad = cut_at_addresses [OF cut]
  note fields = cut_at_fields [OF cut h(7), folded m'_def]
  have "linked (nx_of m') (sz_of m') (fst (top A)) xs (nx_of m' (prev_node A xs))"
    unfolding prev_node_def
  proof (rule linked_relink [OF h(5) ad(1) refl], unfold prev_node_def [symmetric])
    show "nx_of m' x = nx_of (hmem h) x" if x: "x \<in> insert (fst (top A)) (fst ` set xs)" "x \<noteq> prev_node A xs" for x
    proof -
      obtain d where d: "d = top A \<or> d \<in> set xs" "x = fst d" using x(1) by blast
      then show ?thesis using fields(5) [of d] x(2) by blast
    qed
    show "sz_of m' x = sz_of (hmem h) x" if "x \<in> fst ` set xs" for x using that fields(4) by blast
  qed
  moreover have "linked (nx_of m') (sz_of m') q ys 0" if "nx_of m' q = nx_of (hmem h) a" for q
  proof (rule linked_move [OF h(9), where nx' = "nx_of m'"])
    show "nx_of m' q = nx_of (hmem h) a" by (rule that)
    show "nx_of m' x = nx_of (hmem h) x \<and> sz_of m' x = sz_of (hmem h) x" if "x \<in> fst ` set ys" for x
      using that fields(4,5) ad(2) by blast
  qed
  then have "linked (nx_of m') (sz_of m') (prev_node A xs)
      ((if s - req < minimum_alloc_size then [] else [(a + node_size + req, s - req - node_size)]) @ ys) 0"
    using fields(1,3) cut_at_nodes(4) [OF cut] heap_node_nonzero [of "a + node_size + req"] by simp
  moreover have frees_B: "frees B =
      xs @ (if s - req < minimum_alloc_size then [] else [(a + node_size + req, s - req - node_size)]) @ ys"
    using cut by (simp add: cut_at_def)
  ultimately have "linked (nx_of m') (sz_of m') (fst (top A)) (frees B) 0"
    unfolding frees_B linked_append prev_node_def by blast
  moreover have "live B = insert c (live A)" "fst c = a" "top B = top A" using cut by (simp_all add: cut_at_def)
  ultimately show ?thesis
    using h(1-4) fields(2,4) by (auto simp: represents_def)
qed

lemma cut_at_keeps:
  assumes cut: "cut_at h A req xs a s ys c B" and d: "d \<in> live A" and x: "x \<in> payload d"
  shows "cut_memory req (prev_node A xs) a (hmem h) x = hmem h x"
proof -
  note B = cut_at_blocks [OF cut] and n = cut_at_nodes [OF cut]
  have dB: "d \<in> blocks B" using d B(7) by blast
  note miss = payload_misses [OF B(1) _ dB x]
  have p: "unat x < unat (prev_node A xs) \<or> unat (prev_node A xs) + 16 \<le> unat x"
    using prev_node_cases [of A xs]
  proof
    assume "\<exists>y \<in> set xs. prev_node A xs = fst y"
    then obtain y where "y \<in> set xs" "prev_node A xs = fst y" by blast
    then show ?thesis using miss [OF B(7), of y] by auto
  next
    assume "prev_node A xs = fst (top A)"
    then show ?thesis using x aheap_okD(5) [OF B(1) dB] B(2) by (simp add: payload_def)
  qed
  show ?thesis
    using p miss [OF B(4)] miss [OF B(5)] n(1,2,4) heap_node_is_node B(3) cut_at_before(7) [OF cut]
    by (intro cut_bytes) auto
qed

lemma cut_at_runs:
  assumes cut: "cut_at h A req xs a s ys c B"
  shows "\<exists>t. kmalloc req h = ret (fst c + 16, h\<lparr>hterm := t, hmem := cut_memory req (prev_node A xs) a (hmem h)\<rparr>)"
proof -
  note h = cut_at_before [OF cut] and n = cut_at_nodes [OF cut]
  have f: "frees A = xs @ (a, s) # ys" "\<forall>x \<in> set xs. snd x < req" "req \<le> s" and rep: "represents h A"
    using cut by (simp_all add: cut_at_def heap_rel_def)
  have l: "linked (nx_of (hmem h)) (sz_of (hmem h)) (fst (top A)) (xs @ (a, s) # ys) 0"
    using rep by (simp add: represents_def f(1))
  have small: "\<forall>b \<in> set xs. heap_node (fst b) \<and> snd b < req" using f(2) n(5) by blast
  let ?h = "h\<lparr>hterm := echo ''Required bytes '' req (hterm h)\<rparr>"
  obtain t where s: "search_list req (fst (top A)) ?h = take_next req (prev_node A xs) (h\<lparr>hterm := t\<rparr>)"
    using search_finds [of ?h "fst (top A)" xs a s ys req] h(2) l small f(3) n(1) n(5) [of "top A"]
    by (auto simp: prev_node_def simp del: last.simps)
  obtain t' where "take_next req (prev_node A xs) (h\<lparr>hterm := t\<rparr>) =
      ret (a, h\<lparr>hterm := t', hmem := cut_memory req (prev_node A xs) a (hmem h)\<rparr>)"
    using take_next_stores [of "h\<lparr>hterm := t\<rparr>" "prev_node A xs" a req] h(2,6,7) n(1,2,4) by auto
  then show ?thesis
    using s h(1,8) cut_at_blocks(3) [OF cut]
    by (intro exI [of _ t']) (simp add: kmalloc_def allocate_memory_def node_size_def)
qed

lemma kmalloc_fit:
  assumes rel: "heap_rel h A" and fit: "first_fit req (frees A) = Some (c, ds)"
  shows "\<exists>h'. kmalloc req h = ret (fst c + 16, h') \<and> hmapped h' = hmapped h \<and>
    heap_rel h' (A\<lparr>frees := ds, live := insert c (live A)\<rparr>) \<and>
    (\<forall>d \<in> live A. \<forall>x \<in> payload d. hmem h' x = hmem h x)"
proof -
  obtain xs a s ys where cut: "cut_at h A req xs a s ys c (A\<lparr>frees := ds, live := insert c (live A)\<rparr>)"
    using cut_at_fit [OF rel fit] by blast
  obtain t where "kmalloc req h = ret (fst c + 16, h\<lparr>hterm := t, hmem := cut_memory req (prev_node A xs) a (hmem h)\<rparr>)"
    using cut_at_runs [OF cut] by blast
  then show ?thesis
    using cut_at_represents [OF cut, of t] cut_at_blocks(1) [OF cut] cut_at_keeps [OF cut]
    by (intro exI [of _ "h\<lparr>hterm := t, hmem := cut_memory req (prev_node A xs) a (hmem h)\<rparr>"]) (simp add: heap_rel_def)
qed


end
