(* ===== verification/Kmalloc_Laws.thy ===== *)
theory Kmalloc_Laws
  imports Kmalloc
begin

text \<open>
  The laws of the kernel heap.
\<close>

lemma kmalloc_spec:
  assumes rel: "heap_rel h A" and spec: "alloc_spec req A = Some (b, B)"
  shows "\<exists>h'. kmalloc req h = ret (fst b + 16, h') \<and> hmapped h' = hmapped h \<and> heap_rel h' B \<and>
    (\<forall>d \<in> live A. \<forall>x \<in> payload d. hmem h' x = hmem h x)"
proof (cases "first_fit req (frees A)")
  case None
  then have "unat req + 32 \<le> unat (snd (top A))" "b = (fst (top A), req)"
    "B = A\<lparr>top := (fst (top A) + 16 + req, snd (top A) - req - 16), live := insert (fst (top A), req) (live A)\<rparr>"
    using spec by (auto simp: alloc_spec_def Let_def split: if_splits)
  then show ?thesis using kmalloc_head [OF rel None] by (fastforce simp: blocks_def)
next
  case (Some r)
  then have "r = (b, frees B)" "B = A\<lparr>frees := frees B, live := insert b (live A)\<rparr>"
    using spec by (auto simp: alloc_spec_def split: prod.splits)
  then show ?thesis using kmalloc_fit [OF rel] Some by metis
qed

lemma kmalloc_live:
  assumes "aheap_ok A" "alloc_spec req A = Some (b, B)"
  shows "req \<le> snd b \<and> unat heap_start_addr \<le> unat (fst b) \<and> unat (fst b) + extent b \<le> heap_end \<and>
    (\<forall>d \<in> live A. apart b d)"
proof -
  have B: "aheap_ok B" "req \<le> snd b" "b \<notin> live A" "live B = insert b (live A)"
    using alloc_spec_ok [OF assms] by auto
  then have bB: "b \<in> blocks B" "\<And>d. d \<in> live A \<Longrightarrow> d \<in> blocks B" by (auto simp: blocks_def)
  have "\<forall>d \<in> live A. apart b d"
    using aheap_okD(6) [OF B(1)] bB B(3) unfolding pairwise_def by metis
  then show ?thesis using B(2) aheap_okD(5) [OF B(1) bB(1)] aheap_okD(8) [OF B(1)] by auto
qed

text \<open>Writing the bytes of a block changes no header.\<close>

lemma payload_writes:
  assumes rel: "heap_rel h A" and c: "c \<in> blocks A" and m: "\<And>x. x \<notin> payload c \<Longrightarrow> m' x = hmem h x"
  shows "heap_rel (h\<lparr>hmem := m'\<rparr>) A"
proof -
  have ok: "aheap_ok A" and rep: "represents h A" using rel by (simp_all add: heap_rel_def)
  note nodes = heap_rel_nodes [OF ok]
  have out: "m' x = hmem h x" if "b = top A \<or> b \<in> blocks A" "unat (fst b) \<le> unat x" "unat x < unat (fst b) + 16" for b x
    using that payload_misses [OF ok _ c, of b x] aheap_okD(5) [OF ok c]
    by (intro m) (auto simp: payload_def)
  have fields: "nx_of m' (fst b) = nx_of (hmem h) (fst b) \<and> sz_of m' (fst b) = sz_of (hmem h) (fst b)"
    if b: "b = top A \<or> b \<in> blocks A" for b
  proof -
    have n: "is_node (fst b)" using b nodes(1,2) heap_node_is_node by blast
    have "m' x = hmem h x" if "x \<in> span (fst b) 8 \<or> x \<in> span (fst b + 8) 8" for x
      using that out [OF b, of x] n unat_field [OF n] span_unat [of "fst b" 8 x] span_unat [of "fst b + 8" 8 x]
      by (auto simp: is_node_def)
    then show ?thesis unfolding nx_of_def sz_of_def using ld64_cong by metis
  qed
  have "linked (nx_of m') (sz_of m') (fst (top A)) (frees A) 0"
  proof (rule linked_move)
    show "linked (nx_of (hmem h)) (sz_of (hmem h)) (fst (top A)) (frees A) 0" using rep by (simp add: represents_def)
    show "nx_of m' (fst (top A)) = nx_of (hmem h) (fst (top A))" using fields by blast
    show "nx_of m' x = nx_of (hmem h) x \<and> sz_of m' x = sz_of (hmem h) x" if "x \<in> fst ` set (frees A)" for x
      using that fields unfolding blocks_def by blast
  qed
  then show ?thesis using rel fields by (auto simp: heap_rel_def represents_def blocks_def)
qed

section \<open>Running out of memory\<close>

text \<open>
  Nothing is mapped from the end of the heap as far up as a request of fewer than 2 ^ 63 bytes
  reaches. The recursive region of the page tables lies above that.
\<close>

definition unmapped_behind :: "kheap \<Rightarrow> bool" where
  "unmapped_behind h \<longleftrightarrow> (\<forall>x. heap_end \<le> unat x \<longrightarrow> unat x < 2 ^ 63 + 2 ^ 31 \<longrightarrow> \<not> hmapped h x)"

lemma touch_faults:
  assumes "i < n" "\<not> hmapped h (a + of_nat i)"
  shows "\<exists>j < n. touch a n h = fail (Page_fault (a + of_nat j)) \<and> \<not> hmapped h (a + of_nat j)"
proof (cases "find (\<lambda>x. \<not> hmapped h x) (map (\<lambda>i. a + of_nat i) [0..<n])")
  case None
  then show ?thesis using assms by (auto simp: find_None_iff)
next
  case (Some x)
  then have "\<not> hmapped h x" "\<exists>j < n. x = a + of_nat j" by (auto simp: find_Some_iff)
  then show ?thesis using Some by (auto simp: touch_def)
qed

lemma kmalloc_no_room:
  assumes rel: "heap_rel h A" and none: "alloc_spec req A = None" and behind: "unmapped_behind h" and req: "unat req < 2 ^ 63"
  shows "\<exists>x. kmalloc req h = fail (Page_fault x) \<and> heap_end \<le> unat x"
proof -
  have ok: "aheap_ok A" and rep: "represents h A" using rel by (simp_all add: heap_rel_def)
  let ?p = "fst (top A)" and ?b = "fst (top A) + 16 + req"
  have fit: "first_fit req (frees A) = None" and full: "unat (snd (top A)) < unat req + 32"
    using none by (auto simp: alloc_spec_def Let_def split: option.splits if_splits)
  note nodes = heap_rel_nodes [OF ok]
  have h: "free_list_head h = ?p" "heap_mapped h" "linked (nx_of (hmem h)) (sz_of (hmem h)) ?p (frees A) 0"
    using rep by (simp_all add: represents_def)
  have small: "\<forall>b \<in> set (frees A). heap_node (fst b) \<and> snd b < req"
    using fit nodes(2) by (auto simp: first_fit_None blocks_def)
  obtain t where s: "search_list req ?p (h\<lparr>hterm := echo ''Required bytes '' req (hterm h)\<rparr>) = ret (0, h\<lparr>hterm := t\<rparr>)"
    using search_fails [of "h\<lparr>hterm := echo ''Required bytes '' req (hterm h)\<rparr>" ?p "frees A" req] h nodes(1) small
    by auto
  have p: "unat ?p + 16 \<le> heap_end" "1073741824 \<le> unat ?p" using nodes(1) by (simp_all add: in_heap_def heap_numbers)
  have "unat (?p + 16) = unat ?p + 16" using p by (subst unat_plus64) (simp_all add: heap_numbers)
  then have b: "unat ?b = unat ?p + 16 + unat req" using p req by (subst unat_plus64) (simp_all add: heap_numbers)
  have at: "unat (?b + 8 + of_nat j) = unat ?b + 8 + j" if "j < 8" for j
  proof -
    have "unat (?b + 8) = unat ?b + 8" using b p req by (subst unat_plus64) (simp_all add: heap_numbers)
    moreover have "unat (of_nat j :: u64) = j" using that by (intro unat_of_nat64) simp
    ultimately show ?thesis using b p req that by (subst unat_plus64) (simp_all add: heap_numbers)
  qed
  have "heap_end \<le> unat (?b + 8 + of_nat 7)" "unat (?b + 8 + of_nat 7) < 2 ^ 63 + 2 ^ 31"
    using at [of 7] b p req full aheap_okD(8) [OF ok] by (simp_all add: heap_numbers)
  then have un: "\<not> hmapped h (?b + 8 + of_nat 7)" using behind unfolding unmapped_behind_def by blast
  have fault: "\<exists>x. touch (?b + 8) 8 h' = fail (Page_fault x) \<and> heap_end \<le> unat x" if eq: "hmapped h' = hmapped h" for h'
  proof -
    obtain j where j: "j < 8" "touch (?b + 8) 8 h' = fail (Page_fault (?b + 8 + of_nat j))" "\<not> hmapped h (?b + 8 + of_nat j)"
      using touch_faults [of 7 8 h', OF _ un [folded eq]] unfolding eq by auto
    have "\<not> in_heap (?b + 8 + of_nat j) 1" using j(3) h(2) by (auto simp: heap_mapped_def)
    then have "heap_end \<le> unat (?b + 8 + of_nat j)" using at [OF j(1)] b p by (simp add: in_heap_def heap_numbers)
    then show ?thesis using j(2) by blast
  qed
  have "\<exists>x. take_head req (h\<lparr>hterm := t\<rparr>) = fail (Page_fault x) \<and> heap_end \<le> unat x"
    using h(1,2) nodes(1) fault [of "h\<lparr>hterm := fold print_plain (''From head'' @ [newline]) t\<rparr>"]
    by (auto simp: take_head_def Let_def node_size_def set_size_def hstore_def)
  then show ?thesis using s h(1) by (auto simp: kmalloc_def allocate_memory_def)
qed


section \<open>A list that runs in a circle\<close>

definition self_linked :: "u64 \<Rightarrow> u64 \<Rightarrow> kheap \<Rightarrow> bool" where
  "self_linked req a h \<longleftrightarrow> heap_mapped h \<and> heap_node a \<and> nx_of (hmem h) a = a \<and> sz_of (hmem h) a < req"

lemma search_circle:
  assumes "self_linked req a h"
  shows "search_list req a h = None"
proof -
  have "\<not> (req' = req \<and> node = a \<and> self_linked req a h')" if "search_list req' node h' = Some r" for req' node h' r
    using that
  proof (rule search_list.raw_induct [where P = "\<lambda>req' node h' r. \<not> (req' = req \<and> node = a \<and> self_linked req a h')", rotated])
    fix f req' node h' r
    assume IH: "\<And>req' node h' r. f req' node h' = Some r \<Longrightarrow> \<not> (req' = req \<and> node = a \<and> self_linked req a h')"
      and eq: "obind (get_next node h') (\<lambda>nx. if nx \<noteq> 0 then obind (get_size nx h') (\<lambda>sz.
        obind (say ''Old size: %zx'' [sz] h') (\<lambda>h1. if req' \<le> sz then take_next req' node h1 else f req' nx h1))
        else ret (0, h')) = Some r"
    show "\<not> (req' = req \<and> node = a \<and> self_linked req a h')"
    proof
      assume c: "req' = req \<and> node = a \<and> self_linked req a h'"
      let ?h = "h'\<lparr>hterm := echo ''Old size: '' (sz_of (hmem h') a) (hterm h')\<rparr>"
      have "f req a ?h = Some r"
        using c eq heap_node_nonzero [of a] by (auto simp: self_linked_def not_le [symmetric])
      moreover have "self_linked req a ?h" using c by (auto simp: self_linked_def)
      ultimately show False using IH by blast
    qed
  qed
  then show ?thesis using assms by (cases "search_list req a h") auto
qed

text \<open>Freeing a block twice links it to itself.\<close>

lemma kfree_twice:
  assumes rel: "heap_rel h A" and b: "b \<in> live A" and req: "snd b < req"
  shows "\<exists>h1 h2. kfree (fst b + 16) h = ret h1 \<and> kfree (fst b + 16) h1 = ret h2 \<and> kmalloc req h2 = None"
proof -
  let ?a = "fst b" and ?p = "fst (top A)"
  obtain h1 where h1: "kfree (?a + 16) h = ret h1" "heap_rel h1 (free_spec b A)"
    using kfree_pushes [OF rel b] by blast
  have ok: "aheap_ok A" using rel by (simp add: heap_rel_def)
  note nodes = heap_rel_nodes [OF ok]
  have bb: "b \<in> blocks A" using b by (simp add: blocks_def)
  have n: "heap_node ?p" "heap_node ?a" "is_node ?p" "is_node ?a" "far ?a ?p" "far ?p ?a"
    using nodes(1) nodes(2,3) [OF bb] heap_node_is_node far_sym by auto
  have rep: "heap_mapped h1" "free_list_head h1 = ?p" "nx_of (hmem h1) ?p = ?a" "sz_of (hmem h1) ?a = snd b"
    using h1(2) by (cases b; simp add: heap_rel_def represents_def free_spec_def)+
  let ?m = "put_nx (put_nx (hmem h1) ?a ?a) ?p ?a"
  let ?h2 = "h1\<lparr>hterm := echo ''Free node base '' ?a (hterm h1), hmem := ?m\<rparr>"
  have h2: "kfree (?a + 16) h1 = ret ?h2"
    using rep n by (simp add: kfree_def get_free_node_from_addr_def node_size_def Let_def)
  have m: "nx_of ?m ?p = ?a" "nx_of ?m ?a = ?a" "sz_of ?m ?a = snd b"
    using n rep(4) by (simp_all add: nodes.same nodes.other)
  let ?h3 = "?h2\<lparr>hterm := echo ''Required bytes '' req (hterm ?h2)\<rparr>"
  let ?h4 = "?h3\<lparr>hterm := echo ''Old size: '' (snd b) (hterm ?h3)\<rparr>"
  have "search_list req ?p ?h3 = search_list req ?a ?h4"
    using m rep(1) n req heap_node_nonzero [of ?a] by (subst search_list.simps) (simp add: not_le [symmetric])
  also have "\<dots> = None"
    using m rep(1) n req by (intro search_circle) (simp add: self_linked_def)
  finally have "kmalloc req ?h2 = None" using rep(2) by (simp add: kmalloc_def allocate_memory_def)
  then show ?thesis using h1(1) h2 by metis
qed

section \<open>Copying\<close>

lemma copy_byte_ret: "in_heap d 1 \<Longrightarrow> in_heap s 1 \<Longrightarrow> heap_mapped h \<Longrightarrow>
  copy_byte d s h = ret (h\<lparr>hmem := (hmem h)(d := hmem h s)\<rparr>)"
  unfolding copy_byte_def by (simp only: touch_ok obind_simps)

definition copied :: "u64 \<Rightarrow> u64 \<Rightarrow> nat \<Rightarrow> mem \<Rightarrow> mem" where
  "copied d s n m = (\<lambda>x. if unat d \<le> unat x \<and> unat x < unat d + n then m (s + (x - d)) else m x)"

lemma unat_heap_offset: "in_heap a n \<Longrightarrow> i \<le> n \<Longrightarrow> unat (a + of_nat i) = unat a + i"
proof -
  assume a: "in_heap a n" "i \<le> n"
  then have le: "unat a + i < 2 ^ 64" by (simp add: in_heap_def heap_numbers)
  then have "unat (of_nat i :: u64) = i" by (intro unat_of_nat64) simp
  then show ?thesis using le unat_plus64 [of a "of_nat i"] by simp
qed

lemma kmemcpy_copies:
  assumes "heap_mapped h" "in_heap d n" "in_heap s n" "unat d + n \<le> unat s \<or> unat s + n \<le> unat d"
  shows "foldM (\<lambda>i. copy_byte (d + of_nat i) (s + of_nat i)) [0..<n] h = ret (h\<lparr>hmem := copied d s n (hmem h)\<rparr>)"
  using assms(2-)
proof (induction n)
  case 0
  have "copied d s 0 (hmem h) = hmem h" by (rule ext) (auto simp: copied_def)
  then show ?case by simp
next
  case (Suc n)
  have u: "unat (d + of_nat n) = unat d + n" "unat (s + of_nat n) = unat s + n"
    using Suc.prems unat_heap_offset by simp_all
  have le: "in_heap d n" "in_heap s n" "in_heap (d + of_nat n) 1" "in_heap (s + of_nat n) 1"
    using Suc.prems u by (simp_all add: in_heap_def)
  let ?m = "copied d s n (hmem h)"
  have src: "?m (s + of_nat n) = hmem h (s + of_nat n)"
    using Suc.prems(3) u by (auto simp: copied_def)
  have "?m(d + of_nat n := hmem h (s + of_nat n)) = copied d s (Suc n) (hmem h)"
  proof
    fix x
    show "(?m(d + of_nat n := hmem h (s + of_nat n))) x = copied d s (Suc n) (hmem h) x"
    proof (cases "x = d + of_nat n")
      case True
      then show ?thesis using u by (simp add: copied_def)
    next
      case False
      then have "unat x \<noteq> unat d + n" using u by (metis word_unat_eq_iff)
      then show ?thesis using False by (auto simp: copied_def)
    qed
  qed
  moreover have "unat d + n \<le> unat s \<or> unat s + n \<le> unat d" using Suc.prems(3) by auto
  then have "foldM (\<lambda>i. copy_byte (d + of_nat i) (s + of_nat i)) [0..<n] h = ret (h\<lparr>hmem := ?m\<rparr>)"
    using Suc.IH le by blast
  ultimately show ?case using le assms(1) src by (simp add: copy_byte_ret)
qed


lemma copied_at: "in_heap d n \<Longrightarrow> i < n \<Longrightarrow> copied d s n m (d + of_nat i) = m (s + of_nat i)"
  using unat_heap_offset [of d n i] by (simp add: copied_def)

lemma payload_node: "in_heap a (16 + n) \<Longrightarrow> in_heap (a + 16) n \<and> unat (a + 16) = unat a + 16"
  using unat_heap_offset [of a "16 + n" 16] by (simp add: in_heap_def)

lemma krealloc_moves:
  assumes rel: "heap_rel h A" and b: "b \<in> live A" and more: "snd b < req" and spec: "alloc_spec req A = Some (c, B)"
  shows "\<exists>h'. krealloc (fst b + 16) req h = ret (fst c + 16, h') \<and> hmapped h' = hmapped h \<and> heap_rel h' (free_spec b B) \<and>
    (\<forall>i < unat (snd b). hmem h' (fst c + 16 + of_nat i) = hmem h (fst b + 16 + of_nat i)) \<and>
    (\<forall>d \<in> live A - {b}. \<forall>x \<in> payload d. hmem h' x = hmem h x)"
proof -
  have ok: "aheap_ok A" using rel by (simp add: heap_rel_def)
  let ?n = "unat (snd b)" and ?d = "fst c + 16" and ?s = "fst b + 16"
  have c: "req \<le> snd c" "unat heap_start_addr \<le> unat (fst c)" "unat (fst c) + extent c \<le> heap_end"
    "\<forall>d \<in> live A. apart c d" using kmalloc_live [OF ok spec] by blast+
  have B: "aheap_ok B" "c \<notin> live A" "live B = insert c (live A)" using alloc_spec_ok [OF ok spec] by auto
  obtain h1 where h1: "kmalloc req h = ret (?d, h1)" "hmapped h1 = hmapped h" "heap_rel h1 B"
    "\<forall>d \<in> live A. \<forall>x \<in> payload d. hmem h1 x = hmem h x"
    using kmalloc_spec [OF rel spec] by blast
  have bA: "b \<in> blocks A" and cB: "c \<in> blocks B" "b \<in> blocks B" "b \<in> live B" using b B(3) by (auto simp: blocks_def)
  have nb: "heap_node (fst b)" using heap_rel_nodes(2) [OF ok bA] .
  have mapped: "heap_mapped h" "heap_mapped h1" "sz_of (hmem h) (fst b) = snd b" "sz_of (hmem h1) (fst b) = snd b"
    using rel h1(3) b B(3) by (simp_all add: heap_rel_def represents_def)
  have le: "?n \<le> unat (snd c)" using more c(1) by (simp add: word_le_nat_alt word_less_nat_alt)
  have d: "in_heap ?d ?n" "unat ?d = unat (fst c) + 16"
    using payload_node [of "fst c" ?n] c(2,3) le by (simp_all add: in_heap_def extent_def)
  have s: "in_heap ?s ?n" "unat ?s = unat (fst b) + 16"
    using payload_node [of "fst b" ?n] aheap_okD(5) [OF ok bA] aheap_okD(8) [OF ok] by (simp_all add: in_heap_def extent_def)
  have ap: "unat ?d + ?n \<le> unat ?s \<or> unat ?s + ?n \<le> unat ?d"
    using c(4) b le d(2) s(2) by (auto simp: apart_def extent_def dest!: bspec [of _ _ b])
  let ?m = "copied ?d ?s ?n (hmem h1)"
  have copy: "kmemcpy ?d ?s (snd b) h1 = ret (h1\<lparr>hmem := ?m\<rparr>)"
    unfolding kmemcpy_def by (rule kmemcpy_copies [OF mapped(2) d(1) s(1) ap])
  have out: "?m x = hmem h1 x" if "x \<notin> payload c" for x
    using that d(2) le by (auto simp: copied_def payload_def extent_def)
  have rel2: "heap_rel (h1\<lparr>hmem := ?m\<rparr>) B" by (rule payload_writes [OF h1(3) cB(1) out])
  obtain h3 where h3: "kfree ?s (h1\<lparr>hmem := ?m\<rparr>) = ret h3" "hmapped h3 = hmapped h1" "heap_rel h3 (free_spec b B)"
    "\<forall>d \<in> blocks B. \<forall>x \<in> payload d. hmem h3 x = ?m x"
    using kfree_pushes [OF rel2 cB(3)] by auto
  have run: "krealloc ?s req h = ret (?d, h3)"
    using mapped nb h1(1) copy h3(1) more
    by (simp add: krealloc_def get_free_node_from_addr_def node_size_def not_le [symmetric] Let_def)
  have "hmem h3 (?d + of_nat i) = hmem h (?s + of_nat i)" if i: "i < ?n" for i
  proof -
    have "?d + of_nat i \<in> payload c" "?s + of_nat i \<in> payload b"
      using unat_heap_offset [OF d(1), of i] unat_heap_offset [OF s(1), of i] i le d(2) s(2)
      by (simp_all add: payload_def extent_def)
    then show ?thesis using h3(4) cB h1(4) b copied_at [OF d(1) i] by auto
  qed
  moreover have "hmem h3 x = hmem h x" if e: "e \<in> live A - {b}" and x: "x \<in> payload e" for e x
  proof -
    have "apart c e" using c(4) e by blast
    then have "x \<notin> payload c" using x by (auto simp: apart_def payload_def extent_def)
    then have "?m x = hmem h1 x" by (rule out)
    moreover have "hmem h3 x = ?m x" using h3(4) e x B(3) by (auto simp: blocks_def)
    ultimately show ?thesis using h1(4) e x by auto
  qed
  ultimately show ?thesis using run h3(2,3) h1(2) by auto
qed

section \<open>Runs of the allocator\<close>

text \<open>The heap when nothing is allocated yet.\<close>

definition initial :: aheap where
  "initial = \<lparr>top = (heap_start_addr, heap_size), frees = [], live = {}\<rparr>"

text \<open>
  What the rest of the kernel does with the heap: it allocates blocks of sane size, frees and
  resizes blocks it holds, and writes into them. The second component of a state is the set of
  blocks it holds.
\<close>

definition block_at :: "u64 \<Rightarrow> kheap \<Rightarrow> block" where
  "block_at p h = (let a = get_free_node_from_addr p in (a, sz_of (hmem h) a))"

inductive heap_step :: "kheap \<times> block set \<Rightarrow> kheap \<times> block set \<Rightarrow> bool" where
  alloc: "unat n < 2 ^ 63 \<Longrightarrow> kmalloc n h = ret (p, h') \<Longrightarrow> heap_step (h, L) (h', insert (block_at p h') L)"
| free: "b \<in> L \<Longrightarrow> kfree (fst b + 16) h = ret h' \<Longrightarrow> heap_step (h, L) (h', L - {b})"
| resize: "b \<in> L \<Longrightarrow> unat n < 2 ^ 63 \<Longrightarrow> krealloc (fst b + 16) n h = ret (p, h') \<Longrightarrow>
    heap_step (h, L) (h', insert (block_at p h') (L - {b}))"
| write_byte: "b \<in> L \<Longrightarrow> x \<in> payload b \<Longrightarrow> heap_step (h, L) (h\<lparr>hmem := (hmem h)(x := v)\<rparr>, L)"

inductive_cases heap_stepE: "heap_step (h, L) s"

definition heap_sound :: "kheap \<times> block set \<Rightarrow> bool" where
  "heap_sound s \<longleftrightarrow> (\<exists>A. heap_rel (fst s) A \<and> live A = snd s \<and> unmapped_behind (fst s))"

lemma alloc_returns:
  assumes rel: "heap_rel h A" and only: "unmapped_behind h" and n: "unat n < 2 ^ 63" and run: "kmalloc n h = ret (p, h')"
  shows "\<exists>b B. alloc_spec n A = Some (b, B) \<and> heap_rel h' B \<and> p = fst b + 16 \<and> unmapped_behind h'"
proof (cases "alloc_spec n A")
  case None
  then show ?thesis using kmalloc_no_room [OF rel None only n] run by auto
next
  case (Some r)
  obtain b B where r: "r = (b, B)" by (cases r)
  then show ?thesis using kmalloc_spec [OF rel, of n b B] Some run only by (auto simp: unmapped_behind_def)
qed

lemma block_at_live: "heap_rel h A \<Longrightarrow> b \<in> live A \<Longrightarrow> block_at (fst b + 16) h = b"
  by (cases b) (auto simp: block_at_def heap_rel_def represents_def get_free_node_from_addr_def node_size_def)

lemma heap_step_sound:
  assumes "heap_step s s'" "heap_sound s"
  shows "heap_sound s'"
  using assms
proof (induction rule: heap_step.induct)
  case (alloc n h p h' L)
  then obtain A where A: "heap_rel h A" "live A = L" "unmapped_behind h" by (auto simp: heap_sound_def)
  then obtain b B where B: "alloc_spec n A = Some (b, B)" "heap_rel h' B" "p = fst b + 16" "unmapped_behind h'"
    using alloc_returns alloc by blast
  have "live B = insert b L" using alloc_spec_ok [of A n b B] A B by (auto simp: heap_rel_def)
  then show ?case using B block_at_live [of h' B b] by (auto simp: heap_sound_def)
next
  case (free b L h h')
  then obtain A where A: "heap_rel h A" "live A = L" "unmapped_behind h" by (auto simp: heap_sound_def)
  then show ?case
    using kfree_pushes [of h A b] free by (auto simp: heap_sound_def unmapped_behind_def free_spec_def intro!: exI [of _ "free_spec b A"])
next
  case (resize b L n h p h')
  then obtain A where A: "heap_rel h A" "live A = L" "unmapped_behind h" by (auto simp: heap_sound_def)
  show ?case
  proof (cases "n \<le> snd b")
    case True
    have "heap_node (fst b)" using heap_rel_nodes(2) [of A b] A resize(1) by (auto simp: heap_rel_def blocks_def)
    then have "p = fst b + 16" "h' = h"
      using resize(1,3) A True by (auto simp: krealloc_def get_free_node_from_addr_def node_size_def heap_rel_def represents_def)
    then show ?thesis using A resize(1) block_at_live [OF A(1), of b] by (auto simp: heap_sound_def insert_absorb)
  next
    case False
    have "heap_node (fst b)" using heap_rel_nodes(2) [of A b] A resize(1) by (auto simp: heap_rel_def blocks_def)
    then have "\<exists>q h1. kmalloc n h = ret (q, h1)"
      using resize(1,3) A(1,2) False
      by (auto simp: krealloc_def get_free_node_from_addr_def node_size_def heap_rel_def represents_def obind_eq_ret Let_def)
    then obtain c B where B: "alloc_spec n A = Some (c, B)" using alloc_returns [OF A(1,3) resize(2)] by blast
    have "live B = insert c L" "b \<noteq> c" using alloc_spec_ok [OF _ B] A resize(1) by (auto simp: heap_rel_def)
    then show ?thesis
      using krealloc_moves [OF A(1) _ _ B, of b] resize(1,3) A(2,3) False block_at_live [of h' "free_spec b B" c]
      by (auto simp: heap_sound_def unmapped_behind_def free_spec_def not_le intro!: exI [of _ "free_spec b B"])
  qed
next
  case (write_byte b L x h v)
  then obtain A where A: "heap_rel h A" "live A = L" "unmapped_behind h" by (auto simp: heap_sound_def)
  then have "heap_rel (h\<lparr>hmem := (hmem h)(x := v)\<rparr>) A"
    using write_byte by (intro payload_writes [of h A b]) (auto simp: blocks_def)
  then show ?case using A by (auto simp: heap_sound_def unmapped_behind_def)
qed


lemma heap_run_sound: "rtranclp heap_step s s' \<Longrightarrow> heap_sound s \<Longrightarrow> heap_sound s'"
  by (induction rule: rtranclp_induct) (auto intro: heap_step_sound)

lemma heap_run_apart:
  assumes "rtranclp heap_step (h0, {}) (h, L)" "heap_rel h0 initial" "unmapped_behind h0"
  shows "pairwise apart L \<and> (\<forall>b \<in> L. unat heap_start_addr \<le> unat (fst b) \<and> unat (fst b) + extent b \<le> heap_end \<and>
    sz_of (hmem h) (fst b) = snd b)"
proof -
  have "heap_sound (h0, {})" using assms(2,3) by (auto simp: heap_sound_def initial_def)
  then obtain A where A: "heap_rel h A" "live A = L" using heap_run_sound [OF assms(1)] by (auto simp: heap_sound_def)
  then have ok: "aheap_ok A" and sub: "L \<subseteq> blocks A" by (auto simp: heap_rel_def blocks_def)
  have "pairwise apart L" using pairwise_subset [OF aheap_okD(6) [OF ok] sub] .
  moreover have "unat heap_start_addr \<le> unat (fst b) \<and> unat (fst b) + extent b \<le> heap_end" if "b \<in> L" for b
    using aheap_okD(5,8) [OF ok] sub that by fastforce
  ultimately show ?thesis using A by (auto simp: heap_rel_def represents_def)
qed

section \<open>The initial heap\<close>

lemma initial_ok: "aheap_ok initial"
  by (simp add: aheap_ok_def initial_def blocks_def heap_end_def heap_numbers)

lemma initial_rel:
  assumes "heap_mapped h" "free_list_head h = heap_start_addr"
    and "nx_of (hmem h) heap_start_addr = 0" "sz_of (hmem h) heap_start_addr = heap_size"
  shows "heap_rel h initial"
  using assms initial_ok by (simp add: heap_rel_def represents_def initial_def)

text \<open>A heap whose pages, and nothing else, are mapped.\<close>

definition fresh_heap :: kheap where
  "fresh_heap = \<lparr>hmem = put_sz no_memory heap_start_addr heap_size, hmapped = (\<lambda>x. in_heap x 1),
     heap_addr = heap_start_addr, free_list_head = heap_start_addr, hterm = sample_terminal\<rparr>"

lemma ld64_no_memory: "ld64 no_memory a = 0"
  by (simp add: ld64_bytes no_memory_def)

lemma fresh_heap_rel: "heap_rel fresh_heap initial"
proof -
  have n: "is_node heap_start_addr" by (simp add: is_node_def heap_numbers)
  show "heap_rel fresh_heap initial"
  proof (rule initial_rel)
    show "heap_mapped fresh_heap" "free_list_head fresh_heap = heap_start_addr"
      by (simp_all add: heap_mapped_def fresh_heap_def)
    show "nx_of (hmem fresh_heap) heap_start_addr = 0" "sz_of (hmem fresh_heap) heap_start_addr = heap_size"
      using n by (simp_all add: fresh_heap_def nodes.same) (simp add: nx_of_def ld64_no_memory)
  qed
qed

text \<open>The first allocation of a fresh heap.\<close>

definition first_block :: "u64 \<Rightarrow> block" where
  "first_block n = (heap_start_addr, n)"

definition after_first :: "u64 \<Rightarrow> aheap" where
  "after_first n = initial\<lparr>top := (heap_start_addr + 16 + n, heap_size - n - 16), live := {first_block n}\<rparr>"

lemma initial_alloc: "unat n + 32 \<le> 102400 \<Longrightarrow> alloc_spec n initial = Some (first_block n, after_first n)"
  by (simp add: alloc_spec_def initial_def after_first_def first_block_def heap_numbers Let_def)

lemma fresh_alloc:
  assumes "unat n + 32 \<le> 102400"
  shows "\<exists>h. kmalloc n fresh_heap = ret (heap_start_addr + 16, h) \<and> heap_rel h (after_first n)"
  using kmalloc_spec [OF fresh_heap_rel initial_alloc [OF assms]] by (auto simp: first_block_def)

section \<open>Properties\<close>

text \<open>C5. \<open>kmalloc\<close> implements first fit: when the allocator on lists of blocks finds a block, the code
  returns the address behind that block's header, its memory represents the new lists, the bytes
  of every live block keep their values, and the new block is large enough, lies inside the heap
  and overlaps no live block.\<close>

theorem kmalloc_refines:
  assumes "heap_rel h A" "alloc_spec n A = Some (b, B)"
  shows "\<exists>h'. kmalloc n h = ret (fst b + 16, h') \<and> heap_rel h' B \<and> live B = insert b (live A) \<and>
    (\<forall>d \<in> live A. \<forall>x \<in> payload d. hmem h' x = hmem h x) \<and>
    n \<le> snd b \<and> unat (fst b) + 16 + unat (snd b) \<le> heap_end \<and> (\<forall>d \<in> live A. apart b d)"
proof -
  have ok: "aheap_ok A" using assms(1) by (simp add: heap_rel_def)
  show ?thesis
    using kmalloc_spec [OF assms] kmalloc_live [OF ok assms(2)] alloc_spec_ok [OF ok assms(2)]
    by (auto simp: extent_def)
qed

theorem kmalloc_refines_witness:
  "\<exists>h'. kmalloc 24 fresh_heap = ret (heap_start_addr + 16, h') \<and> heap_rel h' (after_first 24)"
  using kmalloc_refines [OF fresh_heap_rel initial_alloc [of 24]] by (auto simp: first_block_def)

text \<open>C18. \<open>kfree\<close> of a live block returns, puts the block at the front of the free list, keeps every
  other block where it is and changes no byte of a block.\<close>

theorem kfree_refines:
  assumes "heap_rel h A" "b \<in> live A"
  shows "\<exists>h'. kfree (fst b + 16) h = ret h' \<and> heap_rel h' (free_spec b A) \<and>
    (\<forall>d \<in> blocks A. \<forall>x \<in> payload d. hmem h' x = hmem h x)"
  using kfree_pushes [OF assms] by blast

theorem kfree_refines_witness:
  "\<exists>h h'. kmalloc 24 fresh_heap = ret (heap_start_addr + 16, h) \<and> kfree (heap_start_addr + 16) h = ret h' \<and>
     heap_rel h' (free_spec (first_block 24) (after_first 24))"
proof -
  obtain h where h: "kmalloc 24 fresh_heap = ret (heap_start_addr + 16, h)" "heap_rel h (after_first 24)"
    using fresh_alloc [of 24] by auto
  then show ?thesis
    using kfree_refines [OF h(2), of "first_block 24"] by (auto simp: after_first_def first_block_def)
qed

text \<open>C9. \<open>krealloc\<close> to a larger size returns a new block that starts with the bytes of the old one,
  frees the old one and keeps the bytes of every other live block.\<close>

theorem krealloc_refines:
  assumes "heap_rel h A" "b \<in> live A" "snd b < n" "alloc_spec n A = Some (c, B)"
  shows "\<exists>h'. krealloc (fst b + 16) n h = ret (fst c + 16, h') \<and> heap_rel h' (free_spec b B) \<and>
    (\<forall>i < unat (snd b). hmem h' (fst c + 16 + of_nat i) = hmem h (fst b + 16 + of_nat i)) \<and>
    (\<forall>d \<in> live A - {b}. \<forall>x \<in> payload d. hmem h' x = hmem h x)"
  using krealloc_moves [OF assms] by blast

theorem krealloc_refines_witness:
  "\<exists>h h'. kmalloc 24 fresh_heap = ret (heap_start_addr + 16, h) \<and>
     krealloc (heap_start_addr + 16) 100 h = ret (56 + heap_start_addr, h') \<and>
     (\<forall>i < 24. hmem h' (56 + heap_start_addr + of_nat i) = hmem h (heap_start_addr + 16 + of_nat i))"
proof -
  obtain h where h: "kmalloc 24 fresh_heap = ret (heap_start_addr + 16, h)" "heap_rel h (after_first 24)"
    using fresh_alloc [of 24] by auto
  have "first_fit 100 (frees (after_first 24)) = None" by (simp add: after_first_def initial_def)
  moreover have u: "unat (heap_size - 24 - 16) = 102360" by (simp add: heap_size_def)
  ultimately have "\<exists>B. alloc_spec 100 (after_first 24) = Some ((heap_start_addr + 40, 100), B)"
    using u by (simp add: alloc_spec_def after_first_def initial_def Let_def add.assoc)
  then show ?thesis
    using krealloc_refines [OF h(2), of "first_block 24" 100] h(1) by (auto simp: after_first_def first_block_def)
qed

text \<open>C31. A block that was just freed is the block an allocation of the same size returns.\<close>

theorem free_then_alloc:
  assumes "heap_rel h A" "b \<in> live A" "kfree (fst b + 16) h = ret h'"
  shows "\<exists>h''. kmalloc (snd b) h' = ret (fst b + 16, h'') \<and> heap_rel h'' A"
proof -
  have rel: "heap_rel h' (free_spec b A)" using kfree_pushes [OF assms(1,2)] assms(3) by auto
  have "cut_block (snd b) b = (b, [])" by (cases b) (simp add: cut_block_def)
  then have "first_fit (snd b) (frees (free_spec b A)) = Some (b, frees A)" by (simp add: free_spec_def)
  then have "alloc_spec (snd b) (free_spec b A) = Some (b, A)"
    using assms(2) by (simp add: alloc_spec_def) (simp add: free_spec_def insert_absorb)
  then show ?thesis using kmalloc_spec [OF rel] by blast
qed

theorem free_then_alloc_witness:
  "\<exists>h h' h''. kmalloc 24 fresh_heap = ret (heap_start_addr + 16, h) \<and> kfree (heap_start_addr + 16) h = ret h' \<and>
     kmalloc 24 h' = ret (heap_start_addr + 16, h'')"
proof -
  obtain h where h: "kmalloc 24 fresh_heap = ret (heap_start_addr + 16, h)" "heap_rel h (after_first 24)"
    using fresh_alloc [of 24] by auto
  have b: "first_block 24 \<in> live (after_first 24)" by (simp add: after_first_def)
  then obtain h' where "kfree (heap_start_addr + 16) h = ret h'"
    using kfree_pushes [OF h(2) b] by (auto simp: first_block_def)
  then show ?thesis using free_then_alloc [OF h(2) b, of h'] h(1) by (auto simp: first_block_def)
qed

text \<open>C33. Freeing a block twice links it to itself, and from then on an allocation of more than its size
  searches the free list for ever.\<close>

theorem double_free_hangs:
  assumes "heap_rel h A" "b \<in> live A" "snd b < n"
  shows "\<exists>h1 h2. kfree (fst b + 16) h = ret h1 \<and> kfree (fst b + 16) h1 = ret h2 \<and> kmalloc n h2 = None"
  by (rule kfree_twice [OF assms])

theorem double_free_hangs_witness:
  "\<exists>h h1 h2. kmalloc 24 fresh_heap = ret (heap_start_addr + 16, h) \<and> kfree (heap_start_addr + 16) h = ret h1 \<and>
     kfree (heap_start_addr + 16) h1 = ret h2 \<and> kmalloc 25 h2 = None"
proof -
  obtain h where h: "kmalloc 24 fresh_heap = ret (heap_start_addr + 16, h)" "heap_rel h (after_first 24)"
    using fresh_alloc [of 24] by auto
  then show ?thesis
    using double_free_hangs [OF h(2), of "first_block 24" 25] by (auto simp: after_first_def first_block_def)
qed

end
