(* ===== verification/Heap_Init.thy ===== *)
theory Heap_Init
  imports Kmalloc_Laws
begin

text \<open>
  Setting up the heap (\<open>init_heap\<close> of src/kmalloc.c) on the machine of the paging code: the loop
  maps the 25 pages of the heap to 25 different free frames, changes no other translation, and
  leaves a heap whose only block is its top.
\<close>

section \<open>Mapping a page whose tables exist\<close>

lemma map_page_present:
  assumes ok: "paging_ok bi s" and v: "canonical v" "index 4 v \<noteq> 511" and t: "table_at s (path_to 1 v) = Some t"
    and pool: "frame_pool bi (frames s) \<noteq> {}" and fl: "flags_ok s flags"
  shows "\<exists>f s'. f \<in> frame_pool bi (frames s) \<and> map_page bi (v div PAGE_SIZE) flags s = ret s' \<and> paging_ok bi s' \<and>
    (\<forall>w. w div PAGE_SIZE = v div PAGE_SIZE \<longrightarrow> mmu s' w = Some (get_frame_start_addr f + w mod PAGE_SIZE)) \<and>
    (\<forall>w. index 4 w \<noteq> 511 \<longrightarrow> w div PAGE_SIZE \<noteq> v div PAGE_SIZE \<longrightarrow> mmu s' w = mmu s w) \<and>
    frame_pool bi (frames s') = frame_pool bi (frames s) - {f} \<and>
    nx_enabled s' = nx_enabled s \<and> table_at s' (path_to 1 v) = Some t"
proof -
  obtain f al u where f: "alloc_frame bi s = ret (0, f, s\<lparr>frames := al, tty := u\<rparr>)" "f \<in> frame_pool bi (frames s)"
    "frame_pool bi al = frame_pool bi (frames s) - {f}" "allocator_ready bi (al, u)"
    using alloc_frame_takes [OF ok pool] by blast
  let ?s1 = "s\<lparr>frames := al, tty := u\<rparr>" and ?e = "entry_for f (present_bit OR flags)"
  define s' where "s' = ?s1\<lparr>phys := st64 (phys ?s1) (t + 8 * index 1 v) ?e\<rparr>"
  have ok1: "paging_ok bi ?s1" using paging_ok_alloc [OF ok _ f(4)] f(3) by blast
  have t1: "table_at ?s1 (path_to 1 v) = Some t" and fl1: "flags_ok ?s1 flags" using t fl by simp_all
  have p: "table_path (path_to 1 v)" using table_path_to [of 1 v] v(2) by simp
  have run: "map_page bi (v div PAGE_SIZE) flags s = ret s'"
    using f(1) map_existing [OF paging_okD(1) [OF ok1] v(2) t1, of bi f flags] by (simp add: map_page_def s'_def)
  note leaf = leaf_store [OF paging_okD(1) [OF ok1] v(2) t1 s'_def]
  have addr: "entry_addr ?e = get_frame_start_addr f"
    by (rule entry_addr_for [OF paging_okD(3) [OF ok f(2)] flags_present [OF fl]])
  have "paging_ok bi s'" by (rule paging_ok_leaf [OF ok1 v(2) t1 s'_def])
  moreover have "mmu s' w = Some (get_frame_start_addr f + w mod PAGE_SIZE)" if "w div PAGE_SIZE = v div PAGE_SIZE" for w
    using leaf entry_ok_flags [OF fl1, of f] v(1) that addr by simp
  moreover have "mmu s' w = mmu s w" if "index 4 w \<noteq> 511" "w div PAGE_SIZE \<noteq> v div PAGE_SIZE" for w
    using leaf v(1) that by simp
  moreover have "frames s' = al" "nx_enabled s' = nx_enabled s" by (simp_all add: s'_def)
  moreover have "table_at s' (path_to 1 v) = Some t" using leaf p t1 by simp
  ultimately show ?thesis
    using run f(2,3) by (intro exI [of _ f] exI [of _ s']) simp
qed

section \<open>The addresses of the heap\<close>

lemma unat_indices: "unat (index 4 v) = unat v div 549755813888 mod 512"
  "unat (index 3 v) = unat v div 1073741824 mod 512" "unat (index 2 v) = unat v div 2097152 mod 512"
  by (simp_all add: index_def take_bit_eq_mod drop_bit_eq_div unat_mod unat_div)

definition heap_page :: "nat \<Rightarrow> u64" where
  "heap_page k = heap_start_addr + 4096 * of_nat k"

lemma unat_heap_page: "k \<le> 25 \<Longrightarrow> unat (heap_page k) = 1073741824 + 4096 * k"
  unfolding heap_page_def using unat_page_step [of heap_start_addr k] by (simp add: heap_numbers)

lemma heap_page_Suc: "heap_page k + PAGE_SIZE = heap_page (Suc k)"
  by (simp add: heap_page_def PAGE_SIZE_def distrib_left)

lemma heap_page_0: "heap_page 0 = heap_start_addr"
  by (simp add: heap_page_def)

lemma heap_loop_test: "k \<le> 25 \<Longrightarrow> heap_page k < heap_start_addr + heap_size \<longleftrightarrow> k < 25"
proof -
  assume "k \<le> 25"
  moreover have "unat (heap_start_addr + heap_size) = 1073844224" by (simp add: heap_start_addr_def heap_size_def)
  ultimately show ?thesis by (auto simp: word_less_nat_alt unat_heap_page)
qed


lemma heap_page_div: "x < 102400 \<Longrightarrow> (1073741824 + x) div 549755813888 = (0 :: nat)"
  "x < 102400 \<Longrightarrow> (1073741824 + x) div 1073741824 = (1 :: nat)" "x < 102400 \<Longrightarrow> (1073741824 + x) div 2097152 = (512 :: nat)"
  by linarith+

lemma in_heap_offset:
  assumes "in_heap w 1"
  obtains x where "unat w = 1073741824 + x" "x < 102400"
proof
  show "unat w = 1073741824 + (unat w - 1073741824)" "unat w - 1073741824 < 102400"
    using assms by (auto simp: in_heap_def heap_numbers)
qed

lemma in_heap_paths:
  assumes "in_heap w 1"
  shows "canonical w" "index 4 w = 0" "path_to 1 w = path_to 1 heap_start_addr"
proof -
  obtain x where x: "unat w = 1073741824 + x" "x < 102400" by (rule in_heap_offset [OF assms])
  show "canonical w" using x by (intro canonical_low) (simp add: word_less_nat_alt)
  have i: "unat (index 4 w) = 0" "unat (index 3 w) = 1" "unat (index 2 w) = 0"
    using x(2) by (simp_all add: unat_indices x(1) heap_page_div)
  have j: "unat (index 4 heap_start_addr) = 0" "unat (index 3 heap_start_addr) = 1" "unat (index 2 heap_start_addr) = 0"
    by (simp_all add: unat_indices heap_numbers)
  show "index 4 w = 0" using i by (simp add: word_unat_eq_iff)
  have "index 4 w = index 4 heap_start_addr" "index 3 w = index 3 heap_start_addr" "index 2 w = index 2 heap_start_addr"
    using i j by (simp_all add: word_unat_eq_iff)
  then show "path_to 1 w = path_to 1 heap_start_addr" by (simp add: path_to_def)
qed

lemma same_page_unat: "w div PAGE_SIZE = v div PAGE_SIZE \<longleftrightarrow> unat w div 4096 = unat v div 4096"
  by (simp add: word_unat_eq_iff unat_div PAGE_SIZE_def)

lemma page_of_heap_page:
  assumes "k < 25"
  shows "w div PAGE_SIZE = heap_page k div PAGE_SIZE \<longleftrightarrow> in_heap w 1 \<and> (unat w - 1073741824) div 4096 = k"
proof -
  have "unat (heap_page k) div 4096 = 262144 + k" using assms by (simp add: unat_heap_page)
  moreover have "unat w div 4096 = 262144 + k \<longleftrightarrow> in_heap w 1 \<and> (unat w - 1073741824) div 4096 = k"
    using assms unfolding in_heap_def heap_numbers by auto
  ultimately show ?thesis by (simp add: same_page_unat)
qed

section \<open>The loop\<close>

text \<open>After \<open>k\<close> pages: page \<open>j\<close> is mapped to the frame \<open>fr j\<close>, taken from the pool of the initial state \<open>s0\<close>.\<close>

definition heap_pages_done :: "mem \<Rightarrow> machine \<Rightarrow> nat \<Rightarrow> (nat \<Rightarrow> frame) \<Rightarrow> machine \<Rightarrow> bool" where
  "heap_pages_done bi s0 k fr s \<longleftrightarrow>
     paging_ok bi s \<and> nx_enabled s = nx_enabled s0 \<and> 25 - k \<le> card (frame_pool bi (frames s)) \<and>
     frame_pool bi (frames s) \<subseteq> frame_pool bi (frames s0) \<and>
     inj_on fr {..<k} \<and> fr ` {..<k} \<subseteq> frame_pool bi (frames s0) - frame_pool bi (frames s) \<and>
     (0 < k \<longrightarrow> (\<exists>t. table_at s (path_to 1 heap_start_addr) = Some t)) \<and>
     (\<forall>w. in_heap w 1 \<longrightarrow> (unat w - 1073741824) div 4096 < k \<longrightarrow>
        mmu s w = Some (get_frame_start_addr (fr ((unat w - 1073741824) div 4096)) + w mod PAGE_SIZE)) \<and>
     (\<forall>w. index 4 w \<noteq> 511 \<longrightarrow> \<not> (in_heap w 1 \<and> (unat w - 1073741824) div 4096 < k) \<longrightarrow> mmu s w = mmu s0 w)"

lemma print_page: "\<exists>t. print_out bi (''Mapping page %#x'' @ [newline]) [a] s = ret (s\<lparr>tty := t\<rparr>)"
  unfolding print_out_def by (simp add: printf_char printf_x printf_nil newline_def) (rule exI, rule refl)

lemma map_heap_page_run:
  assumes "in_heap v 1"
  shows "\<exists>t. map_heap_page bi v s = map_page bi (v div PAGE_SIZE) (present_bit OR writeable_bit) (s\<lparr>tty := t\<rparr>)"
  using print_page [of bi v s] in_heap_paths(1) [OF assms] by (auto simp: map_heap_page_def page_for_canonical)

lemma tty_views [simp]:
  "paging_ok bi (s\<lparr>tty := t\<rparr>) = paging_ok bi s" "nx_enabled (s\<lparr>tty := t\<rparr>) = nx_enabled s"
  "table_at (s\<lparr>tty := t\<rparr>) = table_at s" "mmu (s\<lparr>tty := t\<rparr>) = mmu s" "way_clear (s\<lparr>tty := t\<rparr>) = way_clear s"
  "flags_ok (s\<lparr>tty := t\<rparr>) = flags_ok s"
  by (simp_all add: nx_enabled_def root_def tables_ok_def table_at_def mmu_def paging_ok_def allocator_ready_def
      way_clear_def flags_ok_def fun_eq_iff)

lemma rw_flags: "flags_ok s (present_bit OR writeable_bit)"
  by (simp add: flags_ok_def present_bit_def writeable_bit_def physical_addr_mask_def)


lemma heap_page_done:
  assumes J: "heap_pages_done bi s0 k fr s" and k: "k < 25" and f: "f \<in> frame_pool bi (frames s)"
    and s': "paging_ok bi s'" "nx_enabled s' = nx_enabled s" "table_at s' (path_to 1 heap_start_addr) = Some t"
    and here: "\<forall>w. w div PAGE_SIZE = heap_page k div PAGE_SIZE \<longrightarrow> mmu s' w = Some (get_frame_start_addr f + w mod PAGE_SIZE)"
    and other: "\<forall>w. index 4 w \<noteq> 511 \<longrightarrow> w div PAGE_SIZE \<noteq> heap_page k div PAGE_SIZE \<longrightarrow> mmu s' w = mmu s w"
    and pool: "frame_pool bi (frames s') \<subseteq> frame_pool bi (frames s) - {f}" "25 - Suc k \<le> card (frame_pool bi (frames s'))"
  shows "heap_pages_done bi s0 (Suc k) (fr(k := f)) s'"
  unfolding heap_pages_done_def
proof (intro conjI)
  have J': "frame_pool bi (frames s) \<subseteq> frame_pool bi (frames s0)" "inj_on fr {..<k}"
    "fr ` {..<k} \<subseteq> frame_pool bi (frames s0) - frame_pool bi (frames s)" "nx_enabled s = nx_enabled s0"
    "\<And>w. in_heap w 1 \<Longrightarrow> (unat w - 1073741824) div 4096 < k \<Longrightarrow>
        mmu s w = Some (get_frame_start_addr (fr ((unat w - 1073741824) div 4096)) + w mod PAGE_SIZE)"
    "\<And>w. index 4 w \<noteq> 511 \<Longrightarrow> \<not> (in_heap w 1 \<and> (unat w - 1073741824) div 4096 < k) \<Longrightarrow> mmu s w = mmu s0 w"
    using J by (simp_all add: heap_pages_done_def)
  show "frame_pool bi (frames s') \<subseteq> frame_pool bi (frames s0)" using J'(1) pool(1) by blast
  show "inj_on (fr(k := f)) {..<Suc k}"
    using J'(2,3) f by (auto simp: lessThan_Suc inj_on_def)
  show "(fr(k := f)) ` {..<Suc k} \<subseteq> frame_pool bi (frames s0) - frame_pool bi (frames s')"
    using J'(1,3) f pool(1) by (auto simp: lessThan_Suc)
  show "\<forall>w. in_heap w 1 \<longrightarrow> (unat w - 1073741824) div 4096 < Suc k \<longrightarrow>
      mmu s' w = Some (get_frame_start_addr ((fr(k := f)) ((unat w - 1073741824) div 4096)) + w mod PAGE_SIZE)"
  proof (intro allI impI)
    fix w assume w: "in_heap w 1" "(unat w - 1073741824) div 4096 < Suc k"
    show "mmu s' w = Some (get_frame_start_addr ((fr(k := f)) ((unat w - 1073741824) div 4096)) + w mod PAGE_SIZE)"
    proof (cases "(unat w - 1073741824) div 4096 = k")
      case True
      then show ?thesis using here page_of_heap_page [OF k, of w] w(1) by simp
    next
      case False
      then have "mmu s' w = mmu s w"
        using other page_of_heap_page [OF k, of w] in_heap_paths(2) [OF w(1)] by simp
      then show ?thesis using J'(5) [OF w(1)] w(2) False by simp
    qed
  qed
  show "\<forall>w. index 4 w \<noteq> 511 \<longrightarrow> \<not> (in_heap w 1 \<and> (unat w - 1073741824) div 4096 < Suc k) \<longrightarrow> mmu s' w = mmu s0 w"
    using other J'(6) page_of_heap_page [OF k] by (metis less_Suc_eq)
qed (use J s' pool(2) in \<open>auto simp: heap_pages_done_def\<close>)

lemma heap_page_in: "k < 25 \<Longrightarrow> in_heap (heap_page k) 1"
  by (simp add: in_heap_def unat_heap_page heap_numbers)

lemma map_heap_page_first:
  assumes ok: "paging_ok bi s" and way: "way_clear s heap_start_addr" and pool: "28 \<le> card (frame_pool bi (frames s))"
  shows "\<exists>fr s'. map_heap_page bi (heap_page 0) s = ret s' \<and> heap_pages_done bi s 1 fr s'"
proof -
  let ?v = "heap_page 0"
  have in0: "in_heap ?v 1" by (rule heap_page_in) simp
  note v = in0 in_heap_paths [OF in0]
  obtain u where u: "map_heap_page bi ?v s = map_page bi (?v div PAGE_SIZE) (present_bit OR writeable_bit) (s\<lparr>tty := u\<rparr>)"
    using map_heap_page_run [OF v(1)] by blast
  let ?s = "s\<lparr>tty := u\<rparr>"
  have "paging_ok bi ?s" "way_clear ?s ?v" "24 + 4 \<le> card (frame_pool bi (frames ?s))" "index 4 ?v \<noteq> 511"
    using ok way pool v(3) by (simp_all add: heap_page_0)
  then obtain f s' t where m: "f \<in> frame_pool bi (frames ?s)" "map_page bi (?v div PAGE_SIZE) (present_bit OR writeable_bit) ?s = ret s'"
    "paging_ok bi s'"
    "\<forall>w. w div PAGE_SIZE = ?v div PAGE_SIZE \<longrightarrow> mmu s' w = Some (get_frame_start_addr f + w mod PAGE_SIZE)"
    "\<forall>w. index 4 w \<noteq> 511 \<longrightarrow> w div PAGE_SIZE \<noteq> ?v div PAGE_SIZE \<longrightarrow> mmu s' w = mmu ?s w"
    "24 \<le> card (frame_pool bi (frames s'))" "frame_pool bi (frames s') \<subseteq> frame_pool bi (frames ?s) - {f}"
    "nx_enabled s' = nx_enabled ?s" "table_at s' (path_to 1 ?v) = Some t"
    using map_page_ok [of bi ?s ?v 24 "present_bit OR writeable_bit"] v(2) rw_flags by blast
  have "heap_pages_done bi s 0 (\<lambda>_. 0) s" using ok pool by (simp add: heap_pages_done_def)
  then have "heap_pages_done bi s (Suc 0) ((\<lambda>_. 0)(0 := f)) s'"
    using m v(4) by (intro heap_page_done [where s = s and t = t]) auto
  then show ?thesis using u m(2) by auto
qed

lemma map_heap_page_next:
  assumes J: "heap_pages_done bi s0 k fr s" and k: "0 < k" "k < 25"
  shows "\<exists>fr s'. map_heap_page bi (heap_page k) s = ret s' \<and> heap_pages_done bi s0 (Suc k) fr s'"
proof -
  let ?v = "heap_page k"
  note v = heap_page_in [OF k(2)] in_heap_paths [OF heap_page_in [OF k(2)]]
  obtain u where u: "map_heap_page bi ?v s = map_page bi (?v div PAGE_SIZE) (present_bit OR writeable_bit) (s\<lparr>tty := u\<rparr>)"
    using map_heap_page_run [OF v(1)] by blast
  let ?s = "s\<lparr>tty := u\<rparr>"
  have J': "paging_ok bi ?s" "25 - k \<le> card (frame_pool bi (frames ?s))" "\<exists>t. table_at ?s (path_to 1 ?v) = Some t"
    using J k(1) v(4) by (auto simp: heap_pages_done_def)
  then have pool: "frame_pool bi (frames ?s) \<noteq> {}" "index 4 ?v \<noteq> 511" using k(2) v(3) by fastforce+
  obtain t where t: "table_at ?s (path_to 1 ?v) = Some t" using J'(3) by blast
  obtain f s' where m: "f \<in> frame_pool bi (frames ?s)" "map_page bi (?v div PAGE_SIZE) (present_bit OR writeable_bit) ?s = ret s'"
    "paging_ok bi s'"
    "\<forall>w. w div PAGE_SIZE = ?v div PAGE_SIZE \<longrightarrow> mmu s' w = Some (get_frame_start_addr f + w mod PAGE_SIZE)"
    "\<forall>w. index 4 w \<noteq> 511 \<longrightarrow> w div PAGE_SIZE \<noteq> ?v div PAGE_SIZE \<longrightarrow> mmu s' w = mmu ?s w"
    "frame_pool bi (frames s') = frame_pool bi (frames ?s) - {f}" "nx_enabled s' = nx_enabled ?s"
    "table_at s' (path_to 1 ?v) = Some t"
    using map_page_present [OF J'(1) v(2) pool(2) t pool(1) rw_flags] by blast
  have "heap_pages_done bi s0 (Suc k) (fr(k := f)) s'"
    using m v(4) J'(2) by (intro heap_page_done [OF J k(2), where t = t]) auto
  then show ?thesis using u m(2) by auto
qed

lemma map_heap_pages_done:
  assumes "heap_pages_done bi s0 k fr s" "0 < k" "k \<le> 25"
  shows "\<exists>fr s'. map_heap_pages bi (heap_page k) s = ret s' \<and> heap_pages_done bi s0 25 fr s'"
  using assms
proof (induction "25 - k" arbitrary: k fr s)
  case 0
  then show ?case using heap_loop_test [of k] by (subst map_heap_pages.simps) auto
next
  case (Suc n)
  then have k: "k < 25" by simp
  obtain fr' s' where m: "map_heap_page bi (heap_page k) s = ret s'" "heap_pages_done bi s0 (Suc k) fr' s'"
    using map_heap_page_next [OF Suc.prems(1,2) k] by blast
  have "\<exists>fr s''. map_heap_pages bi (heap_page (Suc k)) s' = ret s'' \<and> heap_pages_done bi s0 25 fr s''"
    using Suc.hyps(2) k by (intro Suc.hyps(1) [OF _ m(2)]) auto
  then show ?case using k m(1) heap_loop_test [of k] by (subst map_heap_pages.simps) (simp add: heap_page_Suc)
qed

lemma map_heap_pages_run:
  assumes "paging_ok bi s" "way_clear s heap_start_addr" "28 \<le> card (frame_pool bi (frames s))"
  shows "\<exists>fr s'. map_heap_pages bi heap_start_addr s = ret s' \<and> heap_pages_done bi s 25 fr s'"
proof -
  obtain fr s' where m: "map_heap_page bi (heap_page 0) s = ret s'" "heap_pages_done bi s 1 fr s'"
    using map_heap_page_first [OF assms] by blast
  have "\<exists>fr s''. map_heap_pages bi (heap_page (Suc 0)) s' = ret s'' \<and> heap_pages_done bi s 25 fr s''"
    using map_heap_pages_done [of bi s "Suc 0" fr s'] m(2) by simp
  then show ?thesis
    using m(1) heap_loop_test [of 0] by (subst map_heap_pages.simps) (simp add: heap_page_0 heap_page_Suc flip: heap_page_0)
qed


lemma init_heap_state:
  assumes "paging_ok bi s" "way_clear s heap_start_addr" "28 \<le> card (frame_pool bi (frames s))"
  shows "\<exists>s' h fr. init_heap bi s = ret (s', h) \<and> heap_rel h initial \<and> paging_ok bi s' \<and>
    (\<forall>w. hmapped h w \<longleftrightarrow> mmu s' w \<noteq> None) \<and>
    inj_on fr {..<25} \<and> fr ` {..<25} \<subseteq> frame_pool bi (frames s) \<and>
    (\<forall>w. in_heap w 1 \<longrightarrow>
       mmu s' w = Some (get_frame_start_addr (fr ((unat w - unat heap_start_addr) div 4096)) + w mod PAGE_SIZE)) \<and>
    (\<forall>w. index 4 w \<noteq> 511 \<longrightarrow> \<not> in_heap w 1 \<longrightarrow> mmu s' w = mmu s w)"
proof -
  obtain fr s' where m: "map_heap_pages bi heap_start_addr s = ret s'" "heap_pages_done bi s 25 fr s'"
    using map_heap_pages_run [OF assms] by blast
  have range: "(unat w - 1073741824) div 4096 < 25" if "in_heap w 1" for w
    using that by (auto simp: in_heap_def heap_numbers)
  have J: "paging_ok bi s'" "inj_on fr {..<25}" "fr ` {..<25} \<subseteq> frame_pool bi (frames s)"
    "\<forall>w. in_heap w 1 \<longrightarrow> mmu s' w = Some (get_frame_start_addr (fr ((unat w - 1073741824) div 4096)) + w mod PAGE_SIZE)"
    "\<forall>w. index 4 w \<noteq> 511 \<longrightarrow> \<not> in_heap w 1 \<longrightarrow> mmu s' w = mmu s w"
    using m(2) range by (auto simp: heap_pages_done_def)
  let ?v = "heap_view s' heap_start_addr"
  let ?m = "put_sz (put_nx (hmem ?v) heap_start_addr 0) heap_start_addr heap_size"
  have n: "heap_node heap_start_addr" "is_node heap_start_addr" by (simp_all add: in_heap_def is_node_def heap_numbers)
  have v: "heap_mapped ?v" "free_list_head ?v = heap_start_addr"
    using J(4) by (auto simp: heap_mapped_def heap_view_def)
  have run: "init_heap bi s = ret (s', ?v\<lparr>hmem := ?m\<rparr>)"
    using m(1) v n(1) by (simp add: init_heap_def Let_def)
  have "heap_rel (?v\<lparr>hmem := ?m\<rparr>) initial"
    using v n(2) by (intro initial_rel) (simp_all add: nodes.same)
  moreover have "hmapped (?v\<lparr>hmem := ?m\<rparr>) w \<longleftrightarrow> mmu s' w \<noteq> None" for w by (simp add: heap_view_def)
  ultimately show ?thesis using run J by (intro exI [of _ s'] exI [of _ "?v\<lparr>hmem := ?m\<rparr>"] exI [of _ fr]) (simp add: heap_numbers)
qed

section \<open>Behind the heap\<close>

text \<open>An address that is not in the lower half of the address space lies far up, or is not canonical.\<close>

lemma unat_low_bits:
  assumes "\<And>n. 47 \<le> n \<Longrightarrow> \<not> bit (v :: u64) n"
  shows "unat v < 2 ^ 47"
proof -
  have "bit (take_bit 47 v) n = bit v n" for n using assms [of n] by (cases "n < 47") (simp_all add: bit_take_bit_iff)
  then have "take_bit 47 v = v" by (rule bit_eqI)
  then have "unat v mod 2 ^ 47 = unat v" by (simp add: take_bit_eq_mod word_unat_eq_iff unat_mod)
  then show ?thesis by (metis mod_less_divisor zero_less_numeral zero_less_power)
qed

lemma canonical_high:
  assumes "canonical v" "2 ^ 47 \<le> unat v"
  shows "2 ^ 63 + 2 ^ 31 \<le> unat v"
proof -
  have same: "bit v n = bit v 47" if "47 \<le> n" "n < 64" for n
    using assms(1) that unfolding canonical_def by (cases "n = 47") auto
  have "bit v 47"
  proof (rule ccontr)
    assume "\<not> bit v 47"
    then have "unat v < 2 ^ 47" using same bit64_len by (intro unat_low_bits) blast
    then show False using assms(2) by simp
  qed
  then have "\<not> bit (NOT v) n" if "47 \<le> n" for n
    using same [OF that] bit64_len [of "NOT v" n] by (auto simp: bit_not_iff)
  then have "unat (NOT v) < 2 ^ 47" by (rule unat_low_bits)
  moreover have "NOT v = - 1 - v"
    unfolding not_eq_complement by (simp only: diff_conv_add_uminus add.commute)
  ultimately have "unat (- 1 - v) < 2 ^ 47" by (simp only:)
  moreover have "unat (- 1 - v) = unat (- 1 :: u64) - unat v" by (rule unat_sub) simp
  ultimately have "unat (- 1 :: u64) - unat v < 2 ^ 47" by simp
  then show ?thesis by (simp add: unsigned_minus_1_eq_mask mask_eq_exp_minus_1)
qed

lemma low_index: "unat v < 2 ^ 47 \<Longrightarrow> unat (index 4 v) = unat v div 2 ^ 39" "unat v < 2 ^ 47 \<Longrightarrow> index 4 v \<noteq> 511"
proof -
  assume v: "unat v < 2 ^ 47"
  then have d: "unat v div 2 ^ 39 < 256" by simp
  then show i: "unat (index 4 v) = unat v div 2 ^ 39" by (simp add: unat_indices(1))
  show "index 4 v \<noteq> 511" using i d by auto
qed

text \<open>A machine that maps nothing in the lower half from the end of the heap on.\<close>

definition nothing_behind :: "machine \<Rightarrow> bool" where
  "nothing_behind s \<longleftrightarrow> (\<forall>v. heap_end \<le> unat v \<longrightarrow> unat v < 2 ^ 47 \<longrightarrow> mmu s v = None)"

lemma nothing_behind_unmapped:
  assumes "\<And>v :: u64. hmapped h v \<longleftrightarrow> mmu s v \<noteq> None" "nothing_behind s"
  shows "unmapped_behind h"
  unfolding unmapped_behind_def
proof (intro allI impI)
  fix v :: u64 assume v: "heap_end \<le> unat v" "unat v < 2 ^ 63 + 2 ^ 31"
  show "\<not> hmapped h v"
  proof (cases "unat v < 2 ^ 47")
    case True
    then show ?thesis using assms v(1) by (simp add: nothing_behind_def)
  next
    case False
    then have "\<not> canonical v" using canonical_high [of v] v(2) by auto
    then show ?thesis using assms(1) by (simp add: mmu_def)
  qed
qed

lemma init_heap_behind:
  assumes "paging_ok bi s" "way_clear s heap_start_addr" "28 \<le> card (frame_pool bi (frames s))" "nothing_behind s"
  shows "\<exists>s' h. init_heap bi s = ret (s', h) \<and> heap_rel h initial \<and> unmapped_behind h"
proof -
  obtain s' h where r: "init_heap bi s = ret (s', h)" "heap_rel h initial" "\<forall>w. hmapped h w \<longleftrightarrow> mmu s' w \<noteq> None"
    "\<forall>w. index 4 w \<noteq> 511 \<longrightarrow> \<not> in_heap w 1 \<longrightarrow> mmu s' w = mmu s w"
    using init_heap_state [OF assms(1-3)] by blast
  have "nothing_behind s'"
    using r(4) assms(4) low_index(2) by (auto simp: nothing_behind_def in_heap_def)
  then show ?thesis using r nothing_behind_unmapped [of h s'] by blast
qed

section \<open>Properties\<close>

text \<open>C10. From sound page tables, 28 free frames and a clear way to the last table of the heap, \<open>init_heap\<close>
  returns; its 25 pages are mapped to different free frames, no other translation changes, and
  the heap it leaves is the empty one, ready for \<open>kmalloc\<close>.\<close>

theorem init_heap_ready:
  assumes "paging_ok bi s" "way_clear s heap_start_addr" "28 \<le> card (frame_pool bi (frames s))"
  shows "\<exists>s' h fr. init_heap bi s = ret (s', h) \<and> heap_rel h initial \<and> paging_ok bi s' \<and>
    inj_on fr {..<25} \<and> fr ` {..<25} \<subseteq> frame_pool bi (frames s) \<and>
    (\<forall>w. in_heap w 1 \<longrightarrow>
       mmu s' w = Some (get_frame_start_addr (fr ((unat w - unat heap_start_addr) div 4096)) + w mod PAGE_SIZE)) \<and>
    (\<forall>w. index 4 w \<noteq> 511 \<longrightarrow> \<not> in_heap w 1 \<longrightarrow> mmu s' w = mmu s w)"
  using init_heap_state [OF assms] by blast

lemma sample_pool_28: "28 \<le> card (frame_pool sample_image (frames (sample_machine d)))"
proof -
  have "inj_on (\<lambda>k. of_nat (k + 4) :: frame) {..<28}"
    by (rule inj_onI) (simp del: of_nat_add add: of_nat64_eq_iff)
  then have "28 = card ((\<lambda>k. of_nat (k + 4) :: frame) ` {..<28})" by (simp add: card_image)
  also have "\<dots> \<le> card (frame_pool sample_image (sample_allocator\<lparr>next_free_frame := 1\<rparr>))"
  proof (rule card_mono)
    show "(\<lambda>k. of_nat (k + 4) :: frame) ` {..<28} \<subseteq> frame_pool sample_image (sample_allocator\<lparr>next_free_frame := 1\<rparr>)"
    proof
      fix f :: frame assume "f \<in> (\<lambda>k. of_nat (k + 4)) ` {..<28}"
      then obtain k where k: "k < 28" "f = of_nat (k + 4)" by auto
      then have "unat f = k + 4" by (simp add: unat_of_nat64 del: of_nat_add)
      then show "f \<in> frame_pool sample_image (sample_allocator\<lparr>next_free_frame := 1\<rparr>)"
        using k(1) by (simp add: sample_pool word_le_nat_alt)
    qed
  qed simp
  finally show ?thesis by simp
qed

lemma sample_heap_way: "way_clear (sample_machine 0) heap_start_addr"
  by (simp add: way_clear_def path_to_def index_def heap_start_addr_def take_bit_eq_mod drop_bit_eq_div sample_entries
      sample_aligned Let_def sample_links [unfolded hangs_def])

theorem init_heap_ready_witness:
  "\<exists>s' h. init_heap sample_image (sample_machine 0) = ret (s', h) \<and> heap_rel h initial \<and> mmu s' 0x7123 = mmu (sample_machine 0) 0x7123"
proof -
  have "index 4 0x7123 \<noteq> 511" "\<not> in_heap 0x7123 1"
    by (simp_all add: index_def take_bit_eq_mod drop_bit_eq_div in_heap_def heap_numbers)
  then show ?thesis
    using init_heap_ready [OF sample_paging_ok sample_heap_way sample_pool_28] by blast
qed

text \<open>C32. The size of the block at the top is never compared with the request: when no block fits and
  the top has too few bytes for the request and two headers, \<open>kmalloc\<close> writes a header behind the
  end of the heap and page-faults there instead of returning a null pointer. It holds for
  requests of fewer than 2 ^ 63 bytes on a heap that has nothing mapped behind it as far as such a
  request reaches, which is how \<open>init_heap\<close> leaves it on a machine with nothing mapped there.\<close>

theorem kmalloc_overruns_heap:
  assumes "heap_rel h A" "alloc_spec n A = None" "unmapped_behind h" "unat n < 2 ^ 63"
  shows "\<exists>x. kmalloc n h = fail (Page_fault x) \<and> heap_end \<le> unat x"
  by (rule kmalloc_no_room [OF assms])

lemma sample_behind: "nothing_behind (sample_machine 0)"
  unfolding nothing_behind_def
proof (intro allI impI)
  fix v :: u64 assume v: "heap_end \<le> unat v" "unat v < 2 ^ 47"
  note walk = walk.simps(2) [of False 3 "sample_phys 0" "0x3000" v, simplified]
    walk.simps(2) [of False 2 "sample_phys 0" "0x2000" v, simplified]
  show "mmu (sample_machine 0) v = None"
  proof (cases "index 4 v = 0")
    case True
    then have "unat v div 2 ^ 39 = 0" using low_index(1) [OF v(2)] by simp
    then have "unat v < 2 ^ 39" by simp
    then have "unat (index 3 v) = unat v div 1073741824" by (simp add: unat_indices(2))
    then have "0 < unat (index 3 v)" using v(1) by (simp add: heap_numbers)
    then have "index 3 v \<noteq> 0" by auto
    then show ?thesis
      using True sample_links [of False, unfolded hangs_def] walk
      by (simp add: mmu_def Let_def sample_entries sample_aligned entry_ok_def)
  next
    case False
    then show ?thesis
      using low_index(2) [OF v(2)] walk(1) by (simp add: mmu_def Let_def sample_entries sample_aligned entry_ok_def)
  qed
qed

text \<open>On the heap the code sets up, a request for all of its bytes.\<close>

theorem kmalloc_overruns_heap_witness:
  "\<exists>s' h x. init_heap sample_image (sample_machine 0) = ret (s', h) \<and>
     kmalloc 102400 h = fail (Page_fault x) \<and> heap_end \<le> unat x"
proof -
  obtain s' h where h: "init_heap sample_image (sample_machine 0) = ret (s', h)" "heap_rel h initial" "unmapped_behind h"
    using init_heap_behind [OF sample_paging_ok sample_heap_way sample_pool_28 sample_behind] by blast
  have "alloc_spec 102400 initial = None" by (simp add: alloc_spec_def initial_def heap_numbers)
  then show ?thesis using kmalloc_overruns_heap [OF h(2) _ h(3), of 102400] h(1) by auto
qed

end
