(* ===== verification/Ports.thy ===== *)
theory Ports
  imports Prelude
begin

text \<open>
  Port input and output (src/util.h), the interrupt controllers (src/pic.c) and the timer
  (src/pit.c). The devices are a parameter: a \<open>bus\<close> says what a port read returns and what a
  port write does to the devices. The bus of a PC, with the two 8259A chips in the protocol
  of their data sheet, is the instance on which the initialisation, the masks and the
  end-of-interrupt commands are judged.
\<close>

section \<open>Ports\<close>

record 'd bus =
  port_in :: "u16 \<Rightarrow> 'd \<Rightarrow> u8 \<times> 'd"
  port_out :: "u16 \<Rightarrow> u8 \<Rightarrow> 'd \<Rightarrow> 'd"

definition inb :: "'d bus \<Rightarrow> u16 \<Rightarrow> 'd \<Rightarrow> u8 \<times> 'd" where
  "inb bus port d = port_in bus port d"

definition outb :: "'d bus \<Rightarrow> u16 \<Rightarrow> u8 \<Rightarrow> 'd \<Rightarrow> 'd" where
  "outb bus port val d = port_out bus port val d"

section \<open>The interrupt controllers\<close>

definition master_pic_command :: u16 where "master_pic_command = 0x0020"
definition master_pic_data :: u16 where "master_pic_data = 0x0021"
definition slave_pic_command :: u16 where "slave_pic_command = 0x00A0"
definition slave_pic_data :: u16 where "slave_pic_data = 0x00A1"
definition PIC_EOI :: u8 where "PIC_EOI = 0x20"
definition pic_icw4_needed :: u8 where "pic_icw4_needed = 0x1"
definition pic_ICW1_use :: u8 where "pic_ICW1_use = 0x10"
definition pic_x86_mode :: u8 where "pic_x86_mode = 0x1"

definition io_wait :: "'d bus \<Rightarrow> 'd \<Rightarrow> 'd" where
  "io_wait bus d = outb bus 0x80 0 d"

text \<open>\<open>1 << irq_line\<close> is an \<open>int\<close>; a value it cannot hold is undefined. The result is cut to 8 bits.\<close>

definition irq_port :: "u8 \<Rightarrow> u16 \<times> u8" where
  "irq_port irq_line = (if irq_line < 8 then (master_pic_data, irq_line) else (slave_pic_data, irq_line - 8))"

definition shift_one :: "u8 \<Rightarrow> u8 out" where
  "shift_one n = (if int32_ok (2 ^ unat n) then ret (push_bit (unat n) 1) else fail Undefined_behaviour)"

definition irq_set_mask :: "'d bus \<Rightarrow> u8 \<Rightarrow> 'd \<Rightarrow> 'd out" where
  "irq_set_mask bus irq_line d =
     (let (port, line) = irq_port irq_line; (v, d1) = inb bus port d
      in obind (shift_one line) (\<lambda>b. ret (outb bus port (v OR b) d1)))"

definition irq_clear_mask :: "'d bus \<Rightarrow> u8 \<Rightarrow> 'd \<Rightarrow> 'd out" where
  "irq_clear_mask bus irq_line d =
     (let (port, line) = irq_port irq_line; (v, d1) = inb bus port d
      in obind (shift_one line) (\<lambda>b. ret (outb bus port (v AND NOT b) d1)))"

definition out_wait :: "'d bus \<Rightarrow> u16 \<Rightarrow> u8 \<Rightarrow> 'd \<Rightarrow> 'd" where
  "out_wait bus port val d = io_wait bus (outb bus port val d)"

definition pic_init :: "'d bus \<Rightarrow> u8 \<Rightarrow> u8 \<Rightarrow> 'd \<Rightarrow> 'd" where
  "pic_init bus master_remap_offset slave_remap_offset d =
     (let (master_mask, d) = inb bus master_pic_data d;
          (slave_mask, d) = inb bus slave_pic_data d;
          d = out_wait bus master_pic_command (pic_ICW1_use + pic_icw4_needed) d;
          d = out_wait bus slave_pic_command (pic_ICW1_use + pic_icw4_needed) d;
          d = out_wait bus master_pic_data master_remap_offset d;
          d = out_wait bus slave_pic_data slave_remap_offset d;
          d = out_wait bus master_pic_data 4 d;
          d = out_wait bus slave_pic_data 2 d;
          d = out_wait bus master_pic_data pic_x86_mode d;
          d = out_wait bus slave_pic_data pic_x86_mode d;
          d = outb bus master_pic_data master_mask d
      in outb bus slave_pic_data slave_mask d)"

definition pic_write_EOI :: "'d bus \<Rightarrow> u8 \<Rightarrow> 'd \<Rightarrow> 'd" where
  "pic_write_EOI bus irq d =
     (let d = (if irq > 8 then outb bus slave_pic_command PIC_EOI d else d)
      in outb bus master_pic_command PIC_EOI d)"

text \<open>The devices and the interrupt flag, which \<open>sti\<close> sets.\<close>

definition pic_start_interrupts :: "'d \<times> bool \<Rightarrow> 'd \<times> bool" where
  "pic_start_interrupts = (\<lambda>(d, interrupts). (d, True))"

definition pic_enable_interrupts :: "'d bus \<Rightarrow> 'd \<times> bool \<Rightarrow> ('d \<times> bool) out" where
  "pic_enable_interrupts bus s =
     (let (d, interrupts) = pic_start_interrupts s;
          d = outb bus 0x64 0x60 d;
          d = outb bus 0x60 0x1 d
      in obind (irq_clear_mask bus 1 d) (\<lambda>d'. ret (d', interrupts)))"

definition pic_disable_interrupts :: "'s \<Rightarrow> 's" where
  "pic_disable_interrupts s = s"

section \<open>The timer\<close>

definition pit_channel0_data_port :: u16 where "pit_channel0_data_port = 0x40"
definition pit_command_register_port :: u16 where "pit_command_register_port = 0x43"

definition pit_read_cmd_word :: "'d bus \<Rightarrow> 'd \<Rightarrow> u8 \<times> 'd" where
  "pit_read_cmd_word bus d = inb bus pit_command_register_port d"

definition pit_write_cmd_word :: "'d bus \<Rightarrow> u16 \<Rightarrow> u16 \<Rightarrow> 'd \<Rightarrow> 'd" where
  "pit_write_cmd_word bus port word d =
     outb bus port (ucast (drop_bit 8 (word AND 0xf0))) (outb bus port (ucast (word AND 0xf)) d)"

definition pit_write_cmd_byte :: "'d bus \<Rightarrow> u16 \<Rightarrow> u8 \<Rightarrow> 'd \<Rightarrow> 'd" where
  "pit_write_cmd_byte bus port byte d = outb bus port byte d"

definition pit_set_pit0_freq :: "'d bus \<Rightarrow> u16 \<Rightarrow> 'd \<Rightarrow> 'd" where
  "pit_set_pit0_freq bus new_divider d = pit_write_cmd_word bus pit_channel0_data_port new_divider d"

section \<open>The 8259A\<close>

text \<open>
  The chip as its data sheet describes it: a command with bit 4 starts the initialisation,
  the next two or three bytes on the data port are the vector base, the cascade wiring (unless
  the chip is single) and, if asked for, the mode; afterwards the data port is the mask
  register and the command 0x20 ends the lowest-numbered interrupt in service.
\<close>

datatype pic_phase = Ready | Want_base | Want_cascade | Want_mode

record pic8259 =
  phase :: pic_phase
  single :: bool
  want4 :: bool
  vector_base :: u8
  cascade :: u8
  mode :: u8
  mask_reg :: u8
  in_service :: u8

definition end_of_interrupt :: "u8 \<Rightarrow> u8" where
  "end_of_interrupt s = (case find (bit s) [0..<8] of Some n \<Rightarrow> unset_bit n s | None \<Rightarrow> s)"

definition chip_command :: "u8 \<Rightarrow> pic8259 \<Rightarrow> pic8259" where
  "chip_command v c =
     (if bit v 4 then c\<lparr>phase := Want_base, single := bit v 1, want4 := bit v 0, mask_reg := 0, in_service := 0\<rparr>
      else if v = 0x20 then c\<lparr>in_service := end_of_interrupt (in_service c)\<rparr> else c)"

definition chip_data :: "u8 \<Rightarrow> pic8259 \<Rightarrow> pic8259" where
  "chip_data v c =
     (case phase c of
        Ready \<Rightarrow> c\<lparr>mask_reg := v\<rparr>
      | Want_base \<Rightarrow> c\<lparr>vector_base := v AND 0xF8,
          phase := (if \<not> single c then Want_cascade else if want4 c then Want_mode else Ready)\<rparr>
      | Want_cascade \<Rightarrow> c\<lparr>cascade := v, phase := (if want4 c then Want_mode else Ready)\<rparr>
      | Want_mode \<Rightarrow> c\<lparr>mode := v, phase := Ready\<rparr>)"

text \<open>The devices of a PC: the two chips, the bytes the keyboard will deliver, and all other writes.\<close>

record pc =
  master :: pic8259
  slave :: pic8259
  keys :: "u8 list"
  writes :: "(u16 \<times> u8) list"

definition pc_in :: "u16 \<Rightarrow> pc \<Rightarrow> u8 \<times> pc" where
  "pc_in port d =
     (if port = 0x21 then (mask_reg (master d), d)
      else if port = 0xA1 then (mask_reg (slave d), d)
      else if port = 0x60 then (case keys d of [] \<Rightarrow> (0, d) | k # ks \<Rightarrow> (k, d\<lparr>keys := ks\<rparr>))
      else (0xFF, d))"

definition pc_out :: "u16 \<Rightarrow> u8 \<Rightarrow> pc \<Rightarrow> pc" where
  "pc_out port v d =
     (if port = 0x20 then d\<lparr>master := chip_command v (master d)\<rparr>
      else if port = 0x21 then d\<lparr>master := chip_data v (master d)\<rparr>
      else if port = 0xA0 then d\<lparr>slave := chip_command v (slave d)\<rparr>
      else if port = 0xA1 then d\<lparr>slave := chip_data v (slave d)\<rparr>
      else d\<lparr>writes := writes d @ [(port, v)]\<rparr>)"

definition pc_bus :: "pc bus" where
  "pc_bus = \<lparr>port_in = pc_in, port_out = pc_out\<rparr>"

lemmas pc_simps = pc_bus_def pc_in_def pc_out_def inb_def outb_def io_wait_def out_wait_def
  master_pic_command_def master_pic_data_def slave_pic_command_def slave_pic_data_def
  PIC_EOI_def pic_icw4_needed_def pic_ICW1_use_def pic_x86_mode_def

section \<open>Mask registers\<close>

text \<open>
  What the mask functions rely on: a data port that reads and writes a mask. Setting and
  clearing the mask of a line then changes one bit.
\<close>

lemma shift_one_ret: "unat n < 8 \<Longrightarrow> shift_one n = ret (push_bit (unat n) 1)"
proof -
  assume "unat n < 8"
  then have "(2 :: int) ^ unat n < 2 ^ 31" by (intro power_strict_increasing) simp_all
  moreover have "- (2 ^ 31) \<le> (0 :: int)" by simp
  then have "- (2 ^ 31) \<le> (2 :: int) ^ unat n" by (rule order_trans) simp
  ultimately show ?thesis unfolding shift_one_def int32_ok_def by simp
qed

lemma bit_one_at: "n < 8 \<Longrightarrow> bit (2 ^ n :: u8) i \<longleftrightarrow> i = n"
  by (auto simp: bit_simps)

locale mask_register =
  fixes bus :: "'d bus" and port :: u16 and ready :: "'d \<Rightarrow> bool" and mask_of :: "'d \<Rightarrow> u8" and line :: "u8 \<Rightarrow> u8"
  assumes loads: "ready d \<Longrightarrow> inb bus port d = (mask_of d, d)"
    and stores: "ready d \<Longrightarrow> ready (outb bus port v d) \<and> mask_of (outb bus port v d) = v"
    and lines: "line n < 8 \<Longrightarrow> irq_port n = (port, line n)"
begin

lemma set_mask:
  assumes "ready d" "line n < 8"
  shows "\<exists>d'. irq_set_mask bus n d = ret d' \<and> ready d' \<and> d' = outb bus port (mask_of d') d \<and>
    (\<forall>i < 8. bit (mask_of d') i \<longleftrightarrow> i = unat (line n) \<or> bit (mask_of d) i)"
proof -
  have n: "unat (line n) < 8" using assms(2) by (simp add: word_less_nat_alt)
  note shift_one_ret [OF n]
  then have "irq_set_mask bus n d = ret (outb bus port (mask_of d OR push_bit (unat (line n)) 1) d)"
    using loads [OF assms(1)] lines [OF assms(2)] by (simp add: irq_set_mask_def)
  then show ?thesis
    using stores [OF assms(1)] n by (auto simp: bit_or_iff bit_one_at)
qed

lemma clear_mask:
  assumes "ready d" "line n < 8"
  shows "\<exists>d'. irq_clear_mask bus n d = ret d' \<and> ready d' \<and> d' = outb bus port (mask_of d') d \<and>
    (\<forall>i < 8. bit (mask_of d') i \<longleftrightarrow> i \<noteq> unat (line n) \<and> bit (mask_of d) i)"
proof -
  have n: "unat (line n) < 8" using assms(2) by (simp add: word_less_nat_alt)
  note shift_one_ret [OF n]
  then have "irq_clear_mask bus n d = ret (outb bus port (mask_of d AND NOT (push_bit (unat (line n)) 1)) d)"
    using loads [OF assms(1)] lines [OF assms(2)] by (simp add: irq_clear_mask_def)
  then show ?thesis
    using stores [OF assms(1)] n by (auto simp: bit_and_iff bit_not_iff bit_one_at)
qed

end

interpretation master: mask_register pc_bus "0x21" "\<lambda>d. phase (master d) = Ready" "\<lambda>d. mask_reg (master d)" "\<lambda>n. n"
  by unfold_locales (auto simp: pc_simps chip_data_def irq_port_def)

interpretation slave: mask_register pc_bus "0xA1" "\<lambda>d. phase (slave d) = Ready" "\<lambda>d. mask_reg (slave d)"
    "\<lambda>n. if n < 8 then 8 else n - 8"
  by unfold_locales (auto simp: pc_simps chip_data_def irq_port_def split: if_splits)


section \<open>Initialisation\<close>

lemma chip_of_out:
  "master (outb pc_bus 0x21 v d) = chip_data v (master d)" "master (outb pc_bus 0xA1 v d) = master d"
  "slave (outb pc_bus 0xA1 v d) = chip_data v (slave d)" "slave (outb pc_bus 0x21 v d) = slave d"
  "master (outb pc_bus 0x20 v d) = chip_command v (master d)" "master (outb pc_bus 0xA0 v d) = master d"
  "slave (outb pc_bus 0xA0 v d) = chip_command v (slave d)" "slave (outb pc_bus 0x20 v d) = slave d"
  "master (io_wait pc_bus d) = master d" "slave (io_wait pc_bus d) = slave d"
  by (simp_all add: pc_simps)

text \<open>The bytes a chip receives from \<open>pic_init\<close>, and their effect.\<close>

definition chip_init :: "u8 \<Rightarrow> u8 \<Rightarrow> u8 \<Rightarrow> pic8259 \<Rightarrow> pic8259" where
  "chip_init base wiring old_mask c =
     chip_data old_mask (chip_data 1 (chip_data wiring (chip_data base (chip_command 0x11 c))))"

lemma chip_init_effect: "chip_init base wiring old_mask c =
    c\<lparr>phase := Ready, single := False, want4 := True, vector_base := base AND 0xF8, cascade := wiring, mode := 1,
      mask_reg := old_mask, in_service := 0\<rparr>"
proof -
  have "chip_command 0x11 c = c\<lparr>phase := Want_base, single := False, want4 := True, mask_reg := 0, in_service := 0\<rparr>"
    by (simp add: chip_command_def)
  then show ?thesis by (simp add: chip_init_def chip_data_def)
qed

lemma pic_init_chips:
  "master (pic_init pc_bus m s d) = chip_init m 4 (mask_reg (master d)) (master d)"
  "slave (pic_init pc_bus m s d) = chip_init s 2 (mask_reg (slave d)) (slave d)"
proof -
  have "inb pc_bus master_pic_data d = (mask_reg (master d), d)" "inb pc_bus slave_pic_data d = (mask_reg (slave d), d)"
    by (simp_all add: pc_simps)
  then have "pic_init pc_bus m s d =
    (let d = out_wait pc_bus 0x20 0x11 d; d = out_wait pc_bus 0xA0 0x11 d; d = out_wait pc_bus 0x21 m d;
         d = out_wait pc_bus 0xA1 s d; d = out_wait pc_bus 0x21 4 d; d = out_wait pc_bus 0xA1 2 d;
         d = out_wait pc_bus 0x21 1 d; d = out_wait pc_bus 0xA1 1 d
     in outb pc_bus 0xA1 (mask_reg (slave d0)) (outb pc_bus 0x21 (mask_reg (master d0)) d))" if "d0 = d" for d0
    using that unfolding pic_init_def Let_def by (simp add: master_pic_command_def master_pic_data_def
        slave_pic_command_def slave_pic_data_def pic_icw4_needed_def pic_ICW1_use_def pic_x86_mode_def)
  from this [of d] show
    "master (pic_init pc_bus m s d) = chip_init m 4 (mask_reg (master d)) (master d)"
    "slave (pic_init pc_bus m s d) = chip_init s 2 (mask_reg (slave d)) (slave d)"
    by (simp_all only: refl simp_thms Let_def out_wait_def chip_of_out chip_init_def)
qed

section \<open>Properties\<close>

text \<open>C23. Whatever state the two interrupt controllers are in, \<open>pic_init\<close> leaves both initialised: their
  interrupts start at the given vectors (multiples of eight), the slave hangs on line 2 of the
  master, both run in 8086 mode, nothing is in service and their masks are what they were.\<close>

theorem pic_init_remaps:
  assumes "m AND 0xF8 = m" "s AND 0xF8 = s"
  shows "let c = master (pic_init pc_bus m s d); c' = slave (pic_init pc_bus m s d)
    in phase c = Ready \<and> phase c' = Ready \<and> vector_base c = m \<and> vector_base c' = s \<and>
       cascade c = 4 \<and> cascade c' = 2 \<and> mode c = 1 \<and> mode c' = 1 \<and> in_service c = 0 \<and> in_service c' = 0 \<and>
       mask_reg c = mask_reg (master d) \<and> mask_reg c' = mask_reg (slave d)"
  using assms by (simp add: pic_init_chips chip_init_effect Let_def)

definition power_on :: pc where
  "power_on = (let c = \<lparr>phase = Want_mode, single = True, want4 = False, vector_base = 8, cascade = 0, mode = 0,
       mask_reg = 0xFB, in_service = 1\<rparr>
     in \<lparr>master = c, slave = c, keys = [], writes = []\<rparr>)"

theorem pic_init_remaps_witness:
  "vector_base (master (pic_init pc_bus 0x20 0x28 power_on)) = 0x20 \<and>
   vector_base (slave (pic_init pc_bus 0x20 0x28 power_on)) = 0x28 \<and> mask_reg (master (pic_init pc_bus 0x20 0x28 power_on)) = 0xFB"
  using pic_init_remaps [of "0x20" "0x28" power_on] by (simp add: Let_def power_on_def)

text \<open>C38. On initialised controllers, masking a line and unmasking it again returns and leaves every other
  line of both chips as it was, the line itself enabled.\<close>

theorem mask_unmask:
  assumes "phase (master d) = Ready" "phase (slave d) = Ready" "n < 16"
  shows "\<exists>d1 d2. irq_set_mask pc_bus n d = ret d1 \<and> irq_clear_mask pc_bus n d1 = ret d2 \<and>
    (\<forall>i < 8. bit (mask_reg (master d1)) i \<longleftrightarrow> i = unat n \<or> bit (mask_reg (master d)) i) \<and>
    (\<forall>i < 8. bit (mask_reg (slave d1)) i \<longleftrightarrow> i + 8 = unat n \<or> bit (mask_reg (slave d)) i) \<and>
    (\<forall>i < 8. bit (mask_reg (master d2)) i \<longleftrightarrow> i \<noteq> unat n \<and> bit (mask_reg (master d)) i) \<and>
    (\<forall>i < 8. bit (mask_reg (slave d2)) i \<longleftrightarrow> i + 8 \<noteq> unat n \<and> bit (mask_reg (slave d)) i)"
proof (cases "n < 8")
  case True
  then have n: "unat n < 8" by (simp add: word_less_nat_alt)
  obtain d1 where d1: "irq_set_mask pc_bus n d = ret d1" "phase (master d1) = Ready" "d1 = outb pc_bus 0x21 (mask_reg (master d1)) d"
    "\<forall>i < 8. bit (mask_reg (master d1)) i \<longleftrightarrow> i = unat n \<or> bit (mask_reg (master d)) i"
    using master.set_mask [OF assms(1) True] by blast
  obtain d2 where d2: "irq_clear_mask pc_bus n d1 = ret d2" "d2 = outb pc_bus 0x21 (mask_reg (master d2)) d1"
    "\<forall>i < 8. bit (mask_reg (master d2)) i \<longleftrightarrow> i \<noteq> unat n \<and> bit (mask_reg (master d1)) i"
    using master.clear_mask [OF d1(2) True] by blast
  have "slave (outb pc_bus 0x21 v e) = slave e" for v e by (simp add: pc_simps)
  then have "slave d1 = slave d" "slave d2 = slave d" using d1(3) d2(2) by metis+
  then show ?thesis using d1(1,4) d2(1,3) n by auto
next
  case False
  define l where "l = n - 8"
  have n: "unat n = unat l + 8" "unat l < 8"
    using False assms(3) by (simp_all add: l_def unat_sub word_le_nat_alt word_less_nat_alt not_less)
  have l: "(if n < 8 then 8 else n - 8) < (8 :: u8)" "(if n < 8 then 8 else n - 8) = l"
    using False n(2) by (simp_all add: l_def word_less_nat_alt)
  obtain d1 where d1: "irq_set_mask pc_bus n d = ret d1" "phase (slave d1) = Ready" "d1 = outb pc_bus 0xA1 (mask_reg (slave d1)) d"
    "\<forall>i < 8. bit (mask_reg (slave d1)) i \<longleftrightarrow> i = unat l \<or> bit (mask_reg (slave d)) i"
    using slave.set_mask [OF assms(2) l(1)] unfolding l(2) by blast
  obtain d2 where d2: "irq_clear_mask pc_bus n d1 = ret d2" "d2 = outb pc_bus 0xA1 (mask_reg (slave d2)) d1"
    "\<forall>i < 8. bit (mask_reg (slave d2)) i \<longleftrightarrow> i \<noteq> unat l \<and> bit (mask_reg (slave d1)) i"
    using slave.clear_mask [OF d1(2) l(1)] unfolding l(2) by blast
  have "master (outb pc_bus 0xA1 v e) = master e" for v e by (simp add: pc_simps)
  then have "master d1 = master d" "master d2 = master d" using d1(3) d2(2) by metis+
  then show ?thesis using d1(1,4) d2(1,3) n by auto
qed

theorem mask_unmask_witness:
  "let d = pic_init pc_bus 0x20 0x28 power_on
   in \<exists>d1 d2. irq_set_mask pc_bus 9 d = ret d1 \<and> irq_clear_mask pc_bus 9 d1 = ret d2 \<and>
     bit (mask_reg (slave d1)) 1 \<and> \<not> bit (mask_reg (slave d2)) 1"
proof -
  have "phase (master (pic_init pc_bus 0x20 0x28 power_on)) = Ready" "phase (slave (pic_init pc_bus 0x20 0x28 power_on)) = Ready"
    by (simp_all add: pic_init_chips chip_init_effect)
  then show ?thesis using mask_unmask [of "pic_init pc_bus 0x20 0x28 power_on" 9] by (fastforce simp: Let_def)
qed

text \<open>The two bytes \<open>pit_set_pit0_freq\<close> sends to the timer hold the divider modulo 16: the low byte is
  cut to its low half and the high byte is always zero.\<close>

theorem pit_divider_truncated:
  "\<exists>lo hi. writes (pit_set_pit0_freq pc_bus n d) = writes d @ [(0x40, lo), (0x40, hi)] \<and>
     unat lo + 256 * unat hi = unat n mod 16"
proof -
  have "drop_bit 8 (n AND 0xf0) = 0" by (rule bit_word_eqI) (auto simp: bit_drop_bit_eq bit_and_iff bit_numeral_rec)
  moreover have "n AND 0xf = n mod 16"
    using take_bit_eq_mask [of 4 n] by (simp add: take_bit_eq_mod mask_eq_exp_minus_1)
  moreover have "unat (ucast (n mod 16) :: u8) = unat n mod 16" by (simp add: unsigned_ucast_eq take_bit_eq_mod unat_mod)
  ultimately show ?thesis
    by (simp add: pit_set_pit0_freq_def pit_write_cmd_word_def pit_channel0_data_port_def pc_simps)
qed

end
