(* ===== verification/Interrupts.thy ===== *)
theory Interrupts
  imports Ports Printf
begin

text \<open>
  Interrupt dispatch: the descriptor structure of src/interrupts.c and src/interrupts.h, and the
  tables the kernel really runs on, which \<open>asm_add_interrupt_handler\<close> and the set-up code of
  src/arch/x86_64/boot64.s fill: 256 handler addresses, directly followed by the 256 gates the
  processor reads. The lemmas show which routine an interrupt reaches.
\<close>

section \<open>The descriptor structure\<close>

definition IDT_ENTRY_COUNT :: nat where "IDT_ENTRY_COUNT = 256"

record interrupt_description_table_entry =
  low_offset :: u16
  segement_selector :: u32
  idt_entry_flags :: u32
  mid_offset :: u16
  high_offset :: u32
  idt_entry_reserved :: u32

text \<open>The masks as the compiler reads them: \<open>+\<close> binds tighter than \<open><<\<close>.\<close>

definition idt_ist_mask :: u32 where "idt_ist_mask = 0x7"
definition idt_dpl :: u32 where "idt_dpl = push_bit 14 (push_bit (13 + 1) 1)"
definition idt_present :: u32 where "idt_present = push_bit 15 1"

text \<open>\<open>high_offset << 32\<close> shifts a 32-bit value by its width.\<close>

definition get_handler_address :: "interrupt_description_table_entry \<Rightarrow> u64 out" where
  "get_handler_address table = fail Undefined_behaviour"

definition set_handler_address ::
  "interrupt_description_table_entry \<Rightarrow> u64 \<Rightarrow> interrupt_description_table_entry" where
  "set_handler_address table addr =
     table\<lparr>low_offset := ucast (addr AND 0xffff), mid_offset := ucast (drop_bit 16 addr AND 0xffff),
       high_offset := ucast (drop_bit 32 addr)\<rparr>"

text \<open>Packed, the structure has 20 bytes.\<close>

definition ld16 :: "mem \<Rightarrow> u64 \<Rightarrow> u16" where
  "ld16 m a = of_nat (ld_le 2 m a)"

definition idt_entry_at :: "mem \<Rightarrow> u64 \<Rightarrow> nat \<Rightarrow> interrupt_description_table_entry" where
  "idt_entry_at m idt i =
     (let a = idt + 20 * of_nat i
      in \<lparr>low_offset = ld16 m a, segement_selector = ld32 m (a + 2), idt_entry_flags = ld32 m (a + 6),
          mid_offset = ld16 m (a + 10), high_offset = ld32 m (a + 12), idt_entry_reserved = ld32 m (a + 16)\<rparr>)"

definition interrupt_print :: "mem \<Rightarrow> u64 \<Rightarrow> terminal \<Rightarrow> terminal out" where
  "interrupt_print m idt =
     foldM (\<lambda>i t.
       let table = idt_entry_at m idt i
       in obind (terminal_printf m (''Flags: '' @ [newline]) [] t) (\<lambda>t.
          obind (terminal_printf m (''Segment selector: %d'' @ [newline]) [ucast (segement_selector table)] t) (\<lambda>t.
          obind (get_handler_address table) (\<lambda>a.
            terminal_printf m (''Handler address: %#zX'' @ [newline]) [a] t)))) [0..<IDT_ENTRY_COUNT]"

definition set_idt :: "u64 \<Rightarrow> u64 \<Rightarrow> u64" where
  "set_idt addr idt = addr"

section \<open>The tables of the kernel\<close>

text \<open>Where the linker put the tables and the code: the base of the table of functions, and the shims.\<close>

record layout =
  interrupt_functions :: u64
  shim_addr :: "nat \<Rightarrow> u64"

definition interrupt_vectors :: "layout \<Rightarrow> u64" where
  "interrupt_vectors lk = interrupt_functions lk + 256 * 8"

text \<open>The code computes the slot as a 32-bit product of a 16-bit number, which cannot wrap: here it is one of 64 bits.\<close>

definition add_interrupt_handler :: "layout \<Rightarrow> u16 \<Rightarrow> u64 \<Rightarrow> mem \<Rightarrow> mem" where
  "add_interrupt_handler lk interrupt handler m = st64 m (interrupt_functions lk + ucast interrupt * 8) handler"

text \<open>\<open>create_interrupt\<close>: an interrupt gate (0x8e00) in code segment 8, stored here as its two
  64-bit halves, where the code stores the same sixteen bytes as words and doublewords.\<close>

definition gate_low :: "u64 \<Rightarrow> u64" where
  "gate_low a = take_bit 16 a OR push_bit 16 8 OR push_bit 32 0x8e00 OR push_bit 48 (take_bit 16 (drop_bit 16 a))"

definition create_interrupt :: "layout \<Rightarrow> u64 \<Rightarrow> nat \<Rightarrow> mem \<Rightarrow> mem" where
  "create_interrupt lk a v m =
     (let g = interrupt_vectors lk + of_nat v * 16
      in st64 (st64 m g (gate_low a)) (g + 8) (drop_bit 32 a))"

definition setup_interrupt_handlers :: "layout \<Rightarrow> u64 \<Rightarrow> u64 \<Rightarrow> mem \<Rightarrow> mem" where
  "setup_interrupt_handlers lk i_ok i_ok_timer =
     fold (\<lambda>v m. create_interrupt lk (shim_addr lk v) v
             (st64 m (of_nat v * 8 + interrupt_functions lk) (if v = 0x20 then i_ok_timer else i_ok))) [0..<256]"

text \<open>The address the processor takes from a gate, and the routine the shim of a vector calls.\<close>

definition gate_target :: "mem \<Rightarrow> u64 \<Rightarrow> u64" where
  "gate_target m g =
     take_bit 16 (ld64 m g) OR push_bit 16 (drop_bit 48 (ld64 m g)) OR push_bit 32 (take_bit 32 (ld64 m (g + 8)))"

definition interrupt_target :: "layout \<Rightarrow> mem \<Rightarrow> nat \<Rightarrow> u64 option" where
  "interrupt_target lk m v =
     (if gate_target m (interrupt_vectors lk + of_nat v * 16) = shim_addr lk v
      then Some (ld64 m (interrupt_functions lk + of_nat v * 8)) else None)"

lemma gate_round_trip:
  "take_bit 16 (gate_low a) OR push_bit 16 (drop_bit 48 (gate_low a)) OR push_bit 32 (take_bit 32 (drop_bit 32 a)) = a"
proof (rule bit_word_eqI)
  fix n
  assume "n < LENGTH(64)"
  then show "bit (take_bit 16 (gate_low a) OR push_bit 16 (drop_bit 48 (gate_low a)) OR
      push_bit 32 (take_bit 32 (drop_bit 32 a))) n = bit a n"
    by (cases "n < 32") (auto simp: gate_low_def bit_simps)
qed

section \<open>The tables as an array of words\<close>

definition layout_ok :: "layout \<Rightarrow> bool" where
  "layout_ok lk \<longleftrightarrow> 8 dvd unat (interrupt_functions lk) \<and> unat (interrupt_functions lk) + 6144 \<le> 2 ^ 64"

definition slot :: "layout \<Rightarrow> nat \<Rightarrow> u64" where
  "slot lk k = interrupt_functions lk + of_nat k * 8"

lemma unat_table_slot: "layout_ok lk \<Longrightarrow> k < 768 \<Longrightarrow> unat (slot lk k) = unat (interrupt_functions lk) + 8 * k"
proof -
  assume ok: "layout_ok lk" "k < 768"
  then have "unat (of_nat k :: u64) = k" by (intro unat_of_nat64) simp
  then have "unat (of_nat k * 8 :: u64) = 8 * k" using ok(2) by (simp add: unat_word_ariths)
  then show ?thesis
    using ok unat_plus64 [of "interrupt_functions lk" "of_nat k * 8"] by (simp add: slot_def layout_ok_def)
qed

lemma slot_load [simp]:
  assumes "layout_ok lk" "j < 768" "k < 768"
  shows "ld64 (st64 m (slot lk j) x) (slot lk k) = (if j = k then x else ld64 m (slot lk k))"
proof -
  have "slot lk j = slot lk k \<longleftrightarrow> j = k" using assms unat_table_slot [OF assms(1)] by (metis add_left_cancel mult_left_cancel zero_neq_numeral)
  then show ?thesis
    using assms unat_table_slot [OF assms(1)] by (subst ld64_st64_aligned) (simp_all add: layout_ok_def)
qed

lemma table_slots:
  "interrupt_functions lk + of_nat v * 8 = slot lk v" "of_nat v * 8 + interrupt_functions lk = slot lk v"
  "interrupt_vectors lk + of_nat v * 16 = slot lk (256 + 2 * v)"
  "slot lk (256 + 2 * v) + 8 = slot lk (257 + 2 * v)"
  by (simp_all add: slot_def interrupt_vectors_def algebra_simps)

lemma target_slots:
  "interrupt_target lk m v = (if take_bit 16 (ld64 m (slot lk (256 + 2 * v))) OR
      push_bit 16 (drop_bit 48 (ld64 m (slot lk (256 + 2 * v)))) OR
      push_bit 32 (take_bit 32 (ld64 m (slot lk (257 + 2 * v)))) = shim_addr lk v
    then Some (ld64 m (slot lk v)) else None)"
  unfolding interrupt_target_def gate_target_def table_slots ..

lemma create_slots: "create_interrupt lk a v m =
    st64 (st64 m (slot lk (256 + 2 * v)) (gate_low a)) (slot lk (257 + 2 * v)) (drop_bit 32 a)"
  unfolding create_interrupt_def Let_def table_slots ..

lemma add_slot: "add_interrupt_handler lk i h m = st64 m (slot lk (unat i)) h"
proof -
  have "(ucast i :: u64) = of_nat (unat i)" by (simp add: unsigned_ucast_eq)
  then show ?thesis by (simp add: add_interrupt_handler_def slot_def)
qed

text \<open>After the set-up every vector reaches its shim, and the shim calls the default routine.\<close>

lemma setup_targets:
  assumes ok: "layout_ok lk" and v: "v < 256"
  shows "interrupt_target lk (setup_interrupt_handlers lk i_ok i_ok_timer m) v =
    Some (if v = 0x20 then i_ok_timer else i_ok)"
proof -
  let ?f = "\<lambda>v m. create_interrupt lk (shim_addr lk v) v (st64 m (of_nat v * 8 + interrupt_functions lk) (if v = 0x20 then i_ok_timer else i_ok))"
  have "\<forall>v < n. ld64 (fold ?f [0..<n] m) (slot lk v) = (if v = 0x20 then i_ok_timer else i_ok) \<and>
      ld64 (fold ?f [0..<n] m) (slot lk (256 + 2 * v)) = gate_low (shim_addr lk v) \<and>
      ld64 (fold ?f [0..<n] m) (slot lk (257 + 2 * v)) = drop_bit 32 (shim_addr lk v)" if "n \<le> 256" for n
    using that
  proof (induction n)
    case (Suc n)
    then have IH: "\<forall>v < n. ld64 (fold ?f [0..<n] m) (slot lk v) = (if v = 0x20 then i_ok_timer else i_ok) \<and>
      ld64 (fold ?f [0..<n] m) (slot lk (256 + 2 * v)) = gate_low (shim_addr lk v) \<and>
      ld64 (fold ?f [0..<n] m) (slot lk (257 + 2 * v)) = drop_bit 32 (shim_addr lk v)" by simp
    show ?case
      using IH Suc.prems ok by (auto simp: less_Suc_eq create_slots table_slots)
  qed simp
  then have "ld64 (setup_interrupt_handlers lk i_ok i_ok_timer m) (slot lk v) = (if v = 0x20 then i_ok_timer else i_ok)"
    "ld64 (setup_interrupt_handlers lk i_ok i_ok_timer m) (slot lk (256 + 2 * v)) = gate_low (shim_addr lk v)"
    "ld64 (setup_interrupt_handlers lk i_ok i_ok_timer m) (slot lk (257 + 2 * v)) = drop_bit 32 (shim_addr lk v)"
    using v unfolding setup_interrupt_handlers_def by blast+
  then show ?thesis by (simp add: target_slots gate_round_trip)
qed

text \<open>Installing a handler redirects its vector and no other.\<close>

lemma add_target:
  assumes "layout_ok lk" "unat i < 256" "v < 256"
  shows "interrupt_target lk (add_interrupt_handler lk i h m) v =
    (if v = unat i \<and> interrupt_target lk m v \<noteq> None then Some h else interrupt_target lk m v)"
  using assms by (auto simp: add_slot target_slots)

definition install :: "layout \<Rightarrow> (u16 \<times> u64) list \<Rightarrow> mem \<Rightarrow> mem" where
  "install lk hs = fold (\<lambda>(i, h). add_interrupt_handler lk i h) hs"

lemma install_targets:
  assumes "layout_ok lk" "\<forall>(i, h) \<in> set hs. unat i < 256" "v < 256" "interrupt_target lk m v = Some a"
  shows "interrupt_target lk (install lk hs m) v =
    (case map_of (rev hs) (of_nat v) of Some h \<Rightarrow> Some h | None \<Rightarrow> Some a)"
  using assms(2,4)
proof (induction hs arbitrary: m a)
  case (Cons x hs)
  obtain i h where x: "x = (i, h)" by (cases x)
  have "unat i = v \<longleftrightarrow> i = of_nat v"
    using assms(3) by (auto simp: word_unat_eq_iff unat_of_nat)
  then have "interrupt_target lk (add_interrupt_handler lk i h m) v = Some (if of_nat v = i then h else a)"
    using add_target [OF assms(1) _ assms(3), of i h m] Cons.prems x by auto
  then have "interrupt_target lk (install lk hs (add_interrupt_handler lk i h m)) v =
      (case map_of (rev hs) (of_nat v) of Some h' \<Rightarrow> Some h' | None \<Rightarrow> Some (if of_nat v = i then h else a))"
    using Cons.prems(1) by (intro Cons.IH) auto
  then show ?case using x by (simp add: install_def map_add_def split: option.splits)
qed (simp add: install_def)

section \<open>Returning from an interrupt\<close>

text \<open>
  The end of a shim: it sends an end-of-interrupt to the master and, if the routine returned
  a value other than zero, drops the error code from the stack before \<open>iretq\<close>.
\<close>

definition shim_return :: "'d bus \<Rightarrow> u32 \<Rightarrow> 'd \<times> u64 \<Rightarrow> 'd \<times> u64" where
  "shim_return bus eax = (\<lambda>(d, rsp). (outb bus 0x20 0x20 d, if eax = 0 then rsp else rsp + 8))"

text \<open>An initialised controller passes on a line that is not masked when no line up to it is in service.\<close>

definition chip_accept :: "nat \<Rightarrow> pic8259 \<Rightarrow> pic8259 option" where
  "chip_accept n c =
     (if phase c = Ready \<and> \<not> bit (mask_reg c) n \<and> list_all (\<lambda>k. \<not> bit (in_service c) k) [0..<Suc n]
      then Some (c\<lparr>in_service := set_bit n (in_service c)\<rparr>) else None)"

lemma find_first: "n < j \<Longrightarrow> P n \<Longrightarrow> \<forall>k < n. \<not> P k \<Longrightarrow> find P [0..<j] = Some n"
  by (auto simp: find_Some_iff intro!: exI [of _ n])

lemma accept_in_service: "bit (in_service c) n \<Longrightarrow> n \<le> k \<Longrightarrow> chip_accept k c = None"
  unfolding chip_accept_def list_all_iff by (cases "n = k") auto

lemma accept_end:
  assumes "chip_accept n c = Some c'" "n < 8"
  shows "chip_command 0x20 c' = c"
proof -
  have c: "c' = c\<lparr>in_service := set_bit n (in_service c)\<rparr>" "\<forall>k \<le> n. \<not> bit (in_service c) k"
    using assms(1) by (auto simp: chip_accept_def list_all_iff less_Suc_eq_le split: if_splits)
  let ?s = "set_bit n (in_service c)"
  have "find (bit ?s) [0..<8] = Some n"
    using c(2) assms(2) by (intro find_first) (auto simp: bit_set_bit_iff)
  moreover have "unset_bit n ?s = in_service c"
    using c(2) by (intro bit_word_eqI) (auto simp: bit_set_bit_iff bit_unset_bit_iff)
  moreover have "\<not> bit (0x20 :: u8) 4" by simp
  ultimately show ?thesis by (simp add: chip_command_def end_of_interrupt_def c(1))
qed

section \<open>The controllers at work\<close>

text \<open>An interrupt of the slave comes through line 2 of the master, and both have it in service.\<close>

definition slave_accept :: "nat \<Rightarrow> pc \<Rightarrow> pc option" where
  "slave_accept n d =
     (case chip_accept 2 (master d) of
        None \<Rightarrow> None
      | Some c \<Rightarrow> map_option (\<lambda>c'. d\<lparr>master := c, slave := c'\<rparr>) (chip_accept n (slave d)))"

text \<open>
  What happens to the devices once \<open>pic_init\<close> is done: interrupts of both chips, the ends of
  shims, and everything else the code can do to a device. \<open>pic_write_EOI\<close>, which nothing calls,
  is among it for the lines up to 8.
\<close>

inductive device_step :: "pc \<Rightarrow> pc \<Rightarrow> bool" where
  master_irq: "n < 8 \<Longrightarrow> chip_accept n (master d) = Some c \<Longrightarrow> device_step d (d\<lparr>master := c\<rparr>)"
| slave_irq: "n < 8 \<Longrightarrow> slave_accept n d = Some d' \<Longrightarrow> device_step d d'"
| shim_end: "device_step d (fst (shim_return pc_bus eax (d, rsp)))"
| set_line: "irq_set_mask pc_bus n d = ret d' \<Longrightarrow> device_step d d'"
| clear_line: "irq_clear_mask pc_bus n d = ret d' \<Longrightarrow> device_step d d'"
| enable: "pic_enable_interrupts pc_bus (d, i) = ret (d', j) \<Longrightarrow> device_step d d'"
| acknowledge: "irq \<le> 8 \<Longrightarrow> device_step d (pic_write_EOI pc_bus irq d)"
| timer: "device_step d (pit_set_pit0_freq pc_bus n d)"
| read_port: "device_step d (snd (inb pc_bus port d))"
| type_keys: "device_step d (d\<lparr>keys := ks\<rparr>)"

lemma slave_ports:
  "port \<noteq> 0xA0 \<Longrightarrow> in_service (slave (outb pc_bus port v d)) = in_service (slave d)"
  "slave (snd (inb pc_bus port d)) = slave d"
  by (auto simp: pc_simps chip_data_def split: pic_phase.splits list.splits)

lemma irq_mask_slave:
  assumes "irq_set_mask pc_bus n d = ret d' \<or> irq_clear_mask pc_bus n d = ret d'"
  shows "in_service (slave d') = in_service (slave d)"
proof -
  obtain port line where p: "irq_port n = (port, line)" "port \<noteq> 0xA0"
    by (cases "irq_port n") (auto simp: irq_port_def master_pic_data_def slave_pic_data_def split: if_splits)
  obtain v d1 where "inb pc_bus port d = (v, d1)" "slave d1 = slave d"
    using slave_ports(2) [of port d] by (cases "inb pc_bus port d") simp
  then show ?thesis
    using assms p slave_ports(1) [OF p(2)] by (auto simp: irq_set_mask_def irq_clear_mask_def obind_eq_ret)
qed

text \<open>Nothing takes an interrupt of the slave out of service.\<close>

lemma device_step_in_service:
  assumes "device_step d d'" "bit (in_service (slave d)) n"
  shows "bit (in_service (slave d')) n"
  using assms
proof (induction rule: device_step.induct)
  case (slave_irq k d d')
  then show ?case
    by (auto simp: slave_accept_def chip_accept_def bit_set_bit_iff dest: bit_imp_le_length split: option.splits if_splits)
next
  case (enable d i d' j)
  then show ?case
    using irq_mask_slave [of 1 "outb pc_bus 0x60 1 (outb pc_bus 0x64 0x60 d)" d']
    by (auto simp: pic_enable_interrupts_def pic_start_interrupts_def obind_eq_ret slave_ports)
next
  case (acknowledge irq d)
  then show ?case by (simp add: pic_write_EOI_def master_pic_command_def slave_ports)
next
  case (set_line k d d')
  then show ?case using irq_mask_slave [of k d d'] by simp
next
  case (clear_line k d d')
  then show ?case using irq_mask_slave [of k d d'] by simp
qed (auto simp: shim_return_def slave_ports pit_set_pit0_freq_def pit_write_cmd_word_def pit_channel0_data_port_def)

lemma device_steps_in_service:
  "rtranclp device_step d d' \<Longrightarrow> bit (in_service (slave d)) n \<Longrightarrow> bit (in_service (slave d')) n"
  by (induction rule: rtranclp_induct) (auto intro: device_step_in_service)

section \<open>Properties\<close>

text \<open>C34. The shims acknowledge interrupts at the master only. After a first interrupt of a line of the
  slave, whatever the devices and the kernel do later short of initialising the controllers anew
  (more interrupts, ends of shims, masks, the timer; of \<open>pic_write_EOI\<close>, which nothing calls, a call
  for a line up to 8), no interrupt of that line or a higher-numbered line of the slave is ever
  passed on again, while every interrupt of the master is acknowledged by the end of its shim.\<close>

theorem slave_interrupts_once:
  assumes "slave_accept n d = Some d1" "n < 8" "rtranclp device_step d1 d2"
  shows "(\<forall>k. n \<le> k \<longrightarrow> slave_accept k d2 = None) \<and>
    (\<forall>k < 8. \<forall>c. chip_accept k (master d2) = Some c \<longrightarrow>
       master (fst (shim_return pc_bus eax (d2\<lparr>master := c\<rparr>, rsp))) = master d2)"
proof (intro conjI allI impI)
  have "bit (in_service (slave d1)) n"
    using assms(1,2) by (auto simp: slave_accept_def chip_accept_def bit_set_bit_iff split: option.splits if_splits)
  then have "bit (in_service (slave d2)) n" by (rule device_steps_in_service [OF assms(3)])
  then show "slave_accept k d2 = None" if "n \<le> k" for k
    using accept_in_service [OF _ that] by (simp add: slave_accept_def split: option.split)
next
  fix k c assume "k < 8" "chip_accept k (master d2) = Some c"
  then show "master (fst (shim_return pc_bus eax (d2\<lparr>master := c\<rparr>, rsp))) = master d2"
    using accept_end by (simp add: shim_return_def chip_of_out)
qed

text \<open>The real-time clock, IRQ 8, on freshly initialised controllers with all lines of the slave open: its
  first interrupt is passed on, and after its shim and an end of interrupt for IRQ 8 no second one.\<close>

theorem slave_interrupts_once_witness:
  "let d = pic_init pc_bus 0x20 0x28 (power_on\<lparr>slave := (slave power_on)\<lparr>mask_reg := 0\<rparr>\<rparr>)
   in \<exists>d1. slave_accept 0 d = Some d1 \<and>
     slave_accept 0 (pic_write_EOI pc_bus 8 (fst (shim_return pc_bus 0 (d1, 0)))) = None"
proof -
  let ?d = "pic_init pc_bus 0x20 0x28 (power_on\<lparr>slave := (slave power_on)\<lparr>mask_reg := 0\<rparr>\<rparr>)"
  have "mask_reg (master ?d) = 0xFB" "\<not> bit (0xFB :: u8) 2"
    by (simp_all add: pic_init_chips chip_init_effect) (simp add: power_on_def Let_def)
  then have "\<exists>c. chip_accept 2 (master ?d) = Some c" "\<exists>c. chip_accept 0 (slave ?d) = Some c"
    by (simp_all add: chip_accept_def pic_init_chips chip_init_effect list_all_iff)
  then obtain d1 where d1: "slave_accept 0 ?d = Some d1" by (auto simp: slave_accept_def)
  have "rtranclp device_step d1 (pic_write_EOI pc_bus 8 (fst (shim_return pc_bus 0 (d1, 0))))"
    using shim_end [of d1 0 0] acknowledge [of 8 "fst (shim_return pc_bus 0 (d1, 0))"]
    by (meson order_refl r_into_rtranclp rtranclp.rtrancl_into_rtrancl)
  then show ?thesis using slave_interrupts_once [OF d1] d1 by (auto simp: Let_def)
qed

end
