(* ===== verification/Exceptions.thy ===== *)
theory Exceptions
  imports Interrupts
begin

text \<open>
  Exceptions (src/exceptions.c): the exception numbers, the handlers with what they print from
  the frame the processor pushed, and their installation. A handler either returns a value to
  its shim or stops at a \<open>hlt\<close>: the gates are interrupt gates, so interrupts are off there.
  The way of an exception is modelled from the words the processor pushes through the shim
  (src/arch/x86_64/boot64.s) to the handler and back to the interrupted instruction.
\<close>

section \<open>Numbers and names\<close>

datatype exception_id =
    ex_divide_by_zero | ex_debug | ex_breakpont | ex_overflow | ex_bound_range_exceeded
  | ex_invalid_opcode | ex_device_not_available | ex_double_fault | ex_coprocessor_segement_overrun
  | ex_invalid_tss | ex_segement_not_present | ex_stack_segement_fault | ex_general_protection_fault
  | ex_page_fault | ex_x87_fpu_exception | ex_alignment_check | ex_machine_check | ex_simd_fp | ex_vx
  | ex_security

primrec ex_code :: "exception_id \<Rightarrow> u16" where
  "ex_code ex_divide_by_zero = 0"
| "ex_code ex_debug = 1"
| "ex_code ex_breakpont = 3"
| "ex_code ex_overflow = 4"
| "ex_code ex_bound_range_exceeded = 5"
| "ex_code ex_invalid_opcode = 6"
| "ex_code ex_device_not_available = 7"
| "ex_code ex_double_fault = 8"
| "ex_code ex_coprocessor_segement_overrun = 9"
| "ex_code ex_invalid_tss = 0xa"
| "ex_code ex_segement_not_present = 0xb"
| "ex_code ex_stack_segement_fault = 0xc"
| "ex_code ex_general_protection_fault = 0xd"
| "ex_code ex_page_fault = 0xe"
| "ex_code ex_x87_fpu_exception = 0x10"
| "ex_code ex_alignment_check = 0x11"
| "ex_code ex_machine_check = 0x12"
| "ex_code ex_simd_fp = 0x13"
| "ex_code ex_vx = 0x14"
| "ex_code ex_security = 0x1e"

lemma ex_code_inject [simp]: "ex_code i = ex_code j \<longleftrightarrow> i = j"
  by (cases i; cases j; simp)

text \<open>Exceptions are ordered by number.\<close>

instantiation exception_id :: linorder
begin

definition less_eq_exception_id :: "exception_id \<Rightarrow> exception_id \<Rightarrow> bool" where
  "less_eq_exception_id i j \<longleftrightarrow> ex_code i \<le> ex_code j"

definition less_exception_id :: "exception_id \<Rightarrow> exception_id \<Rightarrow> bool" where
  "less_exception_id i j \<longleftrightarrow> ex_code i < ex_code j"

instance
  by standard (auto simp: less_eq_exception_id_def less_exception_id_def less_le)

end

text \<open>The names have no entries for the reserved numbers, so they are out of step above 14.\<close>

definition exception_id_strings :: "string list" where
  "exception_id_strings =
    [''divide_by_zero'', ''debug'', ''--pic--'', ''breakpont'', ''overflow'', ''bound_range_exceeded'',
     ''invalid_opcode'', ''device_not_available'', ''double_fault'', ''coprocessor_segement_overrun'',
     ''invalid_tss'', ''segement_not_present'', ''stack_segement_fault'', ''general_protection_fault'',
     ''page_fault'', ''x87_fpu_exception'', ''alignment_check'', ''machine_check'', ''simd_fp'', ''vx'']"

definition id_string :: "exception_id \<Rightarrow> string out" where
  "id_string i =
     (if unat (ex_code i) < length exception_id_strings then ret (exception_id_strings ! unat (ex_code i))
      else fail Out_of_bounds)"

section \<open>The handlers\<close>

record exception_info =
  instruction_ptr :: u64
  code_segement :: u64
  eflags :: u64
  stack_ptr :: u64
  stack_segement :: u64

record exception_info_with_error = exception_info +
  error_code :: u64

text \<open>The structures at the address a shim passes in \<open>rdi\<close>, the top of the processor's frame.\<close>

definition exception_info_at :: "mem \<Rightarrow> u64 \<Rightarrow> exception_info" where
  "exception_info_at m p =
     \<lparr>instruction_ptr = ld64 m p, code_segement = ld64 m (p + 8), eflags = ld64 m (p + 16),
      stack_ptr = ld64 m (p + 24), stack_segement = ld64 m (p + 32)\<rparr>"

definition exception_info_with_error_at :: "mem \<Rightarrow> u64 \<Rightarrow> exception_info_with_error" where
  "exception_info_with_error_at m p =
     \<lparr>instruction_ptr = ld64 m (p + 8), code_segement = ld64 m (p + 16), eflags = ld64 m (p + 24),
      stack_ptr = ld64 m (p + 32), stack_segement = ld64 m (p + 40), error_code = ld64 m p\<rparr>"

datatype after_handler = Returns u32 | Halts

type_synonym handler = "mem \<Rightarrow> u64 \<Rightarrow> terminal \<Rightarrow> (after_handler \<times> terminal) out"

text \<open>The three messages the printing handlers start with.\<close>

definition report :: "mem \<Rightarrow> exception_id \<Rightarrow> 'a exception_info_scheme \<Rightarrow> terminal \<Rightarrow> terminal out" where
  "report m i info t =
     obind (id_string i) (\<lambda>name.
     obind (terminal_printf m name [] t) (\<lambda>t.
     obind (terminal_printf m (''iptr: %#zX '' @ [CHR 0x09] @ '' code_seg: %#zX '' @ [CHR 0x09] @ '' flags: %#zX'' @ [newline])
              [instruction_ptr info, code_segement info, eflags info] t) (\<lambda>t.
       terminal_printf m (''Stackptr: %#zX '' @ [CHR 0x09] @ '' Stackseg: %#zX'' @ [newline])
         [stack_ptr info, stack_segement info] t)))"

definition divide_by_zero_handler :: handler where
  "divide_by_zero_handler m p t =
     obind (report m ex_divide_by_zero (exception_info_at m p) t) (\<lambda>t. ret (Returns 0, t))"

definition debug_handler :: handler where
  "debug_handler m p t = obind (report m ex_debug (exception_info_at m p) t) (\<lambda>t. ret (Halts, t))"

definition breakpont_handler :: handler where
  "breakpont_handler m p t = obind (report m ex_breakpont (exception_info_at m p) t) (\<lambda>t. ret (Halts, t))"

definition double_fault_handler :: handler where
  "double_fault_handler m p t = obind (report m ex_double_fault (exception_info_at m p) t) (\<lambda>t. ret (Halts, t))"

definition page_fault_handler :: handler where
  "page_fault_handler m p t =
     (let info = exception_info_with_error_at m p
      in obind (report m ex_page_fault info t) (\<lambda>t.
         obind (terminal_printf m (''Error code: %#zX'' @ [newline]) [error_code info] t) (\<lambda>t. ret (Halts, t))))"

text \<open>The handlers that only halt.\<close>

definition overflow_handler :: handler where "overflow_handler m p t = ret (Halts, t)"
definition bound_range_exceeded_handler :: handler where "bound_range_exceeded_handler m p t = ret (Halts, t)"
definition invalid_opcode_handler :: handler where "invalid_opcode_handler m p t = ret (Halts, t)"
definition device_not_available_handler :: handler where "device_not_available_handler m p t = ret (Halts, t)"
definition coprocessor_segement_overrun_handler :: handler where "coprocessor_segement_overrun_handler m p t = ret (Halts, t)"
definition invalid_tss_handler :: handler where "invalid_tss_handler m p t = ret (Halts, t)"
definition segement_not_present_handler :: handler where "segement_not_present_handler m p t = ret (Halts, t)"
definition stack_segement_fault_handler :: handler where "stack_segement_fault_handler m p t = ret (Halts, t)"
definition general_protection_fault_handler :: handler where "general_protection_fault_handler m p t = ret (Halts, t)"
definition x87_fpu_exception_handler :: handler where "x87_fpu_exception_handler m p t = ret (Halts, t)"
definition alignment_check_handler :: handler where "alignment_check_handler m p t = ret (Halts, t)"
definition machine_check_handler :: handler where "machine_check_handler m p t = ret (Halts, t)"
definition simd_fp_handler :: handler where "simd_fp_handler m p t = ret (Halts, t)"
definition vx_handler :: handler where "vx_handler m p t = ret (Halts, t)"
definition security_handler :: handler where "security_handler m p t = ret (Halts, t)"

primrec exception_handler :: "exception_id \<Rightarrow> handler" where
  "exception_handler ex_divide_by_zero = divide_by_zero_handler"
| "exception_handler ex_debug = debug_handler"
| "exception_handler ex_breakpont = breakpont_handler"
| "exception_handler ex_overflow = overflow_handler"
| "exception_handler ex_bound_range_exceeded = bound_range_exceeded_handler"
| "exception_handler ex_invalid_opcode = invalid_opcode_handler"
| "exception_handler ex_device_not_available = device_not_available_handler"
| "exception_handler ex_double_fault = double_fault_handler"
| "exception_handler ex_coprocessor_segement_overrun = coprocessor_segement_overrun_handler"
| "exception_handler ex_invalid_tss = invalid_tss_handler"
| "exception_handler ex_segement_not_present = segement_not_present_handler"
| "exception_handler ex_stack_segement_fault = stack_segement_fault_handler"
| "exception_handler ex_general_protection_fault = general_protection_fault_handler"
| "exception_handler ex_page_fault = page_fault_handler"
| "exception_handler ex_x87_fpu_exception = x87_fpu_exception_handler"
| "exception_handler ex_alignment_check = alignment_check_handler"
| "exception_handler ex_machine_check = machine_check_handler"
| "exception_handler ex_simd_fp = simd_fp_handler"
| "exception_handler ex_vx = vx_handler"
| "exception_handler ex_security = security_handler"

text \<open>\<open>add_interrupt_handler\<close> for each of them, in the order of the calls; \<open>code\<close> gives the handlers' addresses.\<close>

definition exception_order :: "exception_id list" where
  "exception_order =
    [ex_divide_by_zero, ex_debug, ex_breakpont, ex_overflow, ex_bound_range_exceeded, ex_invalid_opcode,
     ex_device_not_available, ex_double_fault, ex_coprocessor_segement_overrun, ex_invalid_tss,
     ex_segement_not_present, ex_stack_segement_fault, ex_general_protection_fault, ex_page_fault,
     ex_x87_fpu_exception, ex_alignment_check, ex_machine_check, ex_simd_fp, ex_vx, ex_security]"

definition init_exception_handlers :: "layout \<Rightarrow> (exception_id \<Rightarrow> u64) \<Rightarrow> mem \<Rightarrow> mem" where
  "init_exception_handlers lk code m =
     fold (\<lambda>i m. add_interrupt_handler lk (ex_code i) (code i) m) exception_order m"

section \<open>The way of an exception\<close>

text \<open>The registers an exception involves; \<open>scratch\<close> gives rax, rcx, rdx, rsi, rdi and r8 to r11, from 0.\<close>

record cpu =
  rip :: u64
  cs_reg :: u64
  rflags :: u64
  rsp :: u64
  ss_reg :: u64
  scratch :: "nat \<Rightarrow> u64"

fun push_all :: "u64 list \<Rightarrow> mem \<times> u64 \<Rightarrow> mem \<times> u64" where
  "push_all [] s = s"
| "push_all (x # xs) (m, sp) = push_all xs (st64 m (sp - 8) x, sp - 8)"

fun pop_all :: "nat \<Rightarrow> mem \<Rightarrow> u64 \<Rightarrow> u64 list \<times> u64" where
  "pop_all 0 m sp = ([], sp)"
| "pop_all (Suc n) m sp = (let (xs, sp') = pop_all n m (sp + 8) in (ld64 m sp # xs, sp'))"

text \<open>The exceptions for which the processor pushes an error code, as the table in the code has them.\<close>

definition pushes_error :: "exception_id \<Rightarrow> bool" where
  "pushes_error i \<longleftrightarrow> i \<in> {ex_double_fault, ex_invalid_tss, ex_segement_not_present, ex_stack_segement_fault,
     ex_general_protection_fault, ex_page_fault, ex_alignment_check, ex_security}"

text \<open>
  The processor aligns the stack to 16 bytes, pushes the stack, the flags, the interrupted
  instruction and the error code if there is one, clears TF, IF, NT, RF and VM, and goes to the
  target of the gate in segment 8. \<open>iretq\<close> pops the five words. The stack is taken to be mapped.
\<close>

definition deliver :: "exception_id \<Rightarrow> u64 \<Rightarrow> u64 \<Rightarrow> cpu \<times> mem \<Rightarrow> cpu \<times> mem" where
  "deliver i e target = (\<lambda>(c, m).
     let (m', sp) = push_all ([ss_reg c, rsp c, rflags c, cs_reg c, rip c] @ (if pushes_error i then [e] else []))
           (m, rsp c AND NOT 15)
     in (c\<lparr>rip := target, cs_reg := 8, rflags := rflags c AND NOT 0x34300, rsp := sp\<rparr>, m'))"

definition iretq :: "mem \<Rightarrow> cpu \<Rightarrow> cpu" where
  "iretq m c =
     c\<lparr>rip := ld64 m (rsp c), cs_reg := ld64 m (rsp c + 8), rflags := ld64 m (rsp c + 16),
       rsp := ld64 m (rsp c + 24), ss_reg := ld64 m (rsp c + 32)\<rparr>"

definition save_registers :: "cpu \<times> mem \<Rightarrow> cpu \<times> mem" where
  "save_registers = (\<lambda>(c, m). let (m', sp) = push_all (map (scratch c) [0..<9]) (m, rsp c) in (c\<lparr>rsp := sp\<rparr>, m'))"

definition restore_registers :: "cpu \<times> mem \<Rightarrow> cpu" where
  "restore_registers = (\<lambda>(c, m). let (xs, sp) = pop_all 9 m (rsp c) in c\<lparr>scratch := (\<lambda>k. if k < 9 then rev xs ! k else scratch c k), rsp := sp\<rparr>)"

datatype outcome = Resumed cpu | Stopped

text \<open>
  The shim: the handler gets the address of the frame, and whatever it returns decides how the
  shim ends. Its own stack lies below the saved registers, and it changes no word above.
\<close>

definition run_shim :: "'d bus \<Rightarrow> handler \<Rightarrow> cpu \<times> mem \<Rightarrow> terminal \<Rightarrow> 'd \<Rightarrow> (outcome \<times> mem \<times> terminal \<times> 'd) out" where
  "run_shim bus h s t d =
     (let (c, m) = save_registers s
      in obind (h m (rsp c + 0x48) t) (\<lambda>(r, t').
           case r of
             Halts \<Rightarrow> ret (Stopped, m, t', d)
           | Returns eax \<Rightarrow>
               (let c' = restore_registers (c, m); (d', sp) = shim_return bus eax (d, rsp c')
                in ret (Resumed (iretq m (c'\<lparr>rsp := sp\<rparr>)), m, t', d'))))"

definition take_exception ::
  "layout \<Rightarrow> 'd bus \<Rightarrow> exception_id \<Rightarrow> u64 \<Rightarrow> cpu \<times> mem \<Rightarrow> terminal \<Rightarrow> 'd \<Rightarrow> (outcome \<times> mem \<times> terminal \<times> 'd) out" where
  "take_exception lk bus i e s = run_shim bus (exception_handler i) (deliver i e (shim_addr lk (unat (ex_code i))) s)"

text \<open>An instruction that raises its exception again whenever the processor comes back to it.\<close>

fun raise_again ::
  "layout \<Rightarrow> 'd bus \<Rightarrow> exception_id \<Rightarrow> u64 \<Rightarrow> nat \<Rightarrow> cpu \<times> mem \<Rightarrow> terminal \<Rightarrow> 'd \<Rightarrow> (outcome \<times> mem \<times> terminal \<times> 'd) out" where
  "raise_again lk bus i e 0 (c, m) t d = ret (Resumed c, m, t, d)"
| "raise_again lk bus i e (Suc n) (c, m) t d =
     obind (take_exception lk bus i e (c, m) t d) (\<lambda>(r, m', t', d').
       case r of Resumed c' \<Rightarrow> raise_again lk bus i e n (c', m') t' d' | Stopped \<Rightarrow> ret (Stopped, m', t', d'))"

section \<open>The stack\<close>

lemma dvd_minus_8: "8 dvd unat sp \<Longrightarrow> 8 dvd unat (sp - 8 :: u64)"
proof (cases "8 \<le> sp")
  case True
  then have "unat (sp - 8) = unat sp - 8" by (simp add: unat_sub)
  then show "8 dvd unat sp \<Longrightarrow> 8 dvd unat (sp - 8)" by simp
next
  case False
  assume "8 dvd unat sp"
  moreover have "unat sp < 8" using False by (simp add: word_le_nat_alt)
  ultimately have "unat sp = 0" by (auto dest: dvd_imp_le)
  then have "sp = 0" by (simp only: unat_eq_zero)
  then show "8 dvd unat (sp - 8)" by simp
qed

lemma dvd_aligned: "8 dvd unat (v AND NOT 15 :: u64)"
proof -
  have "NOT 15 = (NOT (mask 4) :: u64)" by (simp add: mask_eq_exp_minus_1)
  then have "take_bit 3 (v AND NOT 15) = 0" by (intro bit_eqI) (auto simp: bit_simps)
  then show ?thesis by (simp add: take_bit_eq_mod dvd_eq_mod_eq_0 word_unat_eq_iff unat_mod)
qed

text \<open>The word at a distance below the top of an aligned stack.\<close>

definition below :: "u64 \<Rightarrow> nat \<Rightarrow> u64" where
  "below sp k = sp - 8 * of_nat k"

lemma below_simps: "below sp 0 = sp" "below (sp - 8) k = below sp (Suc k)"
  by (simp_all add: below_def algebra_simps)

lemma below_dvd: "8 dvd unat sp \<Longrightarrow> 8 dvd unat (below sp k)"
proof (induction k arbitrary: sp)
  case (Suc k)
  then show ?case using dvd_minus_8 [of sp] by (simp flip: below_simps(2))
qed (simp add: below_def)

lemma below_inj: "j < 2 ^ 60 \<Longrightarrow> k < 2 ^ 60 \<Longrightarrow> below sp j = below sp k \<longleftrightarrow> j = k"
proof -
  assume jk: "j < 2 ^ 60" "k < 2 ^ 60"
  have u: "unat (8 * of_nat n :: u64) = 8 * n" if "n < 2 ^ 60" for n
    using that by (simp add: unat_word_ariths unat_of_nat64)
  have "below sp j = below sp k \<longleftrightarrow> (8 * of_nat j :: u64) = 8 * of_nat k" by (simp add: below_def)
  also have "\<dots> \<longleftrightarrow> j = k" using u [OF jk(1)] u [OF jk(2)] by (metis mult_cancel1 zero_neq_numeral)
  finally show ?thesis .
qed

lemma push_all_append: "push_all (xs @ ys) s = push_all ys (push_all xs s)"
  by (induction xs arbitrary: s) (auto split: prod.splits)

lemma push_all_pointer: "snd (push_all xs (m, sp)) = below sp (length xs)"
  by (induction xs arbitrary: m sp) (simp_all add: below_simps)

lemma push_all_keeps:
  "8 dvd unat sp \<Longrightarrow> 8 dvd unat a \<Longrightarrow> (\<And>k. k < length xs \<Longrightarrow> a \<noteq> below sp (Suc k)) \<Longrightarrow>
     ld64 (fst (push_all xs (m, sp))) a = ld64 m a"
proof (induction xs arbitrary: m sp)
  case (Cons x xs)
  have "a \<noteq> below (sp - 8) (Suc k)" if "k < length xs" for k
    using Cons.prems(3) [of "Suc k"] that by (simp add: below_simps)
  then have "ld64 (fst (push_all xs (st64 m (sp - 8) x, sp - 8))) a = ld64 (st64 m (sp - 8) x) a"
    using Cons.prems by (intro Cons.IH dvd_minus_8) auto
  moreover have "a \<noteq> sp - 8" using Cons.prems(3) [of 0] by (simp add: below_def)
  ultimately show ?case using ld64_st64_aligned [OF dvd_minus_8 [OF Cons.prems(1)] Cons.prems(2)] by simp
qed simp

lemma push_all_byte:
  "(\<And>k. k < length xs \<Longrightarrow> a \<notin> span (below sp (Suc k)) 8) \<Longrightarrow> fst (push_all xs (m, sp)) a = m a"
proof (induction xs arbitrary: m sp)
  case (Cons x xs)
  have "a \<notin> span (below (sp - 8) (Suc k)) 8" if "k < length xs" for k
    using Cons.prems [of "Suc k"] that by (simp add: below_simps)
  then have "fst (push_all xs (st64 m (sp - 8) x, sp - 8)) a = st64 m (sp - 8) x a" by (intro Cons.IH)
  moreover have "a \<notin> span (sp - 8) 8" using Cons.prems [of 0] by (simp add: below_def)
  ultimately show ?case by (simp add: st64_byte_other)
qed simp

lemma push_all_load:
  "8 dvd unat sp \<Longrightarrow> length xs < 1000 \<Longrightarrow> k < length xs \<Longrightarrow> ld64 (fst (push_all xs (m, sp))) (below sp (Suc k)) = xs ! k"
proof (induction xs arbitrary: m sp k)
  case (Cons x xs)
  note al = dvd_minus_8 [OF Cons.prems(1)]
  show ?case
  proof (cases k)
    case 0
    have "ld64 (fst (push_all xs (st64 m (sp - 8) x, sp - 8))) (below (sp - 8) 0) = ld64 (st64 m (sp - 8) x) (below (sp - 8) 0)"
      using Cons.prems(2) al by (intro push_all_keeps below_dvd) (auto simp: below_inj)
    then show ?thesis using 0 by (simp add: below_def)
  next
    case (Suc j)
    then have "ld64 (fst (push_all xs (st64 m (sp - 8) x, sp - 8))) (below (sp - 8) (Suc j)) = xs ! j"
      using Cons.prems al by (intro Cons.IH) simp_all
    then show ?thesis using Suc by (simp add: below_simps)
  qed
qed simp

section \<open>What the handlers print\<close>

text \<open>An address in capital hexadecimal digits, as text that \<open>print_plain\<close> prints too.\<close>

definition capital_hex :: "u64 \<Rightarrow> string" where
  "capital_hex v = addr_text (CHR ''X'') (unat v)"

lemma hex_digits_printable: "c \<in> set (hex_digits (CHR ''X'') n) \<Longrightarrow> 48 \<le> (of_char c :: nat)"
proof (induction n rule: less_induct)
  case (less n)
  then show ?case using of_hex_char [of "n mod 16" "CHR ''X''"] less.IH [of "n div 16"]
    by (cases "n = 0") (auto simp: hex_digits_pos [of n] hex_offset_def split: if_splits)
qed

lemma print_capital_hex: "print_text (addr_text (CHR ''X'') (unat v)) t = fold print_plain (capital_hex v) t"
proof -
  have big: "48 \<le> (of_char c :: nat)" if "c \<in> set (capital_hex v)" for c
    using that hex_digits_printable by (auto simp: capital_hex_def addr_text_def split: if_splits)
  have "c \<noteq> CHR 0x00 \<and> c \<noteq> CHR 0x09 \<and> c \<noteq> newline" if "c \<in> set (capital_hex v)" for c
    using big [OF that] by (auto simp: newline_def)
  then have "CHR 0x00 \<notin> set (capital_hex v)" "\<And>c t. c \<in> set (capital_hex v) \<Longrightarrow> terminal_print_char c t = print_plain c t"
    by (auto simp: terminal_print_char_def print_plain_def put_raw_def)
  then show ?thesis
    by (simp add: print_text_fold flip: capital_hex_def) (rule fold_cong [OF refl refl], simp add: fun_eq_iff)
qed

text \<open>The three messages for a frame.\<close>

definition frame_text :: "exception_id \<Rightarrow> 'a exception_info_scheme \<Rightarrow> string" where
  "frame_text i f = exception_id_strings ! unat (ex_code i) @
     ''iptr: '' @ capital_hex (instruction_ptr f) @ '' '' @ [CHR 0x09] @ '' code_seg: '' @ capital_hex (code_segement f) @
       '' '' @ [CHR 0x09] @ '' flags: '' @ capital_hex (eflags f) @ [newline] @
     ''Stackptr: '' @ capital_hex (stack_ptr f) @ '' '' @ [CHR 0x09] @ '' Stackseg: '' @ capital_hex (stack_segement f) @ [newline]"

lemma report_text:
  assumes "i \<le> ex_page_fault"
  shows "report m i info t = ret (fold print_plain (frame_text i info) t)"
proof -
  have "unat (ex_code i) < length exception_id_strings \<and> plain (exception_id_strings ! unat (ex_code i))"
    using assms by (cases i) (simp_all add: less_eq_exception_id_def exception_id_strings_def plain_def)
  then show ?thesis
    by (simp add: report_def id_string_def terminal_printf_plain printf_char printf_zx printf_nil newline_def frame_text_def
        print_capital_hex)
qed

lemma printing_order: "ex_divide_by_zero \<le> ex_page_fault" "ex_debug \<le> ex_page_fault" "ex_breakpont \<le> ex_page_fault"
  "ex_double_fault \<le> ex_page_fault"
  by (simp_all add: less_eq_exception_id_def)

lemmas halting_handlers = overflow_handler_def bound_range_exceeded_handler_def invalid_opcode_handler_def
  device_not_available_handler_def coprocessor_segement_overrun_handler_def invalid_tss_handler_def
  segement_not_present_handler_def stack_segement_fault_handler_def general_protection_fault_handler_def
  x87_fpu_exception_handler_def alignment_check_handler_def machine_check_handler_def simd_fp_handler_def
  vx_handler_def security_handler_def

text \<open>The handlers' addresses end up behind their vectors.\<close>

lemma init_exception_install:
  "init_exception_handlers lk code m = install lk (map (\<lambda>i. (ex_code i, code i)) exception_order) m"
  unfolding init_exception_handlers_def install_def by (simp add: fold_map comp_def)

lemma exception_order_all: "set exception_order = UNIV" "distinct exception_order" "sorted exception_order"
proof -
  show "set exception_order = UNIV"
  proof -
    have "i \<in> set exception_order" for i by (cases i) (simp_all add: exception_order_def)
    then show ?thesis by blast
  qed
  show "distinct exception_order" by (simp add: exception_order_def)
  show "sorted exception_order" by (simp add: exception_order_def less_eq_exception_id_def)
qed

lemma ex_code_range: "unat (ex_code i) < 32"
  by (cases i) simp_all

section \<open>From the interrupted instruction to the handler\<close>

text \<open>What the processor found in its registers, as the structure of the handlers has it.\<close>

definition interrupted :: "cpu \<Rightarrow> exception_info" where
  "interrupted c = \<lparr>instruction_ptr = rip c, code_segement = cs_reg c, eflags = rflags c, stack_ptr = rsp c,
     stack_segement = ss_reg c\<rparr>"

definition aligned_top :: "cpu \<Rightarrow> u64" where
  "aligned_top c = rsp c AND NOT 15"

definition stack_words :: "exception_id \<Rightarrow> u64 \<Rightarrow> cpu \<Rightarrow> u64 list" where
  "stack_words i e c = [ss_reg c, rsp c, rflags c, cs_reg c, rip c] @ (if pushes_error i then [e] else [])"

definition shim_memory :: "exception_id \<Rightarrow> u64 \<Rightarrow> cpu \<Rightarrow> mem \<Rightarrow> mem" where
  "shim_memory i e c m = fst (push_all (stack_words i e c @ map (scratch c) [0..<9]) (m, aligned_top c))"

lemma save_deliver:
  "save_registers (deliver i e target (c, m)) =
     (c\<lparr>rip := target, cs_reg := 8, rflags := rflags c AND NOT 0x34300,
        rsp := below (aligned_top c) (length (stack_words i e c) + 9)\<rparr>, shim_memory i e c m)"
proof -
  obtain m1 sp1 where a: "push_all (stack_words i e c) (m, aligned_top c) = (m1, sp1)" by fastforce
  obtain m2 sp2 where b: "push_all (map (scratch c) [0..<9]) (m1, sp1) = (m2, sp2)" by fastforce
  have ab: "push_all (stack_words i e c @ map (scratch c) [0..<9]) (m, aligned_top c) = (m2, sp2)"
    by (simp only: push_all_append a b)
  then have "sp2 = below (aligned_top c) (length (stack_words i e c) + 9)"
    using push_all_pointer [of "stack_words i e c @ map (scratch c) [0..<9]" m "aligned_top c"] by simp
  moreover have "shim_memory i e c m = m2" by (simp only: shim_memory_def ab fst_conv)
  moreover have "deliver i e target (c, m) = (c\<lparr>rip := target, cs_reg := 8, rflags := rflags c AND NOT 0x34300, rsp := sp1\<rparr>, m1)"
    by (simp only: deliver_def stack_words_def [symmetric] aligned_top_def [symmetric] prod.case a Let_def)
  ultimately show ?thesis using b by (simp add: save_registers_def)
qed

lemma shim_words:
  "k < length (stack_words i e c) \<Longrightarrow> ld64 (shim_memory i e c m) (below (aligned_top c) (Suc k)) = stack_words i e c ! k"
  "k < 9 \<Longrightarrow> ld64 (shim_memory i e c m) (below (aligned_top c) (length (stack_words i e c) + Suc k)) = scratch c k"
proof -
  note load = push_all_load [OF dvd_aligned [of "rsp c", folded aligned_top_def], of "stack_words i e c @ map (scratch c) [0..<9]", where m = m]
  have short: "length (stack_words i e c @ map (scratch c) [0..<9]) < 1000" by (simp add: stack_words_def)
  show "ld64 (shim_memory i e c m) (below (aligned_top c) (Suc k)) = stack_words i e c ! k" if "k < length (stack_words i e c)"
    using load [OF short, of k] that by (simp add: shim_memory_def nth_append)
  show "ld64 (shim_memory i e c m) (below (aligned_top c) (length (stack_words i e c) + Suc k)) = scratch c k" if "k < 9"
    using load [OF short, of "length (stack_words i e c) + k"] that by (simp add: shim_memory_def nth_append)
qed

text \<open>The frame as the structures see it, at the address the shim passes.\<close>

definition frame_top :: "exception_id \<Rightarrow> cpu \<Rightarrow> u64" where
  "frame_top i c = below (aligned_top c) (if pushes_error i then 6 else 5)"

lemma length_stack_words: "length (stack_words i e c) = (if pushes_error i then 6 else 5)"
  by (simp add: stack_words_def)

lemma handler_frame:
  "\<not> pushes_error i \<Longrightarrow> exception_info_at (shim_memory i e c m) (frame_top i c) = interrupted c"
  "pushes_error i \<Longrightarrow> exception_info_with_error_at (shim_memory i e c m) (frame_top i c) =
     exception_info.extend (interrupted c) \<lparr>error_code = e\<rparr>"
  "pushes_error i \<Longrightarrow> exception_info_at (shim_memory i e c m) (frame_top i c) =
     \<lparr>instruction_ptr = e, code_segement = rip c, eflags = cs_reg c, stack_ptr = rflags c, stack_segement = rsp c\<rparr>"
  using shim_words(1) [of 0 i e c m] shim_words(1) [of 1 i e c m] shim_words(1) [of 2 i e c m] shim_words(1) [of 3 i e c m]
    shim_words(1) [of 4 i e c m] shim_words(1) [of 5 i e c m]
  by (simp_all add: frame_top_def exception_info_at_def exception_info_with_error_at_def stack_words_def below_def interrupted_def
      exception_info.defs exception_info_with_error.defs)

lemma pop_all_rev:
  "rev (fst (pop_all n m (below s (L + n)))) = map (\<lambda>k. ld64 m (below s (L + Suc k))) [0..<n] \<and>
    snd (pop_all n m (below s (L + n))) = below s L"
proof (induction n)
  case (Suc n)
  have "below s (L + Suc n) + 8 = below s (L + n)" by (simp add: below_def algebra_simps)
  then show ?case using Suc by (simp add: case_prod_beta Let_def)
qed simp

lemma restored:
  assumes "scratch c' = scratch c" "rsp c' = below (aligned_top c) (length (stack_words i e c) + 9)"
  shows "restore_registers (c', shim_memory i e c m) = c'\<lparr>rsp := frame_top i c\<rparr>"
proof -
  obtain xs sp where x: "pop_all 9 (shim_memory i e c m) (rsp c') = (xs, sp)" by fastforce
  have "rev xs = map (scratch c) [0..<9]" "sp = frame_top i c"
    using pop_all_rev [of 9 "shim_memory i e c m" "aligned_top c" "length (stack_words i e c)"] x shim_words(2) [of _ i e c m]
    by (simp_all add: assms(2) frame_top_def length_stack_words)
  then have "(\<lambda>k. if k < 9 then rev xs ! k else scratch c' k) = scratch c'" by (auto simp: fun_eq_iff assms(1))
  then show ?thesis using x \<open>sp = frame_top i c\<close> by (simp add: restore_registers_def)
qed

lemma iretq_back:
  "\<not> pushes_error i \<Longrightarrow> iretq (shim_memory i e c m) (c\<lparr>rip := a, cs_reg := b, rflags := f, rsp := frame_top i c\<rparr>) = c"
  using shim_words(1) [of 0 i e c m] shim_words(1) [of 1 i e c m] shim_words(1) [of 2 i e c m] shim_words(1) [of 3 i e c m]
    shim_words(1) [of 4 i e c m]
  by (simp add: iretq_def frame_top_def stack_words_def below_def)

text \<open>What an exception shows: the frame, with the error code for a page fault, if its handler prints.\<close>

definition exception_text :: "exception_id \<Rightarrow> u64 \<Rightarrow> cpu \<Rightarrow> string" where
  "exception_text i e c =
     (if i \<in> {ex_divide_by_zero, ex_debug, ex_breakpont} then frame_text i (interrupted c)
      else if i = ex_page_fault then frame_text i (interrupted c) @ ''Error code: '' @ capital_hex e @ [newline]
      else if i = ex_double_fault then frame_text i \<lparr>instruction_ptr = e, code_segement = rip c, eflags = cs_reg c,
        stack_ptr = rflags c, stack_segement = rsp c\<rparr>
      else [])"

lemma handler_effect:
  "exception_handler i (shim_memory i e c m) (frame_top i c) t =
     ret (if i = ex_divide_by_zero then Returns 0 else Halts, fold print_plain (exception_text i e c) t)"
  using handler_frame [of i e c m]
  by (cases i) (simp_all add: halting_handlers divide_by_zero_handler_def debug_handler_def breakpont_handler_def
      double_fault_handler_def page_fault_handler_def Let_def printf_char printf_zx printf_nil newline_def pushes_error_def
      report_text printing_order exception_text_def print_capital_hex exception_info.defs frame_text_def)

lemma take_exception_effect:
  "take_exception lk bus i e (c, m) t d = ret (if i = ex_divide_by_zero then
       (Resumed c, shim_memory i e c m, fold print_plain (exception_text i e c) t, outb bus 0x20 0x20 d)
     else (Stopped, shim_memory i e c m, fold print_plain (exception_text i e c) t, d))"
proof -
  define c1 where "c1 = c\<lparr>rip := shim_addr lk (unat (ex_code i)), cs_reg := 8, rflags := rflags c AND NOT 0x34300,
    rsp := below (aligned_top c) (length (stack_words i e c) + 9)\<rparr>"
  have sp: "rsp c1 = below (aligned_top c) (length (stack_words i e c) + 9)" "scratch c1 = scratch c" by (simp_all add: c1_def)
  have p: "rsp c1 + 0x48 = frame_top i c" by (simp add: sp frame_top_def length_stack_words below_def)
  have iret: "iretq (shim_memory i e c m) (c1\<lparr>rsp := frame_top i c\<rparr>) = c" if "\<not> pushes_error i"
    using iretq_back [OF that] by (simp add: c1_def)
  have "take_exception lk bus i e (c, m) t d =
      obind (exception_handler i (shim_memory i e c m) (frame_top i c) t) (\<lambda>(r, t'). case r of
        Halts \<Rightarrow> ret (Stopped, shim_memory i e c m, t', d)
      | Returns eax \<Rightarrow> (let c' = restore_registers (c1, shim_memory i e c m); (d', sp) = shim_return bus eax (d, rsp c')
           in ret (Resumed (iretq (shim_memory i e c m) (c'\<lparr>rsp := sp\<rparr>)), shim_memory i e c m, t', d')))"
    by (simp only: take_exception_def run_shim_def save_deliver c1_def [symmetric] p Let_def prod.case)
  moreover have "iretq (shim_memory i e c m) (restore_registers (c1, shim_memory i e c m)) = c" if "i = ex_divide_by_zero"
    unfolding restored [OF sp(2,1)] by (rule iret) (simp add: that pushes_error_def)
  ultimately show ?thesis unfolding handler_effect by (auto simp: shim_return_def Let_def)
qed

lemma raise_again_effect:
  "\<exists>m' d'. raise_again lk bus ex_divide_by_zero e n (c, m) t d =
     ret (Resumed c, m', fold print_plain (concat (replicate n (exception_text ex_divide_by_zero e c))) t, d')"
proof (induction n arbitrary: m t d)
  case (Suc n)
  show ?case
    using Suc [of "shim_memory ex_divide_by_zero e c m" "fold print_plain (exception_text ex_divide_by_zero e c) t" "outb bus 0x20 0x20 d"]
    by (simp add: take_exception_effect)
qed simp

section \<open>Properties\<close>

text \<open>C35. An exception, from the processor's pushes through the shim to the handler and back: every one
  stops the kernel for good, except a division by zero. That one comes back to the very
  instruction that divides, with every register as it was, so that it is raised again: after any
  number of rounds the processor is where it was and the message has been printed as often.\<close>

theorem exceptions_halt:
  "(\<exists>m' t' d'. take_exception lk pc_bus i e (c, m) t d =
       ret (if i = ex_divide_by_zero then Resumed c else Stopped, m', t', d')) \<and>
   (\<exists>m' d'. raise_again lk pc_bus ex_divide_by_zero e n (c, m) t d = ret (Resumed c, m',
      fold print_plain (concat (replicate n (frame_text ex_divide_by_zero (interrupted c)))) t, d'))"
proof
  show "\<exists>m' t' d'. take_exception lk pc_bus i e (c, m) t d =
       ret (if i = ex_divide_by_zero then Resumed c else Stopped, m', t', d')"
    unfolding take_exception_effect by (cases "i = ex_divide_by_zero") auto
  show "\<exists>m' d'. raise_again lk pc_bus ex_divide_by_zero e n (c, m) t d = ret (Resumed c, m',
      fold print_plain (concat (replicate n (frame_text ex_divide_by_zero (interrupted c)))) t, d')"
    using raise_again_effect [of lk pc_bus e n c m t d] by (simp add: exception_text_def)
qed

text \<open>C37. What the screen shows of an exception. For a division, a debug exception and a breakpoint it is
  the interrupted instruction, flags and stack, and for a page fault the error code as well. The
  handler of a double fault takes its frame for one without an error code, which there is one: the
  message shows the error code for the instruction pointer, the instruction pointer for the code
  segment, and so on, and the stack segment not at all. The other exceptions show nothing.\<close>

theorem double_fault_misread:
  "\<exists>r m' d'. take_exception lk pc_bus i e (c, m) t d = ret (r, m', fold print_plain
     (case i of
        ex_divide_by_zero \<Rightarrow> frame_text i (interrupted c)
      | ex_debug \<Rightarrow> frame_text i (interrupted c)
      | ex_breakpont \<Rightarrow> frame_text i (interrupted c)
      | ex_page_fault \<Rightarrow> frame_text i (interrupted c) @ ''Error code: '' @ capital_hex e @ [newline]
      | ex_double_fault \<Rightarrow> frame_text i \<lparr>instruction_ptr = e, code_segement = rip c, eflags = cs_reg c,
          stack_ptr = rflags c, stack_segement = rsp c\<rparr>
      | _ \<Rightarrow> []) t, d')"
  unfolding take_exception_effect exception_text_def by (cases i) auto

end
