(* ===== verification/Keyboard.thy ===== *)
theory Keyboard
  imports Ports Terminal
begin

text \<open>
  The keyboard driver (src/keyboard.c): the table from scan codes to characters, and the
  interrupt handler, which takes one byte of the keyboard at a time and remembers whether
  the byte before announced a released key. The handler is refined to key events: it prints
  the characters of the pressed keys, in order.
\<close>

definition keyboard_controller_port :: u16 where "keyboard_controller_port = 0x64"
definition keyboard_encoder_port :: u16 where "keyboard_encoder_port = 0x60"
definition key_relased_code :: u8 where "key_relased_code = 0xf0"

text \<open>The globals the handler uses; the flags for caps lock, shift and the like are never read or written.\<close>

record keyboard =
  ascii_key :: "char list"
  keyboard_key_released :: bool

definition keyboard_start :: keyboard where
  "keyboard_start = \<lparr>ascii_key = replicate 0x90 (CHR 0x00), keyboard_key_released = False\<rparr>"

text \<open>The assignments of \<open>keyboard_init\<close>, in their order.\<close>

definition key_assignments :: "(nat \<times> char) list" where
  "key_assignments =
    [(0x15, CHR ''Q''), (0x16, CHR ''1''), (0x21, CHR ''C''), (0x22, CHR ''X''), (0x23, CHR ''D''),
     (0x24, CHR ''E''), (0x25, CHR ''4''), (0x26, CHR ''3''), (0x29, CHR 0x20), (0x31, CHR ''N''),
     (0x32, CHR ''B''), (0x33, CHR ''H''), (0x34, CHR ''G''), (0x35, CHR ''Y''), (0x36, CHR ''6''),
     (0x41, CHR '',''), (0x42, CHR ''K''), (0x43, CHR ''I''), (0x44, CHR ''O''), (0x45, CHR ''0''),
     (0x46, CHR ''9''), (0x49, CHR ''.''), (0x52, CHR 0x27), (0x54, CHR ''[''), (0x55, CHR ''=''),
     (0x69, CHR ''1''), (0x70, CHR ''0''), (0x71, CHR ''.''), (0x72, CHR ''2''), (0x73, CHR ''5''),
     (0x74, CHR ''6''), (0x75, CHR ''8''), (0x79, CHR 0x0A), (0x0D, CHR 0x09), (0x0E, CHR 0x60),
     (0x1A, CHR ''Z''), (0x1B, CHR ''S''), (0x1C, CHR ''A''), (0x1D, CHR ''W''), (0x1E, CHR ''2''),
     (0x2A, CHR ''V''), (0x2B, CHR ''F''), (0x2C, CHR ''T''), (0x2D, CHR ''R''), (0x2E, CHR ''5''),
     (0x3A, CHR ''M''), (0x3B, CHR ''J''), (0x3C, CHR ''U''), (0x3D, CHR ''7''), (0x3E, CHR ''8''),
     (0x4A, CHR ''/''), (0x4A, CHR ''/''), (0x4B, CHR ''L''), (0x4C, CHR '';''), (0x4D, CHR ''P''),
     (0x4E, CHR ''-''), (0x4E, CHR ''-''), (0x5A, CHR 0x0A), (0x5B, CHR '']''), (0x5C, CHR 0x5C),
     (0x6B, CHR ''4''), (0x6C, CHR ''7''), (0x7A, CHR ''3''), (0x7C, CHR ''+''), (0x7D, CHR ''9''),
     (0x7E, CHR ''*'')]"

definition assign_key :: "nat \<times> char \<Rightarrow> keyboard \<Rightarrow> keyboard" where
  "assign_key = (\<lambda>(i, c) k. k\<lparr>ascii_key := (ascii_key k)[i := c]\<rparr>)"

definition keyboard_init :: "keyboard \<Rightarrow> keyboard" where
  "keyboard_init k = fold assign_key key_assignments k"

text \<open>A scan code indexes the table without a check; an index behind its end is out of bounds.\<close>

definition keyboard_interrupt ::
  "'d bus \<Rightarrow> keyboard \<times> terminal \<times> 'd \<Rightarrow> (int \<times> keyboard \<times> terminal \<times> 'd) out" where
  "keyboard_interrupt bus = (\<lambda>(k, t, d).
     let (code, d) = inb bus keyboard_encoder_port d
     in if code = key_relased_code then ret (0, k\<lparr>keyboard_key_released := True\<rparr>, t, d)
        else if keyboard_key_released k then ret (0, k\<lparr>keyboard_key_released := False\<rparr>, t, d)
        else if unat code \<ge> length (ascii_key k) then fail Out_of_bounds
        else (let ascii = ascii_key k ! unat code
              in ret (0, k, if ascii \<noteq> CHR 0x00 then terminal_print_char ascii t else t, d)))"

section \<open>Key events\<close>

datatype key_event = Press u8 | Release u8

fun event_code :: "key_event \<Rightarrow> u8" where
  "event_code (Press c) = c"
| "event_code (Release c) = c"

text \<open>The bytes of an event, and the characters it should print.\<close>

fun event_bytes :: "key_event \<Rightarrow> u8 list" where
  "event_bytes (Press c) = [c]"
| "event_bytes (Release c) = [0xF0, c]"

definition key_char :: "u8 \<Rightarrow> char option" where
  "key_char c = map_of (rev key_assignments) (unat c)"

fun event_text :: "key_event \<Rightarrow> string" where
  "event_text (Press c) = (case key_char c of Some ch \<Rightarrow> [ch] | None \<Rightarrow> [])"
| "event_text (Release c) = []"

fun handle_bytes :: "nat \<Rightarrow> keyboard \<times> terminal \<times> pc \<Rightarrow> (keyboard \<times> terminal \<times> pc) out" where
  "handle_bytes 0 s = ret s"
| "handle_bytes (Suc n) s = obind (keyboard_interrupt pc_bus s) (\<lambda>(_, s'). handle_bytes n s')"

lemma handle_bytes_add: "handle_bytes (m + n) s = obind (handle_bytes m s) (handle_bytes n)"
proof (induction m arbitrary: s)
  case (Suc m)
  then show ?case
    by (cases "keyboard_interrupt pc_bus s" rule: out_cases) (auto split: prod.splits)
qed simp

lemma fold_assign:
  "length (ascii_key (fold assign_key as k)) = length (ascii_key k)"
  "keyboard_key_released (fold assign_key as k) = keyboard_key_released k"
  "n < length (ascii_key k) \<Longrightarrow>
     ascii_key (fold assign_key as k) ! n = (case map_of (rev as) n of Some c \<Rightarrow> c | None \<Rightarrow> ascii_key k ! n)"
  by (induction as arbitrary: k) (auto simp: assign_key_def map_add_def nth_list_update split: option.splits)

text \<open>The table after \<open>keyboard_init\<close>, and a driver that is ready for an event.\<close>

definition keyboard_ready :: "keyboard \<Rightarrow> bool" where
  "keyboard_ready k \<longleftrightarrow> ascii_key k = ascii_key (keyboard_init keyboard_start) \<and> \<not> keyboard_key_released k"

lemma keyboard_start_ready: "keyboard_ready (keyboard_init keyboard_start)"
  using fold_assign(2) [of key_assignments keyboard_start] by (simp add: keyboard_ready_def keyboard_init_def keyboard_start_def)

lemma table_length: "length (ascii_key (keyboard_init keyboard_start)) = 0x90"
  using fold_assign(1) [of key_assignments keyboard_start] by (simp add: keyboard_init_def keyboard_start_def)

lemma table_entry:
  assumes "unat c < 0x90"
  shows "ascii_key (keyboard_init keyboard_start) ! unat c = (case key_char c of Some ch \<Rightarrow> ch | None \<Rightarrow> CHR 0x00)"
proof -
  have "unat c < length (ascii_key keyboard_start)" "ascii_key keyboard_start ! unat c = CHR 0x00"
    using assms by (simp_all add: keyboard_start_def)
  then show ?thesis using fold_assign(3) [of "unat c" keyboard_start key_assignments]
    by (simp add: keyboard_init_def key_char_def split: option.splits)
qed

lemma no_nul: "key_char c \<noteq> Some (CHR 0x00)"
proof
  assume "key_char c = Some (CHR 0x00)"
  then have "CHR 0x00 \<in> snd ` set (rev key_assignments)"
    unfolding key_char_def by (metis map_of_SomeD rev_image_eqI snd_conv)
  then show False by (simp add: key_assignments_def)
qed

lemma read_key: "keys d = c # ks \<Longrightarrow> inb pc_bus keyboard_encoder_port d = (c, d\<lparr>keys := ks\<rparr>)"
  by (simp add: pc_simps keyboard_encoder_port_def)

lemma press_step:
  assumes "keyboard_ready k" "unat c < 0x90" "keys d = c # ks"
  shows "keyboard_interrupt pc_bus (k, t, d) = ret (0, k, fold terminal_print_char (event_text (Press c)) t, d\<lparr>keys := ks\<rparr>)"
proof -
  have "c \<noteq> 0xF0" using assms(2) by auto
  then show ?thesis
    using assms table_length table_entry [OF assms(2)] no_nul [of c]
    by (cases "key_char c") (simp_all add: keyboard_interrupt_def keyboard_ready_def read_key key_relased_code_def Let_def)
qed

lemma release_steps:
  assumes "keyboard_ready k" "keys d = 0xF0 # c # ks" "c \<noteq> 0xF0"
  shows "handle_bytes (Suc (Suc 0)) (k, t, d) = ret (k, t, d\<lparr>keys := ks\<rparr>)"
  using assms by (cases k) (simp add: keyboard_interrupt_def keyboard_ready_def read_key key_relased_code_def Let_def)

lemma event_steps:
  assumes "keyboard_ready k" "unat (event_code e) < 0x90" "keys d = event_bytes e @ ks"
  shows "handle_bytes (length (event_bytes e)) (k, t, d) = ret (k, fold terminal_print_char (event_text e) t, d\<lparr>keys := ks\<rparr>)"
proof (cases e)
  case (Press c)
  then show ?thesis using press_step [of k c d ks t] assms by simp
next
  case (Release c)
  then have "c \<noteq> 0xF0" using assms(2) by auto
  then show ?thesis using release_steps [of k d c ks t] assms Release by simp
qed

section \<open>Properties\<close>

text \<open>C17. For every sequence of pressed and released keys with codes inside the table, handling one byte
  per interrupt takes exactly their bytes from the keyboard, prints the characters of the pressed
  keys in order and nothing for the released ones, and leaves the driver ready for the next event.\<close>

theorem keyboard_types_presses:
  assumes "keyboard_ready k" "\<forall>e \<in> set es. unat (event_code e) < 0x90" "keys d = concat (map event_bytes es) @ ks"
  shows "handle_bytes (length (concat (map event_bytes es))) (k, t, d) =
    ret (k, fold terminal_print_char (concat (map event_text es)) t, d\<lparr>keys := ks\<rparr>)"
  using assms(2,3)
proof (induction es arbitrary: d t)
  case (Cons e es)
  have "handle_bytes (length (event_bytes e)) (k, t, d) =
      ret (k, fold terminal_print_char (event_text e) t, d\<lparr>keys := concat (map event_bytes es) @ ks\<rparr>)"
    using Cons.prems assms(1) by (intro event_steps) simp_all
  moreover have "handle_bytes (length (concat (map event_bytes es)))
      (k, fold terminal_print_char (event_text e) t, d\<lparr>keys := concat (map event_bytes es) @ ks\<rparr>) =
      ret (k, fold terminal_print_char (concat (map event_text es)) (fold terminal_print_char (event_text e) t), d\<lparr>keys := ks\<rparr>)"
    using Cons.prems Cons.IH [of "d\<lparr>keys := concat (map event_bytes es) @ ks\<rparr>"] by simp
  ultimately show ?case by (simp add: handle_bytes_add)
qed simp

text \<open>H pressed and released, then I.\<close>

theorem keyboard_types_presses_witness:
  "handle_bytes 4 (keyboard_init keyboard_start, sample_terminal, power_on\<lparr>keys := [0x33, 0xF0, 0x33, 0x43]\<rparr>) =
     ret (keyboard_init keyboard_start, fold terminal_print_char ''HI'' sample_terminal, power_on\<lparr>keys := []\<rparr>)"
proof -
  have "key_char 0x33 = Some (CHR ''H'')" "key_char 0x43 = Some (CHR ''I'')"
    by (simp_all add: key_char_def key_assignments_def)
  moreover have four: "(4 :: nat) = Suc (Suc (Suc (Suc 0)))" by simp
  ultimately show ?thesis
    using keyboard_types_presses [OF keyboard_start_ready, of "[Press 0x33, Release 0x33, Press 0x43]"
        "power_on\<lparr>keys := [0x33, 0xF0, 0x33, 0x43]\<rparr>" "[]" sample_terminal]
    unfolding four by (simp del: handle_bytes.simps)
qed

text \<open>C39. A scan code from 0x90 on that is neither the release prefix nor preceded by it (the prefix 0xE0 of
  the arrow keys, for one) makes the handler read behind the end of its table.\<close>

theorem extended_code_overruns_table:
  assumes "keyboard_ready k" "keys d = c # ks" "0x90 \<le> c" "c \<noteq> 0xF0"
  shows "keyboard_interrupt pc_bus (k, t, d) = fail Out_of_bounds"
  using assms table_length
  by (simp add: keyboard_interrupt_def keyboard_ready_def read_key key_relased_code_def word_le_nat_alt Let_def)

theorem extended_code_overruns_table_witness:
  "keyboard_interrupt pc_bus (keyboard_init keyboard_start, sample_terminal, power_on\<lparr>keys := [0xE0, 0x75]\<rparr>) = fail Out_of_bounds"
  using extended_code_overruns_table [OF keyboard_start_ready, of "power_on\<lparr>keys := [0xE0, 0x75]\<rparr>" "0xE0" "[0x75]"] by simp

end
