(* ===== verification/Kernel.thy ===== *)
theory Kernel
  imports Remap_Laws Heap_Init Exceptions Keyboard
begin

text \<open>
  The kernel's entry (src/kernel.c): the steps of \<open>kernel_main\<close> over the states of all parts,
  in their order, and the loop it ends in. The lemmas show which routine every interrupt
  vector reaches when the steps are done, and what a keyboard interrupt does if it comes
  before its handler is installed.
\<close>

section \<open>State and addresses\<close>

text \<open>The devices, the interrupt flag, the interrupt tables, and the states of the other parts.\<close>

record 'd kernel =
  devices :: 'd
  interrupts_on :: bool
  tables :: mem
  keyboard_state :: keyboard
  mach :: machine
  boot :: multiboot_state
  heap :: kheap

text \<open>The addresses the linker gave to the routines that are installed.\<close>

record routines =
  i_ok :: u64
  i_ok_timer :: u64
  timer_print_addr :: u64
  keyboard_interrupt_addr :: u64
  exception_addr :: "exception_id \<Rightarrow> u64"

definition timer_print :: "mem \<Rightarrow> terminal \<Rightarrow> (int \<times> terminal) out" where
  "timer_print m t = obind (terminal_printf m ''T'' [] t) (\<lambda>t. ret (0, t))"

text \<open>\<open>i_ok\<close> is \<open>hlt\<close>, with interrupts off; the timer's default returns.\<close>

definition default_routine :: "layout \<Rightarrow> routines \<Rightarrow> mem \<Rightarrow> mem" where
  "default_routine lk rt m = setup_interrupt_handlers lk (i_ok rt) (i_ok_timer rt) m"

section \<open>The steps of \<open>kernel_main\<close>\<close>

definition start_screen :: "'d kernel \<Rightarrow> 'd kernel" where
  "start_screen s = s\<lparr>mach := (mach s)\<lparr>tty := init_terminal (tty (mach s))\<rparr>\<rparr>"

definition start_interrupts :: "'d bus \<Rightarrow> layout \<Rightarrow> routines \<Rightarrow> 'd kernel \<Rightarrow> 'd kernel out" where
  "start_interrupts bus lk rt s =
     (let s1 = s\<lparr>devices := pic_init bus 0x20 0x28 (devices s)\<rparr>;
          s2 = s1\<lparr>tables := init_exception_handlers lk (exception_addr rt) (tables s1)\<rparr>
      in obind (pic_enable_interrupts bus (devices s2, interrupts_on s2)) (\<lambda>(d, i).
           ret (s2\<lparr>devices := d, interrupts_on := i\<rparr>)))"

definition install_drivers :: "layout \<Rightarrow> routines \<Rightarrow> 'd kernel \<Rightarrow> 'd kernel" where
  "install_drivers lk rt s =
     (let s1 = s\<lparr>tables := add_interrupt_handler lk 0x20 (timer_print_addr rt) (tables s)\<rparr>;
          s2 = s1\<lparr>keyboard_state := keyboard_init (keyboard_state s1)\<rparr>
      in s2\<lparr>tables := add_interrupt_handler lk 0x21 (keyboard_interrupt_addr rt) (tables s2)\<rparr>)"

text \<open>\<open>bi\<close> is the memory with the boot information, \<open>lit\<close> the addresses of string literals, \<open>g\<close> uninitialised.\<close>

definition start_memory :: "mem \<Rightarrow> (nat \<Rightarrow> u64) \<Rightarrow> u64 \<Rightarrow> frame \<Rightarrow> 'd kernel \<Rightarrow> 'd kernel out" where
  "start_memory bi lit pmultiboot g s =
     obind (init_multiboot_data bi lit pmultiboot (boot s, tty (mach s))) (\<lambda>(b, t).
     obind (init_allocator bi (start b) (data b)) (\<lambda>al.
     obind (remap_kernel bi (data b) g ((mach s)\<lparr>frames := al, tty := t\<rparr>)) (\<lambda>m.
     obind (init_heap bi m) (\<lambda>(m', h). ret (s\<lparr>mach := m', boot := b, heap := h\<rparr>)))))"

definition kernel_start ::
  "'d bus \<Rightarrow> layout \<Rightarrow> routines \<Rightarrow> mem \<Rightarrow> (nat \<Rightarrow> u64) \<Rightarrow> u64 \<Rightarrow> frame \<Rightarrow> 'd kernel \<Rightarrow> 'd kernel out" where
  "kernel_start bus lk rt bi lit pmultiboot g s =
     obind (start_interrupts bus lk rt (start_screen s)) (\<lambda>s1.
       start_memory bi lit pmultiboot g (install_drivers lk rt s1))"

text \<open>The loop at the end has no exit.\<close>

definition kernel_main ::
  "'d bus \<Rightarrow> layout \<Rightarrow> routines \<Rightarrow> mem \<Rightarrow> (nat \<Rightarrow> u64) \<Rightarrow> u64 \<Rightarrow> frame \<Rightarrow> 'd kernel \<Rightarrow> unit out" where
  "kernel_main bus lk rt bi lit pmultiboot g s =
     obind (kernel_start bus lk rt bi lit pmultiboot g s) (\<lambda>_. None)"

section \<open>The interrupt vectors\<close>

text \<open>All installations of \<open>kernel_main\<close>, in order.\<close>

definition installations :: "routines \<Rightarrow> (u16 \<times> u64) list" where
  "installations rt = map (\<lambda>i. (ex_code i, exception_addr rt i)) exception_order @
     [(0x20, timer_print_addr rt), (0x21, keyboard_interrupt_addr rt)]"

lemma install_append: "install lk (xs @ ys) m = install lk ys (install lk xs m)"
  by (simp add: install_def)

lemma kernel_tables:
  assumes "start_interrupts bus lk rt s = ret s1"
  shows "tables (install_drivers lk rt s1) = install lk (installations rt) (tables s)"
proof -
  have "tables s1 = install lk (map (\<lambda>i. (ex_code i, exception_addr rt i)) exception_order) (tables s)"
    using assms by (auto simp: start_interrupts_def obind_eq_ret init_exception_install)
  then show ?thesis
    by (simp add: install_drivers_def installations_def install_append Let_def) (simp add: install_def)
qed

text \<open>The routine of a vector: an exception's, the timer's, the keyboard's, or the default.\<close>

definition vector_routine :: "routines \<Rightarrow> nat \<Rightarrow> u64" where
  "vector_routine rt v =
     (if v = 0x20 then timer_print_addr rt else if v = 0x21 then keyboard_interrupt_addr rt
      else case find (\<lambda>i. unat (ex_code i) = v) exception_order of
        Some i \<Rightarrow> exception_addr rt i | None \<Rightarrow> i_ok rt)"

lemma map_of_exceptions:
  "distinct is \<Longrightarrow> map_of (map (\<lambda>i. (ex_code i, f i)) is) n = map_option f (find (\<lambda>i. ex_code i = n) is)"
  by (induction "is") auto

lemma exception_numbers_small: "unat (ex_code i) < 256"
  using ex_code_range [of i] by simp

lemma installed_key:
  assumes "v < 256"
  shows "map_of (rev (installations rt)) (of_nat v) =
    (if v = 0x20 then Some (timer_print_addr rt) else if v = 0x21 then Some (keyboard_interrupt_addr rt)
     else map_option (exception_addr rt) (find (\<lambda>i. unat (ex_code i) = v) exception_order))"
proof -
  let ?e = "map (\<lambda>i. (ex_code i, exception_addr rt i)) exception_order"
  have v: "(of_nat v :: u16) = w \<longleftrightarrow> v = unat w" for w
    using assms by (auto simp: word_unat_eq_iff unat_of_nat)
  have d: "distinct (map fst ?e)"
    using exception_order_all(2) by (simp add: distinct_map inj_on_def comp_def)
  have rev_e: "map_of (rev ?e) = map_of ?e"
    using d by (intro map_of_inject_set [THEN iffD2]) (simp_all flip: rev_map)
  have "map_of (rev ?e) (of_nat v) = map_option (exception_addr rt) (find (\<lambda>i. ex_code i = of_nat v) exception_order)"
    unfolding rev_e by (rule map_of_exceptions [OF exception_order_all(2)])
  moreover have "(\<lambda>i. ex_code i = of_nat v) = (\<lambda>i. unat (ex_code i) = v)" using v by (metis)
  ultimately show ?thesis
    by (simp add: installations_def map_add_def v)
qed

lemma start_interrupts_pc:
  "\<exists>s1. start_interrupts pc_bus lk rt s = ret s1 \<and> interrupts_on s1 \<and>
    tables s1 = init_exception_handlers lk (exception_addr rt) (tables s) \<and>
    phase (master (devices s1)) = Ready \<and> vector_base (master (devices s1)) = 0x20 \<and>
    in_service (master (devices s1)) = 0 \<and> \<not> bit (mask_reg (master (devices s1))) 1"
proof -
  let ?init = "pic_init pc_bus 0x20 0x28 (devices s)"
  let ?d = "outb pc_bus 0x60 0x1 (outb pc_bus 0x64 0x60 ?init)"
  have m: "master ?d = master ?init" by (simp add: pc_simps)
  have init: "phase (master ?init) = Ready" "vector_base (master ?init) = 0x20" "in_service (master ?init) = 0"
    by (simp_all add: pic_init_chips chip_init_effect)
  have ready: "phase (master ?d) = Ready" using m init(1) by (rule ssubst)
  obtain d' where d': "irq_clear_mask pc_bus 1 ?d = ret d'" "d' = outb pc_bus 0x21 (mask_reg (master d')) ?d"
    "\<forall>i < 8. bit (mask_reg (master d')) i \<longleftrightarrow> i \<noteq> unat (1 :: u8) \<and> bit (mask_reg (master ?d)) i"
    using master.clear_mask [OF ready, of 1] by auto
  define x where "x = mask_reg (master d')"
  have "d' = outb pc_bus 0x21 x ?d" using d'(2) unfolding x_def .
  then have "master d' = chip_data x (master ?d)" by (simp only: chip_of_out)
  also have "\<dots> = chip_data x (master ?init)" by (rule arg_cong [OF m])
  also have "\<dots> = (master ?init)\<lparr>mask_reg := x\<rparr>" using init(1) by (simp add: chip_data_def)
  finally have "phase (master d') = Ready" "vector_base (master d') = 0x20" "in_service (master d') = 0"
    using init by simp_all
  then show ?thesis
    using d'(1,3) by (simp add: start_interrupts_def pic_enable_interrupts_def pic_start_interrupts_def Let_def)
qed

lemma installed_vectors:
  assumes "layout_ok lk" "tables s = default_routine lk rt m" "start_interrupts pc_bus lk rt (start_screen s) = ret s1" "v < 256"
  shows "interrupt_target lk (tables (install_drivers lk rt s1)) v = Some (vector_routine rt v)"
proof -
  let ?s = "start_screen s" and ?d = "if v = 0x20 then i_ok_timer rt else i_ok rt"
  have t: "tables ?s = setup_interrupt_handlers lk (i_ok rt) (i_ok_timer rt) m"
    using assms(2) by (simp add: start_screen_def default_routine_def)
  have small: "\<forall>(i, h) \<in> set (installations rt). unat i < 256"
    using exception_numbers_small by (auto simp: installations_def)
  have "interrupt_target lk (tables ?s) v = Some ?d"
    unfolding t by (rule setup_targets [OF assms(1,4)])
  then have "interrupt_target lk (tables (install_drivers lk rt s1)) v =
      (case map_of (rev (installations rt)) (of_nat v) of Some h \<Rightarrow> Some h | None \<Rightarrow> Some ?d)"
    unfolding kernel_tables [OF assms(3)] by (rule install_targets [OF assms(1) small assms(4)])
  also have "\<dots> = Some (vector_routine rt v)"
    unfolding installed_key [OF assms(4)] by (simp add: vector_routine_def split: option.splits)
  finally show ?thesis .
qed

section \<open>Properties\<close>

text \<open>C11. Started on the tables of the boot code, the kernel's first steps return, and from then on every
  interrupt vector reaches, through its gate and shim, the routine meant for it: the twenty
  exceptions their handlers, the timer and the keyboard theirs, and all others the default.\<close>

theorem kernel_vectors:
  assumes "layout_ok lk" "tables s = default_routine lk rt m" "v < 256"
  shows "\<exists>s1. start_interrupts pc_bus lk rt (start_screen s) = ret s1 \<and>
    interrupt_target lk (tables (install_drivers lk rt s1)) v = Some (vector_routine rt v)"
  using start_interrupts_pc [of lk rt "start_screen s"] installed_vectors [OF assms(1,2) _ assms(3)] by blast

text \<open>A layout at 2 MiB, with shims 64 bytes apart and handlers above them.\<close>

definition sample_layout :: layout where
  "sample_layout = \<lparr>interrupt_functions = 0x200000, shim_addr = (\<lambda>v. 0x210000 + 64 * of_nat v)\<rparr>"

definition sample_routines :: routines where
  "sample_routines = \<lparr>i_ok = 0x220000, i_ok_timer = 0x220010, timer_print_addr = 0x220020,
     keyboard_interrupt_addr = 0x220030, exception_addr = (\<lambda>i. 0x230000 + 16 * ucast (ex_code i))\<rparr>"

definition sample_kernel :: "pc kernel" where
  "sample_kernel = \<lparr>devices = power_on, interrupts_on = False, tables = default_routine sample_layout sample_routines no_memory,
     keyboard_state = keyboard_start, mach = sample_machine 0, boot = no_boot_data, heap = fresh_heap\<rparr>"

lemma sample_layout_ok: "layout_ok sample_layout"
  by (simp add: layout_ok_def sample_layout_def)

theorem kernel_vectors_witness:
  "\<exists>s1. start_interrupts pc_bus sample_layout sample_routines (start_screen sample_kernel) = ret s1 \<and>
     interrupt_target sample_layout (tables (install_drivers sample_layout sample_routines s1)) 14 = Some 0x2300E0"
proof -
  have "vector_routine sample_routines 14 = 0x2300E0"
    by (simp add: vector_routine_def exception_order_def sample_routines_def)
  then show ?thesis
    using kernel_vectors [OF sample_layout_ok, of sample_kernel sample_routines no_memory 14]
    by (simp add: sample_kernel_def)
qed

text \<open>C36. When \<open>kernel_main\<close> has switched interrupts on and opened the keyboard's line, the keyboard's
  vector still leads to the default routine, which halts with interrupts off: a key pressed
  before the handler is installed stops the kernel.\<close>

theorem early_key_halts:
  assumes "layout_ok lk" "tables s = default_routine lk rt m"
  shows "\<exists>s1 c. start_interrupts pc_bus lk rt (start_screen s) = ret s1 \<and> interrupts_on s1 \<and>
    chip_accept 1 (master (devices s1)) = Some c \<and>
    interrupt_target lk (tables s1) (unat (vector_base (master (devices s1))) + 1) = Some (i_ok rt)"
proof -
  let ?s = "start_screen s"
  have t: "tables ?s = setup_interrupt_handlers lk (i_ok rt) (i_ok_timer rt) m"
    using assms(2) by (simp add: start_screen_def default_routine_def)
  obtain s1 where s1: "start_interrupts pc_bus lk rt ?s = ret s1" "interrupts_on s1"
    "tables s1 = init_exception_handlers lk (exception_addr rt) (tables ?s)" "phase (master (devices s1)) = Ready"
    "vector_base (master (devices s1)) = 0x20" "in_service (master (devices s1)) = 0"
    "\<not> bit (mask_reg (master (devices s1))) 1"
    using start_interrupts_pc [where lk = lk and rt = rt and s = ?s] by blast
  have acc: "\<exists>c. chip_accept 1 (master (devices s1)) = Some c"
    using s1(4,6,7) by (simp add: chip_accept_def)
  have none: "map_of (rev (map (\<lambda>i. (ex_code i, exception_addr rt i)) exception_order)) 0x21 = None"
  proof -
    have "(0x21 :: u16) \<notin> ex_code ` set exception_order"
    proof
      assume "(0x21 :: u16) \<in> ex_code ` set exception_order"
      then obtain i where "ex_code i = 0x21" by auto
      then show False using ex_code_range [of i] by simp
    qed
    then show ?thesis by (simp add: map_of_eq_None_iff image_image)
  qed
  have small: "\<forall>(i, h) \<in> set (map (\<lambda>i. (ex_code i, exception_addr rt i)) exception_order). unat i < 256"
    using exception_numbers_small by auto
  have "interrupt_target lk (tables ?s) 0x21 = Some (i_ok rt)"
    unfolding t using setup_targets [OF assms(1), where v = "0x21"] by simp
  then have "interrupt_target lk (tables s1) 0x21 = Some (i_ok rt)"
    using install_targets [OF assms(1) small, where v = "0x21" and m = "tables ?s" and a = "i_ok rt"] none
    by (simp add: s1(3) init_exception_install)
  then show ?thesis using s1(1,2,5) acc by auto
qed

theorem early_key_halts_witness:
  "\<exists>s1. start_interrupts pc_bus sample_layout sample_routines (start_screen sample_kernel) = ret s1 \<and> interrupts_on s1 \<and>
     interrupt_target sample_layout (tables s1) (unat (vector_base (master (devices s1))) + 1) = Some 0x220000"
  using early_key_halts [OF sample_layout_ok, of sample_kernel sample_routines no_memory]
  by (auto simp: sample_kernel_def sample_routines_def)

end
