(* ===== verification/Bring_Up.thy ===== *)
theory Bring_Up
  imports Kernel
begin

text \<open>
  The kernel's way from its entry to the loop it ends in: the boot information is parsed, the
  frame allocator started, the page tables replaced and the heap mapped, each step on the state
  the one before it leaves.
\<close>

section \<open>Memory\<close>

lemma ready_tty:
  "remap_ready bi d (s\<lparr>tty := t\<rparr>) = remap_ready bi d s"
  "enable_no_exec (s\<lparr>tty := t\<rparr>) = (enable_no_exec s)\<lparr>tty := t\<rparr>"
  by (simp_all add: remap_ready_def enable_no_exec_def)

text \<open>The tables of the boot information and the pages that follow from them.\<close>

definition boot_tables :: "mem \<Rightarrow> u64 \<Rightarrow> u64 list \<Rightarrow> multiboot_state \<Rightarrow> multiboot_data" where
  "boot_tables bi p ps b = \<lparr>md_start = p, md_memory_map = last_tag bi 6 ps (md_memory_map (data b)),
     md_elf_symbols = last_tag bi 9 ps (md_elf_symbols (data b))\<rparr>"

definition kernel_space :: "page set \<Rightarrow> (nat \<Rightarrow> frame) \<Rightarrow> u64 \<Rightarrow> u64 option" where
  "kernel_space P fr v =
     (if in_heap v 1 then Some (get_frame_start_addr (fr ((unat v - unat heap_start_addr) div 4096)) + v mod PAGE_SIZE)
      else if v div PAGE_SIZE \<in> P then Some v else None)"

lemma start_memory_ok:
  assumes boot: "tag_chain bi ((p + 8) # ps)" "\<forall>q \<in> set ((p + 8) # ps). printable_tag bi q"
    "symbols_printable bi lit (last_tag bi 9 ((p + 8) # ps) (symbols (boot s)))"
    and al: "init_allocator bi p (boot_tables bi p ((p + 8) # ps) (boot s)) = ret al"
    and ready: "remap_ready bi (boot_tables bi p ((p + 8) # ps) (boot s)) (enable_no_exec ((mach s)\<lparr>frames := al\<rparr>))"
    and pool: "35 + 3 * kernel_calls bi (boot_tables bi p ((p + 8) # ps) (boot s)) \<le> card (frame_pool bi al)"
  defines "d \<equiv> boot_tables bi p ((p + 8) # ps) (boot s)"
  shows "\<exists>s' fr. start_memory bi lit p g s = ret s' \<and> data (boot s') = d \<and> heap_rel (heap s') initial \<and>
    paging_ok bi (mach s') \<and> inj_on fr {..<25} \<and> devices s' = devices s \<and> interrupts_on s' = interrupts_on s \<and>
    tables s' = tables s \<and> keyboard_state s' = keyboard_state s \<and>
    (\<forall>v. hmapped (heap s') v \<longleftrightarrow> mmu (mach s') v \<noteq> None) \<and>
    (\<forall>v. index 4 v \<noteq> 511 \<longrightarrow>
       mmu (mach s') v = kernel_space (kernel_pages bi d - {get_frame_for_addr (cr3 (mach s))}) fr v)"
proof -
  obtain b t where b: "init_multiboot_data bi lit p (boot s, tty (mach s)) = ret (b, t)" "start b = p" "data b = d"
    using init_multiboot_ret [OF boot] unfolding d_def boot_tables_def by blast
  let ?m0 = "(mach s)\<lparr>frames := al, tty := t\<rparr>"
  have m0: "enable_no_exec ?m0 = (enable_no_exec ((mach s)\<lparr>frames := al\<rparr>))\<lparr>tty := t\<rparr>"
    using ready_tty(2) [where s = "(mach s)\<lparr>frames := al\<rparr>" and t = t] by simp
  have "remap_ready bi d (enable_no_exec ?m0)" using ready unfolding m0 ready_tty(1) d_def .
  from remap_kernel_steps [OF this, of g] obtain m1 where m1: "remap_kernel bi d g ?m0 = ret m1" "paging_ok bi m1"
    "\<forall>v. index 4 v \<noteq> 511 \<longrightarrow> way_clear m1 v" "card (frame_pool bi al) \<le> card (frame_pool bi (frames m1)) + 7 + 3 * kernel_calls bi d"
    "\<forall>v. v div PAGE_SIZE = get_frame_for_addr (cr3 (mach s)) \<longrightarrow> mmu m1 v = None"
    "\<forall>v. index 4 v \<noteq> 511 \<longrightarrow> v div PAGE_SIZE \<noteq> get_frame_for_addr (cr3 (mach s)) \<longrightarrow>
       mmu m1 v = (if v div PAGE_SIZE \<in> kernel_pages bi d then Some v else None)"
    by auto
  have "unat heap_start_addr < 2 ^ 47" by (simp add: heap_start_addr_def)
  then have way: "way_clear m1 heap_start_addr" using m1(3) low_address(2) by blast
  have card: "28 \<le> card (frame_pool bi (frames m1))" using m1(4) pool unfolding d_def by linarith
  obtain m2 h fr where m2: "init_heap bi m1 = ret (m2, h)" "heap_rel h initial" "paging_ok bi m2" "inj_on fr {..<25}"
    "\<forall>w. hmapped h w \<longleftrightarrow> mmu m2 w \<noteq> None"
    "\<forall>w. in_heap w 1 \<longrightarrow> mmu m2 w = Some (get_frame_start_addr (fr ((unat w - unat heap_start_addr) div 4096)) + w mod PAGE_SIZE)"
    "\<forall>w. index 4 w \<noteq> 511 \<longrightarrow> \<not> in_heap w 1 \<longrightarrow> mmu m2 w = mmu m1 w"
    using init_heap_state [OF m1(2) way card] by blast
  let ?s' = "s\<lparr>mach := m2, boot := b, heap := h\<rparr>"
  have "start_memory bi lit p g s = ret ?s'"
    unfolding start_memory_def b(1) obind_simps prod.case b(2,3) al [folded d_def] m1(1) m2(1) ..
  moreover have "mmu m2 v = kernel_space (kernel_pages bi d - {get_frame_for_addr (cr3 (mach s))}) fr v" if "index 4 v \<noteq> 511" for v
    using m2(6,7) m1(5,6) that by (auto simp: kernel_space_def)
  ultimately show ?thesis using b(3) m2(2-5) by (intro exI [of _ ?s'] exI [of _ fr]) simp
qed


section \<open>Properties\<close>

text \<open>
  What the boot loader must have left for the kernel to come up: a chain of tags whose texts can
  be printed, an allocator that starts on them, page tables ready to be replaced, and enough
  memory.
\<close>

definition boot_ready :: "mem \<Rightarrow> (nat \<Rightarrow> u64) \<Rightarrow> u64 \<Rightarrow> u64 list \<Rightarrow> 'd kernel \<Rightarrow> bool" where
  "boot_ready bi lit p ps s \<longleftrightarrow>
     (let d = boot_tables bi p ((p + 8) # ps) (boot s)
      in tag_chain bi ((p + 8) # ps) \<and> (\<forall>q \<in> set ((p + 8) # ps). printable_tag bi q) \<and>
         symbols_printable bi lit (last_tag bi 9 ((p + 8) # ps) (symbols (boot s))) \<and>
         (\<exists>al. init_allocator bi p d = ret al \<and> remap_ready bi d (enable_no_exec ((mach s)\<lparr>frames := al\<rparr>)) \<and>
            35 + 3 * kernel_calls bi d \<le> card (frame_pool bi al)))"

lemma start_interrupts_keeps:
  assumes "start_interrupts bus lk rt s = ret s1"
  shows "mach s1 = mach s" "boot s1 = boot s"
  using assms by (auto simp: start_interrupts_def obind_eq_ret)

lemma install_drivers_keeps:
  "mach (install_drivers lk rt s) = mach s" "boot (install_drivers lk rt s) = boot s"
  "interrupts_on (install_drivers lk rt s) = interrupts_on s" "devices (install_drivers lk rt s) = devices s"
  "keyboard_state (install_drivers lk rt s) = keyboard_init (keyboard_state s)"
  by (simp_all add: install_drivers_def Let_def)

lemma kernel_start_state:
  assumes "boot_ready bi lit p ps s"
  shows "\<exists>s1 s' fr. start_interrupts pc_bus lk rt (start_screen s) = ret s1 \<and> kernel_start pc_bus lk rt bi lit p g s = ret s' \<and>
    interrupts_on s' \<and> data (boot s') = boot_tables bi p ((p + 8) # ps) (boot s) \<and>
    heap_rel (heap s') initial \<and> paging_ok bi (mach s') \<and> inj_on fr {..<25} \<and>
    (\<forall>v. index 4 v \<noteq> 511 \<longrightarrow> mmu (mach s') v =
       kernel_space (kernel_pages bi (data (boot s')) - {get_frame_for_addr (cr3 (mach s))}) fr v) \<and>
    devices s' = devices s1 \<and> tables s' = tables (install_drivers lk rt s1) \<and>
    keyboard_state s' = keyboard_state (install_drivers lk rt s1) \<and>
    (\<forall>v. hmapped (heap s') v \<longleftrightarrow> mmu (mach s') v \<noteq> None)"
proof -
  let ?d = "boot_tables bi p ((p + 8) # ps) (boot s)"
  obtain al where b: "tag_chain bi ((p + 8) # ps)" "\<forall>q \<in> set ((p + 8) # ps). printable_tag bi q"
    "symbols_printable bi lit (last_tag bi 9 ((p + 8) # ps) (symbols (boot s)))" "init_allocator bi p ?d = ret al"
    "remap_ready bi ?d (enable_no_exec ((mach s)\<lparr>frames := al\<rparr>))" "35 + 3 * kernel_calls bi ?d \<le> card (frame_pool bi al)"
    using assms unfolding boot_ready_def Let_def by blast
  obtain s1 where s1: "start_interrupts pc_bus lk rt (start_screen s) = ret s1" "interrupts_on s1"
    using start_interrupts_pc [where lk = lk and rt = rt and s = "start_screen s"] by blast
  let ?s2 = "install_drivers lk rt s1" and ?t = "init_terminal (tty (mach s))"
  have s2: "mach ?s2 = (mach s)\<lparr>tty := ?t\<rparr>" "boot ?s2 = boot s" "interrupts_on ?s2"
    using start_interrupts_keeps [OF s1(1)] s1(2) by (simp_all add: install_drivers_keeps start_screen_def)
  have m: "enable_no_exec ((mach ?s2)\<lparr>frames := al\<rparr>) = (enable_no_exec ((mach s)\<lparr>frames := al\<rparr>))\<lparr>tty := ?t\<rparr>"
    by (simp add: s2(1) enable_no_exec_def)
  obtain s' fr where s': "start_memory bi lit p g ?s2 = ret s'" "data (boot s') = ?d" "heap_rel (heap s') initial"
    "paging_ok bi (mach s')" "inj_on fr {..<25}" "interrupts_on s' = interrupts_on ?s2"
    "devices s' = devices ?s2" "tables s' = tables ?s2" "keyboard_state s' = keyboard_state ?s2"
    "\<forall>v. hmapped (heap s') v \<longleftrightarrow> mmu (mach s') v \<noteq> None"
    "\<forall>v. index 4 v \<noteq> 511 \<longrightarrow> mmu (mach s') v = kernel_space (kernel_pages bi ?d - {get_frame_for_addr (cr3 (mach ?s2))}) fr v"
    using start_memory_ok [of bi p ps lit ?s2 al g] b unfolding s2(2) m ready_tty by blast
  have "kernel_start pc_bus lk rt bi lit p g s = ret s'"
    unfolding kernel_start_def s1(1) obind_simps by (rule s'(1))
  then show ?thesis
    using s'(2-11) s1(1) s2 by (intro exI [of _ s1] exI [of _ s'] exI [of _ fr]) (simp add: install_drivers_keeps)
qed

text \<open>From a machine the boot loader prepared, the kernel comes up: all its initialisation returns,
  interrupts are on, the heap is empty and ready on 25 different frames, and the processor
  translates the kernel's pages to themselves, the heap to its frames and nothing else outside
  the recursive region; \<open>kernel_main\<close> itself never returns.\<close>

theorem kernel_comes_up:
  assumes "boot_ready bi lit p ps s"
  shows "\<exists>s' fr. kernel_start pc_bus lk rt bi lit p g s = ret s' \<and> kernel_main pc_bus lk rt bi lit p g s = None \<and>
    interrupts_on s' \<and> data (boot s') = boot_tables bi p ((p + 8) # ps) (boot s) \<and>
    heap_rel (heap s') initial \<and> paging_ok bi (mach s') \<and> inj_on fr {..<25} \<and>
    (\<forall>v. index 4 v \<noteq> 511 \<longrightarrow> mmu (mach s') v =
       kernel_space (kernel_pages bi (data (boot s')) - {get_frame_for_addr (cr3 (mach s))}) fr v)"
  using kernel_start_state [OF assms, of lk rt g] unfolding kernel_main_def by (auto simp: obind_simps)

definition bare_kernel :: "pc kernel" where
  "bare_kernel = sample_kernel\<lparr>mach := bare_machine 0x2000\<rparr>"

lemma sample_tags:
  "tag_type (tag_at sample_image 0x1008) = 6" "tag_type (tag_at sample_image 0x1030) = 9"
  "tag_type (tag_at sample_image 0x1088) = 0" "tag_size (tag_at sample_image 0x1008) = 40" "tag_size (tag_at sample_image 0x1030) = 84"
  by (simp_all add: sample_image_def tag_at_def load_eval)

lemma sample_last_tags:
  "last_tag sample_image 6 [0x1008, 0x1030, 0x1088] x = 0x1008" "last_tag sample_image 9 [0x1008, 0x1030, 0x1088] x = 0x1030"
  using sample_tags by (simp_all add: last_tag_def)

lemma sample_boot_tables: "boot_tables sample_image 0x1000 [0x1008, 0x1030, 0x1088] (boot bare_kernel) = sample_tables"
  by (simp add: boot_tables_def sample_last_tags sample_tables_def)

lemma bare_boot_ready: "boot_ready sample_image (\<lambda>_. 0) 0x1000 [0x1030, 0x1088] bare_kernel"
proof -
  let ?ps = "[0x1008, 0x1030, 0x1088]"
  have chain: "tag_chain sample_image ?ps" using sample_tags by (simp add: find_next_tag_address_def)
  have print: "\<forall>q \<in> set ?ps. printable_tag sample_image q"
    using sample_tags sample_facts(2) by (simp add: printable_tag_def)
  have "stored_string sample_image 0 []" "stored_string sample_image 0x2000 []"
    by (simp_all add: sample_image_def bytes_mem_def le32_def le64_def)
  moreover have "sh_addr (section_string_table sample_image 0x1030) = 0x2000" "elf_entsize sample_image 0x1030 = 64"
    "sh_name (section_header_at sample_image 0x1044) = 0"
    by (simp_all add: section_string_table_def elf_shndx_def elf_entsize_def section_header_at_def sample_image_def load_eval)
  moreover have "as_int 0 = 0" "as_int 0x2000 = 0x2000" by (simp_all add: as_int_def)
  ultimately have sym: "symbols_printable sample_image (\<lambda>_. 0) 0x1030"
    using sample_facts(3) by (auto simp: symbols_printable_def intro: exI [of _ "[]"])
  have m: "(mach bare_kernel)\<lparr>frames := sample_allocator\<rparr> = bare_machine 0x2000" "boot bare_kernel = no_boot_data"
    by (simp_all add: bare_kernel_def bare_machine_def sample_kernel_def)
  have d: "boot_tables sample_image 0x1000 ?ps no_boot_data = sample_tables"
    using sample_boot_tables m(2) by simp
  show ?thesis
    unfolding boot_ready_def m(2)
    using chain print sym sample_init bare_ready [of "0x2000"] sample_counts
    by (simp add: sample_last_tags d m(1))
qed

theorem kernel_comes_up_witness:
  "\<exists>s'. kernel_start pc_bus sample_layout sample_routines sample_image (\<lambda>_. 0) 0x1000 0 bare_kernel = ret s' \<and>
     heap_rel (heap s') initial \<and> mmu (mach s') 0x1010 = Some 0x1010"
proof -
  have d: "boot_tables sample_image 0x1000 [0x1008, 0x1030, 0x1088] (boot bare_kernel) = sample_tables"
    by (rule sample_boot_tables)
  have m: "get_frame_for_addr (cr3 (mach bare_kernel)) = 2"
    by (simp add: bare_kernel_def bare_machine_def get_frame_for_addr_def PAGE_SIZE_def)
  have a: "(0x1000 + 8 :: u64) = 0x1008" by simp
  obtain s' fr where s': "Kernel.kernel_start pc_bus sample_layout sample_routines sample_image (\<lambda>_. 0) 0x1000 0 bare_kernel = ret s'"
    "heap_rel (heap s') initial" "data (boot s') = sample_tables"
    "\<forall>v. index 4 v \<noteq> 511 \<longrightarrow> mmu (mach s') v = kernel_space (kernel_pages sample_image (data (boot s')) - {2}) fr v"
    using kernel_comes_up [OF bare_boot_ready, of sample_layout sample_routines 0] unfolding m a d
    by (elim exE conjE) (rule that; assumption)
  have "index 4 0x1010 \<noteq> 511" by (rule low_address(2)) simp
  moreover have "\<not> in_heap 0x1010 1" by (simp add: in_heap_def heap_numbers)
  ultimately have "mmu (mach s') 0x1010 = Some 0x1010"
    using s'(4) sample_kernel_pages(1) by (simp add: kernel_space_def s'(3) PAGE_SIZE_def)
  then show ?thesis using s'(1,2) by blast
qed

text \<open>A kernel image, with the boot information and the video memory, that ends below the heap.\<close>

definition image_below_heap :: "mem \<Rightarrow> multiboot_data \<Rightarrow> bool" where
  "image_below_heap bi d \<longleftrightarrow> (\<forall>p \<in> kernel_pages bi d. 4096 * unat p < heap_end)"

lemma kernel_space_behind:
  assumes "\<forall>v. index 4 v \<noteq> 511 \<longrightarrow> mmu s v = kernel_space P fr v" "\<forall>p \<in> P. 4096 * unat p < heap_end"
  shows "nothing_behind s"
  unfolding nothing_behind_def
proof (intro allI impI)
  fix v :: u64 assume v: "heap_end \<le> unat v" "unat v < 2 ^ 47"
  have "unat (v div PAGE_SIZE) = unat v div 4096" by (simp add: unat_div PAGE_SIZE_def)
  then have "heap_end \<le> 4096 * unat (v div PAGE_SIZE)" using v(1) by (simp add: heap_numbers)
  then have "v div PAGE_SIZE \<notin> P" using assms(2) by (metis leD)
  moreover have "\<not> in_heap v 1" using v(1) by (simp add: in_heap_def)
  ultimately show "mmu s v = None" using assms(1) low_index(2) [OF v(2)] by (simp add: kernel_space_def)
qed

text \<open>C3. The heap the kernel comes up with, when its image lies below the heap, keeps its blocks apart
  in every run of allocations and resizings of fewer than 2 ^ 63 bytes, frees of live blocks and
  writes into live blocks, in any order: the live blocks stay inside the heap, do not overlap,
  and their headers hold their sizes.\<close>

theorem heap_runs_sound:
  assumes "boot_ready bi lit p ps s" "image_below_heap bi (boot_tables bi p ((p + 8) # ps) (boot s))"
  shows "\<exists>s'. kernel_start pc_bus lk rt bi lit p g s = ret s' \<and> unmapped_behind (heap s') \<and>
    (\<forall>h L. rtranclp heap_step (heap s', {}) (h, L) \<longrightarrow> pairwise apart L \<and>
       (\<forall>b \<in> L. unat heap_start_addr \<le> unat (fst b) \<and> unat (fst b) + 16 + unat (snd b) \<le> heap_end \<and>
          sz_of (hmem h) (fst b) = snd b))"
proof -
  obtain s' fr where s': "kernel_start pc_bus lk rt bi lit p g s = ret s'" "data (boot s') = boot_tables bi p ((p + 8) # ps) (boot s)"
    "heap_rel (heap s') initial" "\<forall>v. hmapped (heap s') v \<longleftrightarrow> mmu (mach s') v \<noteq> None"
    "\<forall>v. index 4 v \<noteq> 511 \<longrightarrow> mmu (mach s') v =
       kernel_space (kernel_pages bi (data (boot s')) - {get_frame_for_addr (cr3 (mach s))}) fr v"
    using kernel_start_state [OF assms(1), of lk rt g] by blast
  have "nothing_behind (mach s')"
    by (rule kernel_space_behind [OF s'(5)]) (use assms(2) in \<open>simp add: s'(2) image_below_heap_def\<close>)
  then have behind: "unmapped_behind (heap s')" using nothing_behind_unmapped s'(4) by blast
  show ?thesis
    using s'(1) behind heap_run_apart [OF _ s'(3) behind] by (intro exI [of _ s']) (simp add: extent_def add.assoc)
qed

lemma sample_below_heap: "image_below_heap sample_image sample_tables"
  unfolding image_below_heap_def
proof
  fix p assume "p \<in> kernel_pages sample_image sample_tables"
  then consider "p = 0xb8" | x where "p = x div PAGE_SIZE" "x < 0x2FFF" | k :: nat where "p = (0x1000 + 4096 * of_nat k :: u64) div PAGE_SIZE" "4096 * k \<le> 0x500"
    by (auto simp: kernel_pages_def sample_sections section_pages_def boot_pages_def split: if_splits) (auto simp: sample_tables_def)
  then show "4096 * unat p < heap_end"
  proof cases
    case (2 x)
    then show ?thesis by (simp add: heap_numbers PAGE_SIZE_def unat_div word_less_nat_alt)
  next
    case (3 k)
    then have "k = 0" by simp
    then show ?thesis using 3(1) by (simp add: heap_numbers PAGE_SIZE_def)
  qed (simp add: heap_numbers)
qed

theorem heap_runs_sound_witness:
  "\<exists>s' h. kernel_start pc_bus sample_layout sample_routines sample_image (\<lambda>_. 0) 0x1000 0 bare_kernel = ret s' \<and>
     rtranclp heap_step (heap s', {}) (h, {first_block 24}) \<and> sz_of (hmem h) heap_start_addr = 24"
proof -
  have a: "(0x1000 + 8 :: u64) = 0x1008" by simp
  have below: "image_below_heap sample_image (boot_tables sample_image 0x1000 ((0x1000 + 8) # [0x1030, 0x1088]) (boot bare_kernel))"
    unfolding a sample_boot_tables by (rule sample_below_heap)
  obtain s' where s': "kernel_start pc_bus sample_layout sample_routines sample_image (\<lambda>_. 0) 0x1000 0 bare_kernel = ret s'"
    and run: "\<forall>h L. rtranclp heap_step (heap s', {}) (h, L) \<longrightarrow> (\<forall>b \<in> L. sz_of (hmem h) (fst b) = snd b)"
    using heap_runs_sound [OF bare_boot_ready below, of sample_layout sample_routines 0] by blast
  obtain s2 where s2: "kernel_start pc_bus sample_layout sample_routines sample_image (\<lambda>_. 0) 0x1000 0 bare_kernel = ret s2"
    "heap_rel (heap s2) initial"
    using kernel_start_state [OF bare_boot_ready, of sample_layout sample_routines 0] by blast
  have rel: "heap_rel (heap s') initial" using s' s2 by (simp add: ret_def)
  obtain h where h: "kmalloc 24 (heap s') = ret (heap_start_addr + 16, h)" "heap_rel h (after_first 24)"
    using kmalloc_spec [OF rel initial_alloc [of 24]] by (auto simp: first_block_def)
  have "block_at (heap_start_addr + 16) h = first_block 24"
    using block_at_live [OF h(2), of "first_block 24"] by (simp add: after_first_def first_block_def)
  then have step: "rtranclp heap_step (heap s', {}) (h, {first_block 24})"
    using heap_step.alloc [of 24 "heap s'" _ h "{}"] h(1) by auto
  then show ?thesis using run s' by (fastforce simp: first_block_def)
qed

end
