(* ===== verification/Running.thy ===== *)
theory Running
  imports Bring_Up
begin

text \<open>
  The kernel after its start: \<open>kernel_main\<close> loops, and all that happens are interrupts. An
  interrupt goes from the controller through the gate and the shim (src/arch/x86_64/boot64.s)
  to the routine in the table of handlers and back; the timer prints a T, the keyboard the
  pressed key. The result is stated against an abstract console, and composes the start, the
  tables, the controllers, the keyboard and the terminal.
\<close>

section \<open>Serving an interrupt\<close>

text \<open>
  The call of the shim: the routine at an address, and the value it returns. The default
  routine halts for ever, as interrupts are off in it.
\<close>

definition call_routine :: "mem \<Rightarrow> routines \<Rightarrow> u64 \<Rightarrow> pc kernel \<Rightarrow> (int \<times> pc kernel) out" where
  "call_routine bi rt a s =
     (if a = timer_print_addr rt then
        obind (timer_print bi (tty (mach s))) (\<lambda>(r, t). ret (r, s\<lparr>mach := (mach s)\<lparr>tty := t\<rparr>\<rparr>))
      else if a = keyboard_interrupt_addr rt then
        obind (keyboard_interrupt pc_bus (keyboard_state s, tty (mach s), devices s)) (\<lambda>(r, k, t, d).
          ret (r, s\<lparr>keyboard_state := k, mach := (mach s)\<lparr>tty := t\<rparr>, devices := d\<rparr>))
      else if a = i_ok_timer rt then ret (0, s)
      else None)"

text \<open>
  A line of the master controller is raised. If interrupts are off, the line is masked or
  something is in service, nothing happens now.
\<close>

definition serve_irq :: "mem \<Rightarrow> layout \<Rightarrow> routines \<Rightarrow> nat \<Rightarrow> pc kernel \<Rightarrow> pc kernel out" where
  "serve_irq bi lk rt n s =
     (case (if interrupts_on s then chip_accept n (master (devices s)) else None) of
        None \<Rightarrow> ret s
      | Some c \<Rightarrow>
          (case interrupt_target lk (tables s) (unat (vector_base c) + n) of
             None \<Rightarrow> fail Undefined_behaviour
           | Some a \<Rightarrow>
               obind (call_routine bi rt a (s\<lparr>devices := (devices s)\<lparr>master := c\<rparr>\<rparr>)) (\<lambda>(r, s1).
                 ret (s1\<lparr>devices := fst (shim_return pc_bus (of_int r) (devices s1, 0))\<rparr>))))"

section \<open>The console\<close>

text \<open>
  What a sequence of timer (0) and keyboard (1) interrupts should print, given whether the
  timer's line is open, whether the last byte announced a released key, and the bytes of the
  keyboard.
\<close>

fun console_text :: "bool \<Rightarrow> bool \<Rightarrow> nat list \<Rightarrow> u8 list \<Rightarrow> string" where
  "console_text clock rel [] bs = []"
| "console_text clock rel (n # ns) bs =
     (if n = 0 then (if clock then [CHR ''T''] else []) @ console_text clock rel ns bs
      else case bs of
        [] \<Rightarrow> []
      | b # bs' \<Rightarrow>
          if b = 0xF0 then console_text clock True ns bs'
          else if rel then console_text clock False ns bs'
          else (case key_char b of Some ch \<Rightarrow> [ch] | None \<Rightarrow> []) @ console_text clock False ns bs')"

text \<open>A kernel that serves the timer and the keyboard.\<close>

definition serving :: "layout \<Rightarrow> routines \<Rightarrow> pc kernel \<Rightarrow> bool" where
  "serving lk rt s \<longleftrightarrow> interrupts_on s \<and> timer_print_addr rt \<noteq> keyboard_interrupt_addr rt \<and>
     interrupt_target lk (tables s) 0x20 = Some (timer_print_addr rt) \<and>
     interrupt_target lk (tables s) 0x21 = Some (keyboard_interrupt_addr rt) \<and>
     phase (master (devices s)) = Ready \<and> vector_base (master (devices s)) = 0x20 \<and>
     in_service (master (devices s)) = 0 \<and> \<not> bit (mask_reg (master (devices s))) 1 \<and>
     ascii_key (keyboard_state s) = ascii_key (keyboard_init keyboard_start)"

definition clock_open :: "pc kernel \<Rightarrow> bool" where
  "clock_open s \<longleftrightarrow> \<not> bit (mask_reg (master (devices s))) 0"

text \<open>The text appears on the screen; the controllers, tables and memory are as before.\<close>

definition typed :: "string \<Rightarrow> u8 list \<Rightarrow> pc kernel \<Rightarrow> pc kernel \<Rightarrow> bool" where
  "typed txt bs s s' \<longleftrightarrow> tty (mach s') = fold terminal_print_char txt (tty (mach s)) \<and> keys (devices s') = bs \<and>
     mach s' = (mach s)\<lparr>tty := tty (mach s')\<rparr> \<and> tables s' = tables s \<and> interrupts_on s' = interrupts_on s \<and>
     master (devices s') = master (devices s) \<and> slave (devices s') = slave (devices s) \<and> boot s' = boot s \<and> heap s' = heap s \<and>
     ascii_key (keyboard_state s') = ascii_key (keyboard_state s)"

lemma typed_refl: "typed [] (keys (devices s)) s s"
  by (simp add: typed_def)

lemma typed_trans: "typed x bs s s' \<Longrightarrow> typed y bs' s' s'' \<Longrightarrow> typed (x @ y) bs' s s''"
  unfolding typed_def by (intro conjI) (elim conjE, simp)+

lemma typed_serving: "typed x bs s s' \<Longrightarrow> serving lk rt s \<Longrightarrow> serving lk rt s' \<and> clock_open s' = clock_open s"
  by (simp add: typed_def serving_def clock_open_def)

lemma timer_prints: "timer_print bi t = ret (0, terminal_print_char (CHR ''T'') t)"
proof -
  have "terminal_printf bi ''T'' [] t = ret (fold print_plain ''T'' t)"
    by (rule terminal_printf_plain) (simp add: plain_def)
  then show ?thesis by (simp add: timer_print_def print_plain_def terminal_print_char_def put_raw_def newline_def)
qed

lemma eoi_simps:
  "master (fst (shim_return pc_bus e (d, r))) = chip_command 0x20 (master d)"
  "slave (fst (shim_return pc_bus e (d, r))) = slave d" "keys (fst (shim_return pc_bus e (d, r))) = keys d"
  by (simp_all add: shim_return_def pc_simps)

lemma accept_line:
  assumes "serving lk rt s" "n < 2" "n = 0 \<longrightarrow> clock_open s"
  shows "\<exists>c. chip_accept n (master (devices s)) = Some c \<and> vector_base c = 0x20 \<and> chip_command 0x20 c = master (devices s)"
proof -
  let ?c = "(master (devices s))\<lparr>in_service := set_bit n (in_service (master (devices s)))\<rparr>"
  have "n = 0 \<or> n = 1" using assms(2) by linarith
  then have a: "chip_accept n (master (devices s)) = Some ?c"
    using assms(1,3) by (auto simp: serving_def clock_open_def chip_accept_def)
  then show ?thesis using accept_end [OF a] assms(1,2) by (intro exI [of _ ?c]) (simp add: serving_def)
qed

lemma serve_timer:
  assumes "serving lk rt s"
  shows "\<exists>s'. serve_irq bi lk rt 0 s = ret s' \<and> keyboard_state s' = keyboard_state s \<and>
    typed (if clock_open s then [CHR ''T''] else []) (keys (devices s)) s s'"
proof (cases "clock_open s")
  case True
  obtain c where c: "chip_accept 0 (master (devices s)) = Some c" "vector_base c = 0x20" "chip_command 0x20 c = master (devices s)"
    using accept_line [OF assms, of 0] True by auto
  show ?thesis
    using assms c True by (simp add: serve_irq_def serving_def call_routine_def timer_prints typed_def eoi_simps)
next
  case False
  then have "chip_accept 0 (master (devices s)) = None" by (simp add: chip_accept_def clock_open_def)
  then show ?thesis using False by (simp add: serve_irq_def typed_refl)
qed

lemma serve_key:
  assumes "serving lk rt s" "keys (devices s) = b # bs" "b = 0xF0 \<or> unat b < 0x90"
  shows "\<exists>s'. serve_irq bi lk rt 1 s = ret s' \<and> keyboard_key_released (keyboard_state s') = (b = 0xF0) \<and>
    typed (if b = 0xF0 \<or> keyboard_key_released (keyboard_state s) then [] else event_text (Press b)) bs s s'"
proof -
  obtain c where c: "chip_accept 1 (master (devices s)) = Some c" "vector_base c = 0x20" "chip_command 0x20 c = master (devices s)"
    using accept_line [OF assms(1), of 1] by auto
  let ?k = "keyboard_state s" and ?d = "(devices s)\<lparr>master := c\<rparr>"
  let ?t = "if b = 0xF0 \<or> keyboard_key_released ?k then tty (mach s) else fold terminal_print_char (event_text (Press b)) (tty (mach s))"
  have k: "keyboard_interrupt pc_bus (?k, tty (mach s), ?d) =
      ret (0, ?k\<lparr>keyboard_key_released := (b = 0xF0)\<rparr>, ?t, ?d\<lparr>keys := bs\<rparr>)"
  proof (cases "b = 0xF0 \<or> keyboard_key_released ?k")
    case True
    then show ?thesis using assms(2) by (auto simp: keyboard_interrupt_def read_key key_relased_code_def Let_def)
  next
    case False
    then have "keyboard_ready ?k" "?k\<lparr>keyboard_key_released := False\<rparr> = ?k"
      using assms(1) by (simp_all add: keyboard_ready_def serving_def)
    then show ?thesis using press_step [of ?k b ?d bs "tty (mach s)"] assms(2,3) False by simp
  qed
  show ?thesis
    using assms(1) c by (auto simp: serve_irq_def serving_def call_routine_def k typed_def eoi_simps)
qed

lemma serve_interrupts:
  assumes "serving lk rt s" "set ns \<subseteq> {0, 1}" "count_list ns 1 \<le> length (keys (devices s))"
    and "\<forall>b \<in> set (keys (devices s)). b = 0xF0 \<or> unat b < 0x90"
  shows "\<exists>s'. foldM (serve_irq bi lk rt) ns s = ret s' \<and>
    typed (console_text (clock_open s) (keyboard_key_released (keyboard_state s)) ns (keys (devices s)))
      (drop (count_list ns 1) (keys (devices s))) s s'"
  using assms
proof (induction ns arbitrary: s)
  case Nil
  then show ?case by (simp add: typed_refl)
next
  case (Cons n ns)
  show ?case
  proof (cases "n = 0")
    case True
    obtain s1 where s1: "serve_irq bi lk rt 0 s = ret s1" "keyboard_state s1 = keyboard_state s"
      "typed (if clock_open s then [CHR ''T''] else []) (keys (devices s)) s s1"
      using serve_timer [OF Cons.prems(1)] by blast
    have keys: "keys (devices s1) = keys (devices s)" using s1(3) by (simp add: typed_def)
    note serving = typed_serving [OF s1(3) Cons.prems(1)]
    obtain s2 where "foldM (serve_irq bi lk rt) ns s1 = ret s2"
      "typed (console_text (clock_open s) (keyboard_key_released (keyboard_state s)) ns (keys (devices s)))
        (drop (count_list ns 1) (keys (devices s))) s1 s2"
      using Cons.IH [of s1] serving Cons.prems(2-4) True s1(2) keys by auto
    then show ?thesis using s1(1) typed_trans [OF s1(3)] True by auto
  next
    case False
    then have n: "n = 1" using Cons.prems(2) by simp
    then obtain b bs where b: "keys (devices s) = b # bs"
      using Cons.prems(3) by (cases "keys (devices s)") simp_all
    obtain s1 where s1: "serve_irq bi lk rt 1 s = ret s1" "keyboard_key_released (keyboard_state s1) = (b = 0xF0)"
      "typed (if b = 0xF0 \<or> keyboard_key_released (keyboard_state s) then [] else event_text (Press b)) bs s s1"
      using serve_key [OF Cons.prems(1) b] Cons.prems(4) b by auto
    have keys: "keys (devices s1) = bs" using s1(3) by (simp add: typed_def)
    note serving = typed_serving [OF s1(3) Cons.prems(1)]
    obtain s2 where "foldM (serve_irq bi lk rt) ns s1 = ret s2"
      "typed (console_text (clock_open s) (b = 0xF0) ns bs) (drop (count_list ns 1) bs) s1 s2"
      using Cons.IH [of s1] serving Cons.prems(2-4) n b s1(2) keys by auto
    then show ?thesis using s1(1) typed_trans [OF s1(3)] n b by auto
  qed
qed

section \<open>Properties\<close>

lemma started_serving:
  assumes "boot_ready bi lit p ps s" "layout_ok lk" "tables s = default_routine lk rt m" "keyboard_state s = keyboard_start"
    and "timer_print_addr rt \<noteq> keyboard_interrupt_addr rt"
  shows "\<exists>s'. kernel_start pc_bus lk rt bi lit p g s = ret s' \<and> serving lk rt s' \<and> \<not> keyboard_key_released (keyboard_state s')"
proof -
  obtain s1 s' where s': "start_interrupts pc_bus lk rt (start_screen s) = ret s1" "kernel_start pc_bus lk rt bi lit p g s = ret s'"
    "interrupts_on s'" "devices s' = devices s1" "tables s' = tables (install_drivers lk rt s1)"
    "keyboard_state s' = keyboard_state (install_drivers lk rt s1)"
    using kernel_start_state [OF assms(1), of lk rt g] by blast
  have chip: "phase (master (devices s1)) = Ready" "vector_base (master (devices s1)) = 0x20"
    "in_service (master (devices s1)) = 0" "\<not> bit (mask_reg (master (devices s1))) 1"
    using start_interrupts_pc [of lk rt "start_screen s"] s'(1) by (auto simp: ret_def)
  have "keyboard_state s1 = keyboard_start"
    using s'(1) assms(4) by (auto simp: start_interrupts_def obind_eq_ret start_screen_def)
  then have kb: "keyboard_state s' = keyboard_init keyboard_start" using s'(6) by (simp add: install_drivers_keeps)
  have "interrupt_target lk (tables s') 0x20 = Some (timer_print_addr rt)"
    "interrupt_target lk (tables s') 0x21 = Some (keyboard_interrupt_addr rt)"
    using installed_vectors [OF assms(2,3) s'(1), of "0x20"] installed_vectors [OF assms(2,3) s'(1), of "0x21"] s'(5)
    by (simp_all add: vector_routine_def)
  then show ?thesis
    using s' chip kb keyboard_start_ready assms(5) by (intro exI [of _ s']) (simp add: serving_def keyboard_ready_def)
qed

definition key_in :: "u8 list \<Rightarrow> pc kernel \<Rightarrow> pc kernel" where
  "key_in bs s = s\<lparr>devices := (devices s)\<lparr>keys := bs\<rparr>\<rparr>"

text \<open>C2. Once started, the kernel is a console: whatever bytes the keyboard then delivers and however the
  timer's and the keyboard's interrupts alternate, every interrupt reaches its routine and is
  acknowledged; the screen shows, in the order of the interrupts, a T for each tick of an open
  timer line and the character of each pressed key, nothing for released keys; the page tables,
  the heap and the interrupt tables stay as they are. The codes must lie inside the table of keys.\<close>

theorem kernel_is_console:
  assumes "boot_ready bi lit p ps s" "layout_ok lk" "tables s = default_routine lk rt m" "keyboard_state s = keyboard_start"
    and "timer_print_addr rt \<noteq> keyboard_interrupt_addr rt"
    and "set ns \<subseteq> {0, 1}" "count_list ns 1 = length bs" "\<forall>b \<in> set bs. b = 0xF0 \<or> unat b < 0x90"
  shows "\<exists>s1 s2. kernel_start pc_bus lk rt bi lit p g s = ret s1 \<and> foldM (serve_irq bi lk rt) ns (key_in bs s1) = ret s2 \<and>
    tty (mach s2) = fold terminal_print_char (console_text (clock_open s1) False ns bs) (tty (mach s1)) \<and>
    keys (devices s2) = [] \<and> master (devices s2) = master (devices s1) \<and> mmu (mach s2) = mmu (mach s1) \<and>
    heap s2 = heap s1 \<and> tables s2 = tables s1"
proof -
  obtain s1 where s1: "kernel_start pc_bus lk rt bi lit p g s = ret s1" "serving lk rt s1" "\<not> keyboard_key_released (keyboard_state s1)"
    using started_serving [OF assms(1-5)] by blast
  let ?s = "key_in bs s1"
  have views: "serving lk rt ?s" "clock_open ?s = clock_open s1" "keys (devices ?s) = bs" "keyboard_state ?s = keyboard_state s1"
    "mach ?s = mach s1" "heap ?s = heap s1" "tables ?s = tables s1" "master (devices ?s) = master (devices s1)"
    using s1(2) by (simp_all add: key_in_def serving_def clock_open_def)
  obtain s2 where s2: "foldM (serve_irq bi lk rt) ns ?s = ret s2" "typed (console_text (clock_open s1) False ns bs) [] ?s s2"
    using serve_interrupts [OF views(1) assms(6), of bi] assms(7,8) s1(3) unfolding views(2-4) by auto
  have mach: "mach s2 = (mach s1)\<lparr>tty := tty (mach s2)\<rparr>" using s2(2) unfolding typed_def views(5) by blast
  have "mmu (mach s2) = mmu (mach s1)"
    by (subst mach) (simp add: mmu_def fun_eq_iff nx_enabled_def root_def)
  then show ?thesis
    using s1(1) s2 views by (intro exI [of _ s1] exI [of _ s2]) (simp add: typed_def)
qed

text \<open>A tick, H pressed and released around another tick, then I, with the timer's line open.\<close>

theorem kernel_is_console_witness:
  "\<exists>s1 s2. kernel_start pc_bus sample_layout sample_routines sample_image (\<lambda>_. 0) 0x1000 0 bare_kernel = ret s1 \<and>
     foldM (serve_irq sample_image sample_layout sample_routines) [0, 1, 1, 0, 1, 1] (key_in [0x33, 0xF0, 0x33, 0x43] s1) = ret s2 \<and>
     tty (mach s2) = fold terminal_print_char (if clock_open s1 then ''THTI'' else ''HI'') (tty (mach s1))"
proof -
  have "key_char 0x33 = Some (CHR ''H'')" "key_char 0x43 = Some (CHR ''I'')"
    by (simp_all add: key_char_def key_assignments_def)
  then have "console_text b False [0, 1, 1, 0, 1, 1] [0x33, 0xF0, 0x33, 0x43] = (if b then ''THTI'' else ''HI'')" for b
    by simp
  moreover have "tables bare_kernel = default_routine sample_layout sample_routines no_memory" "keyboard_state bare_kernel = keyboard_start"
    by (simp_all add: bare_kernel_def sample_kernel_def)
  moreover have "timer_print_addr sample_routines \<noteq> keyboard_interrupt_addr sample_routines" by (simp add: sample_routines_def)
  ultimately show ?thesis
    using kernel_is_console [OF bare_boot_ready sample_layout_ok, of sample_routines no_memory "[0, 1, 1, 0, 1, 1]" "[0x33, 0xF0, 0x33, 0x43]" 0]
    by auto
qed

end
