(* ===== verification/Tlb.thy ===== *)
theory Tlb
  imports Remap_Laws
begin

text \<open>
  Cached translations (src/paging.c). The processor keeps translations it has walked and goes on
  using them after the tables change, until cr3 is loaded or the page is invalidated; the
  machine keeps them in \<open>tlb\<close>, which a load of cr3 empties. Here the processor fills and drops
  that cache as it likes between the operations of the kernel, and the reloads of the code are
  shown to keep it in agreement with the tables. Mapping a page loads cr3 only for new tables,
  never for the page itself; that is enough exactly because the page was not present before.
  Only translations of whole addresses are cached, and the processor uses them between the
  operations, not inside one: there the code's loads and stores walk the tables. The one word
  \<open>enter_root\<close> prints through the recursive region between its store and its reload might come from
  an old translation on a processor; it goes to the screen only.
\<close>

section \<open>The cache\<close>

text \<open>The processor may walk, or use what it has cached.\<close>

inductive sees :: "machine \<Rightarrow> u64 \<Rightarrow> u64 option \<Rightarrow> bool" where
  walked: "sees s v (mmu s v)"
| cached: "tlb s v = Some a \<Longrightarrow> sees s v (Some a)"

definition agrees :: "mem \<Rightarrow> machine \<Rightarrow> bool" where
  "agrees bi s \<longleftrightarrow> paging_ok bi s \<and> tlb s \<subseteq>\<^sub>m mmu s"

lemma sees_iff: "agrees bi s \<Longrightarrow> sees s v x \<longleftrightarrow> x = mmu s v"
  by (auto simp: agrees_def sees.simps map_le_def dom_def)

lemma invalidate_page_drops: "tlb (invalidate_page v s) \<subseteq>\<^sub>m tlb s" "mmu (invalidate_page v s) = mmu s"
  by (auto simp: invalidate_page_def map_le_def split: if_splits)

section \<open>What the operations do to it\<close>

lemma tlb_vstore: "vstore s v x = ret s' \<Longrightarrow> tlb s' = tlb s"
  by (auto simp: vstore_def split: option.splits)

lemma tlb_set_entry: "set_page_table_entry a f flags s = ret s' \<Longrightarrow> tlb s' = tlb s"
  by (auto simp: set_page_table_entry_def obind_eq_ret dest: tlb_vstore)

lemma tlb_alloc_frame: "alloc_frame bi s = ret (c, f, s') \<Longrightarrow> tlb s' = tlb s"
  by (auto simp: alloc_frame_def obind_eq_ret)

lemma tlb_get_next:
  assumes "get_next_page_table_or_create bi table idx s = ret (u, s')"
  shows "tlb s' \<subseteq>\<^sub>m tlb s"
  using assms unfolding get_next_page_table_or_create_def
  by (auto simp: obind_eq_ret flush_tlb_drops dest!: tlb_set_entry tlb_alloc_frame split: if_splits)

lemma tlb_map_page_to_frame:
  assumes "map_page_to_frame bi page f flags s = ret s'"
  shows "tlb s' \<subseteq>\<^sub>m tlb s"
proof -
  obtain p3 s1 p2 s2 p1 s3 where
    "get_next_page_table_or_create bi p4_table (get_p4_index page) s = ret (p3, s1)"
    "get_next_page_table_or_create bi p3 (get_p3_index page) s1 = ret (p2, s2)"
    "get_next_page_table_or_create bi p2 (get_p2_index page) s2 = ret (p1, s3)" "tlb s' = tlb s3"
    using assms unfolding map_page_to_frame_def by (auto simp: obind_eq_ret dest!: tlb_set_entry)
  then show ?thesis using tlb_get_next map_le_trans by metis
qed

text \<open>Unmapping a page and switching to new tables end with an empty cache.\<close>

lemma tlb_unmap_page: "unmap_page page g s = ret s' \<Longrightarrow> tlb s' = Map.empty"
  by (auto simp: unmap_page_def obind_eq_ret flush_tlb_drops)

lemma tlb_print_out: "print_out bi fmt args s = ret s' \<Longrightarrow> tlb s' = tlb s"
  by (auto simp: print_out_def obind_eq_ret)

lemma tlb_remap_kernel: "remap_kernel bi d g s = ret s' \<Longrightarrow> tlb s' = Map.empty"
  by (auto simp: remap_kernel_def switch_tables_def Let_def obind_eq_ret dest!: tlb_unmap_page tlb_print_out)

section \<open>Writing the last table of a page\<close>

text \<open>
  A walk from a table that is too high up to reach the last table of a path does not read it.
\<close>

lemma walk_shallow:
  assumes tree: "tree_ok nx m r" and p: "table_path p" "length p = 3" "follow nx m r p = Some t" "i < 512"
  shows "recursive nx m r \<Longrightarrow> table_path q \<Longrightarrow> follow nx m r q = Some u \<Longrightarrow> length q + lvl \<le> 3 \<Longrightarrow>
    walk nx lvl (st64 m (t + 8 * i) x) u w = walk nx lvl m u w"
proof (induction lvl arbitrary: q u)
  case (Suc lvl)
  let ?j = "index (Suc lvl) w"
  let ?e = "entry_at m u ?j"
  have al: "page_aligned t" "page_aligned u"
    using tree p(3) Suc.prems(3) follow_aligned by (auto simp: tree_ok_def)
  have "u \<noteq> t"
    using tree_ok_inj [OF tree p(1) Suc.prems(2) p(3)] Suc.prems(3,4) p(2) by auto
  then have e: "entry_at (st64 m (t + 8 * i) x) u ?j = ?e"
    using entry_at_store [OF al p(4) index_lt] by simp
  have "walk nx lvl (st64 m (t + 8 * i) x) (entry_addr ?e) w = walk nx lvl m (entry_addr ?e) w"
    if ok: "entry_ok nx ?e" "\<not> (0 < lvl \<and> is_huge ?e)"
  proof (cases "lvl = 0")
    case False
    then have fol: "follow nx m r (q @ [?j]) = Some (entry_addr ?e)"
      using Suc.prems(3) ok by (simp add: follow_snoc)
    show ?thesis
    proof (cases "q = [] \<and> ?j = 511")
      case True
      then have "follow nx m r [] = Some (entry_addr ?e)"
        using fol follow_recursive [OF Suc.prems(1), of 1 "[]"] by simp
      then show ?thesis using Suc.IH [OF Suc.prems(1) table_path_Nil] Suc.prems(4) by simp
    next
      case path: False
      then have "table_path (q @ [?j])"
        using Suc.prems(2,4) False by (auto simp: table_path_def hd_append)
      then show ?thesis using Suc.IH [OF Suc.prems(1) _ fol] Suc.prems(4) by simp
    qed
  qed simp
  then show ?case by (simp add: e Let_def)
qed simp

lemma mmu_leaf_recursive:
  assumes tables: "tables_ok s" and v: "index 4 v \<noteq> 511" and t: "table_at s (path_to 1 v) = Some t"
    and w: "index 4 w = 511"
  shows "mmu (s\<lparr>phys := st64 (phys s) (t + 8 * index 1 v) x\<rparr>) w = mmu s w"
proof -
  let ?nx = "nx_enabled s" and ?m = "phys s" and ?r = "root s" and ?m' = "st64 (phys s) (t + 8 * index 1 v) x"
  have tr: "tree_ok ?nx ?m ?r" "recursive ?nx ?m ?r" using tables by (simp_all add: tables_ok_def)
  have p: "table_path (path_to 1 v)" "length (path_to 1 v) = 3" using table_path_to [of 1 v] v by simp_all
  have fol: "follow ?nx ?m ?r (path_to 1 v) = Some t" using t by (simp add: table_at_def)
  have walk3: "walk ?nx 3 ?m' ?r w = walk ?nx 3 ?m ?r w"
    by (rule walk_shallow [OF tr(1) p fol index_lt tr(2) table_path_Nil]) simp_all
  have al: "page_aligned t" "page_aligned ?r"
    using follow_aligned [OF page_aligned_root fol] by simp_all
  have "path_to 1 v \<noteq> []" by (simp add: path_to_def)
  then have "?r \<noteq> t" using tree_ok_inj [OF tr(1) p(1) table_path_Nil fol] by auto
  then have e: "entry_at ?m' ?r 511 = entry_at ?m ?r 511"
    using entry_at_store [OF al index_lt, of 511] by simp
  have "walk ?nx 4 n ?r w = walk ?nx 3 n ?r w" if "hangs ?nx (entry_at n ?r 511) ?r" for n
    using that w by (simp add: hangs_def eval_nat_numeral Let_def)
  then have "walk ?nx 4 ?m' ?r w = walk ?nx 4 ?m ?r w"
    using tr(2) e walk3 by (simp add: recursive_def)
  then show ?thesis by (simp add: mmu_def)
qed

text \<open>Unmapping a page changes the translation of no other address at all.\<close>

lemma unmap_page_agrees:
  assumes ok: "paging_ok bi s" and v: "canonical v" "index 4 v \<noteq> 511" and t: "table_at s (path_to 1 v) = Some t"
    and run: "unmap_page (v div PAGE_SIZE) g s = ret s'"
  shows "paging_ok bi s' \<and> mmu s' = (mmu s) |` {w. w div PAGE_SIZE \<noteq> v div PAGE_SIZE}"
proof -
  let ?s1 = "s\<lparr>phys := st64 (phys s) (t + 8 * index 1 v) 0\<rparr>"
  have s': "s' = ?s1\<lparr>tlb := Map.empty\<rparr>" "\<forall>w. w div PAGE_SIZE = v div PAGE_SIZE \<longrightarrow> mmu s' w = None"
    "\<forall>w. index 4 w \<noteq> 511 \<longrightarrow> w div PAGE_SIZE \<noteq> v div PAGE_SIZE \<longrightarrow> mmu s' w = mmu s w"
    using unmap_page_ok [OF paging_okD(1) [OF ok] v t, of g] run by (auto simp: ret_def)
  have rec: "mmu s' w = mmu s w" if "index 4 w = 511" for w
    unfolding s'(1) tlb_views by (rule mmu_leaf_recursive [OF paging_okD(1) [OF ok] v(2) t that])
  have "mmu s' w = ((mmu s) |` {w. w div PAGE_SIZE \<noteq> v div PAGE_SIZE}) w" for w
    using s'(2,3) rec v(2) by (cases "index 4 w = 511") (auto simp: restrict_map_def dest: same_page_index [of w v 4])
  moreover have "paging_ok bi s'" unfolding s'(1) tlb_views by (rule paging_ok_leaf [OF ok v(2) t refl])
  ultimately show ?thesis by blast
qed

text \<open>Mapping a page keeps every translation there was if the page was not present.\<close>

definition can_map :: "mem \<Rightarrow> u64 \<Rightarrow> frame \<Rightarrow> u64 \<Rightarrow> machine \<Rightarrow> bool" where
  "can_map bi v f flags s \<longleftrightarrow> canonical v \<and> index 4 v \<noteq> 511 \<and> way_clear s v \<and>
     3 \<le> card (frame_pool bi (frames s)) \<and> unat f < 2 ^ 40 \<and> flags_ok s flags \<and> \<not> bit (last_entry s v) 0"

lemma map_page_keeps:
  assumes "paging_ok bi s" "can_map bi v f flags s"
  shows "\<exists>s'. map_page_to_frame bi (v div PAGE_SIZE) f flags s = ret s' \<and> paging_ok bi s' \<and> mmu s \<subseteq>\<^sub>m mmu s' \<and>
    mmu s' v = Some (get_frame_start_addr f + v mod PAGE_SIZE)"
  using map_page_to_frame_ok [of bi s v 0 f flags] assms unfolding can_map_def by auto

lemma alloc_frame_keeps:
  assumes "paging_ok bi s" "frame_pool bi (frames s) \<noteq> {}" "alloc_frame bi s = ret (code, f, s')"
  shows "paging_ok bi s' \<and> mmu s' = mmu s"
proof -
  obtain al t where "alloc_frame bi s = ret (0, f, s\<lparr>frames := al, tty := t\<rparr>)"
    "frame_pool bi al \<subseteq> frame_pool bi (frames s)" "allocator_ready bi (al, t)"
    using alloc_frame_takes [OF assms(1,2)] assms(3) by (auto simp: ret_def)
  then have "s' = s\<lparr>frames := al, tty := t\<rparr>" "paging_ok bi (s\<lparr>frames := al, tty := t\<rparr>)"
    using paging_ok_alloc [OF assms(1)] assms(3) by (simp_all only: ret_def) auto
  then show ?thesis by (simp only: machine_views)
qed

section \<open>Runs\<close>

text \<open>
  Steps of a kernel that prints, takes frames, maps pages that are not present, unmaps pages and
  replaces its tables, on a processor that fills and drops its cache as it likes. What an
  operation does to the cache is what its code does.
\<close>

inductive cached_step :: "mem \<Rightarrow> machine \<Rightarrow> machine \<Rightarrow> bool" for bi where
  fill: "mmu s v = Some a \<Longrightarrow> cached_step bi s (s\<lparr>tlb := (tlb s)(v \<mapsto> a)\<rparr>)"
| drop_some: "c \<subseteq>\<^sub>m tlb s \<Longrightarrow> cached_step bi s (s\<lparr>tlb := c\<rparr>)"
| show_text: "cached_step bi s (s\<lparr>tty := t\<rparr>)"
| take_frame: "frame_pool bi (frames s) \<noteq> {} \<Longrightarrow> alloc_frame bi s = ret (code, f, s') \<Longrightarrow> cached_step bi s s'"
| map_one: "can_map bi v f flags s \<Longrightarrow> map_page_to_frame bi (v div PAGE_SIZE) f flags s = ret s' \<Longrightarrow> cached_step bi s s'"
| unmap_one: "canonical v \<Longrightarrow> index 4 v \<noteq> 511 \<Longrightarrow> table_at s (path_to 1 v) = Some t \<Longrightarrow>
    unmap_page (v div PAGE_SIZE) g s = ret s' \<Longrightarrow> cached_step bi s s'"
| remap: "remap_ready bi d (enable_no_exec s) \<Longrightarrow> remap_kernel bi d g s = ret s' \<Longrightarrow> cached_step bi s s'"

lemma flush_step: "cached_step bi s (flush_tlb s)" "cached_step bi s (invalidate_page v s)"
  unfolding flush_tlb_drops invalidate_page_def by (auto intro!: drop_some simp: map_le_def split: if_splits)

lemma cached_step_agrees: "cached_step bi s s' \<Longrightarrow> agrees bi s \<Longrightarrow> agrees bi s'"
proof (induction rule: cached_step.induct)
  case (fill s v a)
  then show ?case by (auto simp: agrees_def map_le_def)
next
  case (drop_some c s)
  then show ?case by (auto simp: agrees_def intro: map_le_trans)
next
  case (show_text s t)
  then show ?case by (simp add: agrees_def)
next
  case (take_frame s code f s')
  then show ?case using alloc_frame_keeps [of bi s code f s'] tlb_alloc_frame [of bi s code f s'] by (simp add: agrees_def)
next
  case (map_one v f flags s s')
  then have "paging_ok bi s'" "mmu s \<subseteq>\<^sub>m mmu s'"
    using map_page_keeps [of bi s v f flags] by (auto simp: agrees_def ret_def)
  moreover have "tlb s' \<subseteq>\<^sub>m tlb s" by (rule tlb_map_page_to_frame [OF map_one.hyps(2)])
  ultimately show ?case using map_one.prems unfolding agrees_def by (blast intro: map_le_trans)
next
  case (unmap_one v s t g s')
  then show ?case
    using unmap_page_agrees [of bi s v t g s'] tlb_unmap_page [of "v div PAGE_SIZE" g s s'] by (simp add: agrees_def)
next
  case (remap d s g s')
  then show ?case
    using remap_kernel_steps [of bi d s g] tlb_remap_kernel [of bi d g s s'] by (auto simp: agrees_def ret_def)
qed

lemma cached_steps_agree: "(cached_step bi)\<^sup>*\<^sup>* s s' \<Longrightarrow> agrees bi s \<Longrightarrow> agrees bi s'"
  by (induction rule: rtranclp_induct) (auto dest: cached_step_agrees)

section \<open>Properties\<close>

text \<open>C13. Cached translations never go stale: however the processor fills and drops its cache while
  the kernel prints, takes frames, maps absent pages, unmaps pages and replaces its tables,
  every address translates as the tables say, in the recursive region too, and the tables stay
  sound. It rests on the loads of cr3 in \<open>unmap_page\<close> and \<open>remap_kernel\<close>; mapping an absent page
  needs none for the page itself.\<close>

theorem caches_agree:
  assumes "(cached_step bi)\<^sup>*\<^sup>* s0 s" "paging_ok bi s0" "tlb s0 \<subseteq>\<^sub>m mmu s0"
  shows "paging_ok bi s \<and> tlb s \<subseteq>\<^sub>m mmu s \<and> (\<forall>v x. sees s v x \<longleftrightarrow> x = mmu s v)"
proof -
  have "agrees bi s" using cached_steps_agree [OF assms(1)] assms(2,3) by (simp add: agrees_def)
  then show ?thesis using sees_iff [of bi s] unfolding agrees_def by blast
qed

lemma sample_mapped: "mmu (sample_machine 0) 0x7123 = Some 0xB8123"
  using mmu_last_table [OF sample_index(4) sample_leaf, of 0]
  by (simp add: sample_index sample_entries sample_aligned entry_ok_def bit_0 sample_pages entry_addr_def
      physical_addr_mask_def offset_mod del: One_nat_def)

text \<open>The processor caches the page of the video memory, and the kernel unmaps it.\<close>

theorem caches_agree_witness:
  "\<exists>s'. unmap_page 7 0 ((sample_machine 0)\<lparr>tlb := [0x7123 \<mapsto> 0xB8123]\<rparr>) = ret s' \<and>
     (\<forall>x. sees s' 0x7123 x \<longrightarrow> x = None)"
proof -
  let ?s = "(sample_machine 0)\<lparr>tlb := [0x7123 \<mapsto> 0xB8123]\<rparr>"
  have t: "table_at ?s (path_to 1 0x7123) = Some 0" "paging_ok sample_image ?s"
    using sample_leaf sample_paging_ok by simp_all
  have e: "tlb (sample_machine 0) = Map.empty" by (simp add: sample_machine_def)
  have idx: "index 4 0x7123 \<noteq> (511 :: u64)" by (simp add: sample_index)
  obtain s' where s': "unmap_page 7 0 ?s = ret s'" "mmu s' 0x7123 = None"
    using unmap_page_ok [OF paging_okD(1) [OF t(2)] sample_index(4) idx t(1), of 0] unfolding sample_pages
    using sample_pages(1) by blast
  have "cached_step sample_image (sample_machine 0) ?s"
    using fill [OF sample_mapped, of sample_image] by (simp add: e)
  moreover have "cached_step sample_image ?s s'"
    using unmap_one [OF sample_index(4) idx t(1)] s'(1) by (simp add: sample_pages)
  ultimately have "(cached_step sample_image)\<^sup>*\<^sup>* (sample_machine 0) s'"
    by (meson r_into_rtranclp rtranclp.rtrancl_into_rtrancl)
  then have "\<forall>x. sees s' 0x7123 x \<longleftrightarrow> x = mmu s' 0x7123"
    using caches_agree [OF _ sample_paging_ok] by (simp add: e)
  then show ?thesis using s' by auto
qed

text \<open>C40. The comment in \<open>map_page_to_frame\<close> asks for an unused page, but the code does not check it: mapping
  a page again, with all tables in place, changes its translation and neither loads cr3 nor
  invalidates the page, so that a translation the processor had cached stays and it may go on
  using the old frame.\<close>

theorem mapping_again_goes_stale:
  assumes "tables_ok s" "canonical v" "index 4 v \<noteq> 511" "table_at s (path_to 1 v) = Some t" "tlb s v = Some a"
    and "unat f < 2 ^ 40" "flags_ok s flags" "get_frame_start_addr f + v mod PAGE_SIZE \<noteq> a"
  shows "\<exists>s'. map_page_to_frame bi (v div PAGE_SIZE) f flags s = ret s' \<and>
    mmu s' v = Some (get_frame_start_addr f + v mod PAGE_SIZE) \<and> tlb s' = tlb s \<and> sees s' v (Some a) \<and> Some a \<noteq> mmu s' v"
proof -
  let ?s' = "s\<lparr>phys := st64 (phys s) (t + 8 * index 1 v) (entry_for f (present_bit OR flags))\<rparr>"
  have "map_page_to_frame bi (v div PAGE_SIZE) f flags s = ret ?s'" by (rule map_existing [OF assms(1,3,4)])
  moreover have "mmu ?s' v = Some (get_frame_start_addr f + v mod PAGE_SIZE)"
    using leaf_store [OF assms(1,3,4) refl, of "entry_for f (present_bit OR flags)"] assms(2)
      entry_ok_flags [OF assms(7)] entry_addr_for [OF assms(6) flags_present [OF assms(7)]] by simp
  ultimately show ?thesis using assms(5,8) by (intro exI [of _ ?s']) (simp add: sees.cached)
qed

theorem mapping_again_goes_stale_witness:
  "\<exists>s'. map_page_to_frame sample_image 7 9 writeable_bit ((sample_machine 0)\<lparr>tlb := [0x7123 \<mapsto> 0xB8123]\<rparr>) = ret s' \<and>
     sees s' 0x7123 (Some 0xB8123) \<and> mmu s' 0x7123 = Some 0x9123"
proof -
  let ?s = "(sample_machine 0)\<lparr>tlb := [0x7123 \<mapsto> 0xB8123]\<rparr>"
  have "tables_ok ?s" "table_at ?s (path_to 1 0x7123) = Some 0" "flags_ok ?s writeable_bit"
    using sample_tables_ok sample_leaf sample_flags [of 0] by (simp_all add: flags_ok_def)
  then show ?thesis
    using mapping_again_goes_stale [OF _ sample_index(4), of ?s 0 "0xB8123" 9 writeable_bit sample_image]
    by (auto simp: sample_index sample_pages get_frame_start_addr_def PAGE_SIZE_def)
qed

end
