(* ===== verification/Boot.thy ===== *)
theory Boot
  imports Paging_Laws Interrupts
begin

text \<open>
  The first code that runs (src/arch/x86_64/boot.s): 32-bit code that GRUB enters with the
  multiboot magic in eax. It checks what it needs of the loader and the processor, builds page
  tables for the first gigabyte with 2 MiB pages, and switches to long mode. What a processor
  answers to \<open>cpuid\<close> and which flags it lets software change are parameters. The stack is not
  modelled; the video memory is the terminal's cells, as everywhere in the library. The lemmas
  show the screen each failed check leaves, and what the first tables translate.
\<close>

section \<open>Messages\<close>

text \<open>A 32-bit and an 8-bit store to the video memory, from a cell on.\<close>

definition show_cells :: "u64 \<Rightarrow> u32 \<Rightarrow> terminal \<Rightarrow> terminal" where
  "show_cells c v t = t\<lparr>buffer := (buffer t)(c := ucast v, c + 1 := ucast (drop_bit 16 v))\<rparr>"

definition show_char :: "u64 \<Rightarrow> u8 \<Rightarrow> terminal \<Rightarrow> terminal" where
  "show_char c v t = t\<lparr>buffer := (buffer t)(c := (buffer t c AND 0xFF00) OR ucast v)\<rparr>"

definition show_ok :: "machine \<Rightarrow> machine" where
  "show_ok s = s\<lparr>tty := show_cells 0 0x2f4b2f4f (tty s)\<rparr>"

definition show_error :: "u8 \<Rightarrow> machine \<Rightarrow> machine" where
  "show_error al s =
     (let t1 = show_cells 0 0x2f524f45 (tty s); t2 = show_cells 2 0x4f3a4f52 t1; t3 = show_cells 4 0x4f204f20 t2
      in s\<lparr>tty := show_char 6 al t3\<rparr>)"

text \<open>A stage of the boot halts on a machine, or goes on with a result.\<close>

type_synonym 'a stage = "machine + 'a"

fun stage_bind :: "'a stage \<Rightarrow> ('a \<Rightarrow> 'b stage) \<Rightarrow> 'b stage" where
  "stage_bind (Inl s) f = Inl s"
| "stage_bind (Inr x) f = f x"

section \<open>Checks\<close>

text \<open>
  The processor: its flags, the flags \<open>popfd\<close> lets software change, and what \<open>cpuid\<close> leaves in
  eax and edx.
\<close>

record processor =
  eflags :: u32
  flags_settable :: u32
  cpuid :: "u32 \<Rightarrow> u32 \<times> u32"

definition popfd :: "processor \<Rightarrow> u32 \<Rightarrow> u32 \<Rightarrow> u32" where
  "popfd cpu new old = (new AND flags_settable cpu) OR (old AND NOT (flags_settable cpu))"

definition check_multiboot :: "u32 \<Rightarrow> machine \<Rightarrow> machine stage" where
  "check_multiboot ax s = (if ax \<noteq> 0x36d76289 then Inl (show_error 0x30 s) else Inr s)"

definition check_cpuid :: "processor \<Rightarrow> machine \<Rightarrow> machine stage" where
  "check_cpuid cpu s =
     (let cx = eflags cpu; ax = popfd cpu (cx XOR push_bit 21 1) cx
      in if ax = cx then Inl (show_error 0x31 s) else Inr s)"

definition check_long_mode :: "processor \<Rightarrow> machine \<Rightarrow> machine stage" where
  "check_long_mode cpu s =
     (if fst (cpuid cpu 0x80000000) < 0x80000001 then Inl (show_error 0x32 s)
      else if snd (cpuid cpu 0x80000001) AND push_bit 29 1 = 0 then Inl (show_error 0x32 s)
      else Inr s)"

text \<open>The instructions on \<open>ax\<close> change the low half of \<open>eax\<close> only; a write of \<open>cr0\<close> or \<open>cr4\<close> clears the upper half.\<close>

definition set_up_SSE :: "processor \<Rightarrow> machine \<Rightarrow> machine stage" where
  "set_up_SSE cpu s =
     (if snd (cpuid cpu 1) AND push_bit 25 1 = 0 then Inl (show_error 0x61 s)
      else let c0 = (ucast (cr0 s) :: u32) AND 0xFFFFFFFB OR 0x2; c4 = (ucast (cr4 s) :: u32) OR push_bit 9 3
           in Inr (s\<lparr>cr0 := ucast c0, cr4 := ucast c4\<rparr>))"

section \<open>Page tables and long mode\<close>

text \<open>Where the linker put the tables.\<close>

record boot_image =
  boot_p4 :: u32
  boot_p3 :: u32
  boot_p2 :: u32

definition map_p2_table :: "boot_image \<Rightarrow> nat \<Rightarrow> mem \<Rightarrow> mem" where
  "map_p2_table im cx m = st32 m (ucast (boot_p2 im + of_nat cx * 8)) (0x200000 * of_nat cx OR 0x83)"

definition set_up_page_tables :: "boot_image \<Rightarrow> machine \<Rightarrow> machine" where
  "set_up_page_tables im s =
     (let m1 = st32 (phys s) (ucast (boot_p4 im)) (boot_p3 im OR 3); m2 = st32 m1 (ucast (boot_p3 im)) (boot_p2 im OR 3)
      in s\<lparr>phys := fold (map_p2_table im) [0..<512] m2\<rparr>)"

definition enable_paging :: "boot_image \<Rightarrow> machine \<Rightarrow> machine" where
  "enable_paging im s =
     (let ax = boot_p4 im OR 3;
          s1 = s\<lparr>phys := st32 (phys s) (ucast (boot_p4 im + 511 * 8)) ax, cr3 := ucast ax, tlb := Map.empty\<rparr>;
          s2 = s1\<lparr>cr4 := ucast ((ucast (cr4 s1) :: u32) OR push_bit 5 1)\<rparr>;
          s3 = s2\<lparr>msr := (msr s2)(0xC0000080 := msr s2 0xC0000080 OR 0x100)\<rparr>
      in s3\<lparr>cr0 := ucast ((ucast (cr0 s3) :: u32) OR push_bit 31 1)\<rparr>)"

text \<open>The descriptor table and the selectors of its code and data segments.\<close>

definition gdt64 :: "u64 list" where
  "gdt64 = [0,
     push_bit 44 1 OR push_bit 47 1 OR push_bit 41 1 OR push_bit 43 1 OR push_bit 53 1,
     push_bit 44 1 OR push_bit 47 1 OR push_bit 41 1]"

definition gdt_code :: u16 where "gdt_code = 8"
definition gdt_data :: u16 where "gdt_data = 16"

text \<open>
  The whole of \<open>_start\<close>: the machine it hands over, with the selectors loaded into the code
  and the data segment registers.
\<close>

definition boot_start :: "processor \<Rightarrow> boot_image \<Rightarrow> u32 \<Rightarrow> machine \<Rightarrow> (machine \<times> u16 \<times> u16) stage" where
  "boot_start cpu im ax s =
     stage_bind (check_multiboot ax s) (\<lambda>s1.
     stage_bind (check_cpuid cpu (show_ok s1)) (\<lambda>s2.
     stage_bind (check_long_mode cpu s2) (\<lambda>s3.
     stage_bind (set_up_SSE cpu s3) (\<lambda>s4.
       Inr (enable_paging im (set_up_page_tables im s4), gdt_code, gdt_data)))))"

section \<open>What the checks decide\<close>

definition has_cpuid :: "processor \<Rightarrow> bool" where
  "has_cpuid cpu \<longleftrightarrow> bit (flags_settable cpu) 21"

definition has_long_mode :: "processor \<Rightarrow> bool" where
  "has_long_mode cpu \<longleftrightarrow> 0x80000001 \<le> fst (cpuid cpu 0x80000000) \<and> bit (snd (cpuid cpu 0x80000001)) 29"

definition has_sse :: "processor \<Rightarrow> bool" where
  "has_sse cpu \<longleftrightarrow> bit (snd (cpuid cpu 1)) 25"

text \<open>The letter of the first requirement that is missing.\<close>

definition boot_letter :: "processor \<Rightarrow> u32 \<Rightarrow> char option" where
  "boot_letter cpu ax =
     (if ax \<noteq> 0x36d76289 then Some (CHR ''0'') else if \<not> has_cpuid cpu then Some (CHR ''1'')
      else if \<not> has_long_mode cpu then Some (CHR ''2'') else if \<not> has_sse cpu then Some (CHR ''a'') else None)"

text \<open>The characters of the first cells.\<close>

definition shown :: "nat \<Rightarrow> terminal \<Rightarrow> string" where
  "shown n t = map (\<lambda>i. char_of (unat (buffer t (of_nat i)) mod 256)) [0..<n]"

lemma cpuid_check: "(popfd cpu (eflags cpu XOR push_bit 21 1) (eflags cpu) = eflags cpu) \<longleftrightarrow> \<not> has_cpuid cpu"
proof -
  have "bit (2097152 :: u32) n \<longleftrightarrow> n = 21" if "n < 32" for n
    using bit_exp_iff [where 'a = u32, of 21 n] that by auto
  then have "bit (popfd cpu (eflags cpu XOR push_bit 21 1) (eflags cpu)) n \<longleftrightarrow>
      (bit (eflags cpu) n \<noteq> (n = 21 \<and> bit (flags_settable cpu) 21))" if "n < 32" for n
    using that by (auto simp: popfd_def bit_simps)
  note flip = this
  show ?thesis
  proof (cases "has_cpuid cpu")
    case True
    then show ?thesis using flip [of 21] by (auto simp: has_cpuid_def)
  next
    case False
    then show ?thesis using flip by (auto simp: has_cpuid_def intro: bit_word_eqI)
  qed
qed

lemma and_flag: "(x :: u32) AND push_bit n 1 = 0 \<longleftrightarrow> \<not> bit x n"
  using and_exp_eq_0_iff_not_bit [of x n] by (simp add: push_bit_eq_mult)

lemma low_byte: "unat (x :: u16) mod 256 = unat (ucast x :: u8)"
  by (simp add: unsigned_ucast_eq take_bit_eq_mod)

lemma low_byte_char: "(ucast ((x AND 0xFF00) OR ucast c) :: u8) = c" for x :: u16
proof -
  have "(0xFF00 :: u16) = push_bit 8 (mask 8)" by (simp add: push_bit_eq_mult mask_eq_exp_minus_1)
  then have "bit (0xFF00 :: u16) n \<longleftrightarrow> bit (push_bit 8 (mask 8) :: u16) n" for n by simp
  then have "bit (0xFF00 :: u16) n \<Longrightarrow> 8 \<le> n" for n unfolding bit_push_bit_iff by blast
  then have "\<not> bit (0xFF00 :: u16) n" if "n < 8" for n using that leD by blast
  then show ?thesis by (intro bit_word_eqI) (auto simp: bit_simps)
qed

lemma show_error_screen:
  "shown 7 (tty (show_error al s)) = ''ERR:  '' @ [char_of (unat al)]" "(show_error al s)\<lparr>tty := t\<rparr> = s\<lparr>tty := t\<rparr>"
  by (simp_all add: show_error_def Let_def shown_def upt_rec show_cells_def show_char_def low_byte low_byte_char char_of_def bit_0)

text \<open>Each check goes on exactly if its requirement holds.\<close>

lemma check_simps:
  "check_multiboot ax s = (if ax = 0x36d76289 then Inr s else Inl (show_error 0x30 s))"
  "check_cpuid cpu s = (if has_cpuid cpu then Inr s else Inl (show_error 0x31 s))"
  "check_long_mode cpu s = (if has_long_mode cpu then Inr s else Inl (show_error 0x32 s))"
  by (auto simp: check_multiboot_def check_cpuid_def Let_def cpuid_check check_long_mode_def has_long_mode_def and_flag
      simp del: push_bit_of_1)

definition sse_on :: "machine \<Rightarrow> machine" where
  "sse_on s = s\<lparr>cr0 := ucast ((ucast (cr0 s) :: u32) AND 0xFFFFFFFB OR 0x2), cr4 := ucast ((ucast (cr4 s) :: u32) OR 0x600)\<rparr>"

lemma set_up_SSE_simps: "set_up_SSE cpu s = (if has_sse cpu then Inr (sse_on s) else Inl (show_error 0x61 s))"
  by (auto simp: set_up_SSE_def has_sse_def and_flag sse_on_def Let_def simp del: push_bit_of_1)

lemma boot_start_goes:
  "boot_letter cpu ax = None \<Longrightarrow>
     boot_start cpu im ax s = Inr (enable_paging im (set_up_page_tables im (sse_on (show_ok s))), gdt_code, gdt_data)"
  by (auto simp: boot_letter_def boot_start_def check_simps set_up_SSE_simps split: if_splits)

lemma boot_start_stops:
  assumes "boot_letter cpu ax = Some c"
  shows "\<exists>s'. boot_start cpu im ax s = Inl s' \<and> s'\<lparr>tty := tty s\<rparr> = s \<and> shown 7 (tty s') = ''ERR:  '' @ [c]"
proof -
  have ok: "(show_ok s)\<lparr>tty := tty s\<rparr> = s" by (simp add: show_ok_def)
  consider "ax \<noteq> 0x36d76289" "c = CHR ''0''" | "ax = 0x36d76289" "\<not> has_cpuid cpu" "c = CHR ''1''"
    | "ax = 0x36d76289" "has_cpuid cpu" "\<not> has_long_mode cpu" "c = CHR ''2''"
    | "ax = 0x36d76289" "has_cpuid cpu" "has_long_mode cpu" "\<not> has_sse cpu" "c = CHR ''a''"
    using assms by (auto simp: boot_letter_def split: if_splits)
  then show ?thesis
    by cases (simp_all add: boot_start_def check_simps set_up_SSE_simps show_error_screen ok char_of_def bit_0)
qed

section \<open>The first page tables\<close>

text \<open>The tables are three different pages, which hold zeros: they lie in the zeroed data of the image.\<close>

definition image_ok :: "boot_image \<Rightarrow> mem \<Rightarrow> bool" where
  "image_ok im m \<longleftrightarrow> (\<forall>t \<in> {boot_p4 im, boot_p3 im, boot_p2 im}. 4096 dvd unat t \<and> blank_table m (ucast t)) \<and>
     distinct [boot_p4 im, boot_p3 im, boot_p2 im]"

lemma ucast_aligned: "4096 dvd unat (t :: u32) \<Longrightarrow> page_aligned (ucast t)"
  by (simp add: page_aligned_def unat_ucast32)

lemma image_okD:
  assumes "image_ok im m"
  shows "page_aligned (ucast (boot_p4 im))" "page_aligned (ucast (boot_p3 im))" "page_aligned (ucast (boot_p2 im))"
    "i < 512 \<Longrightarrow> entry_at m (ucast (boot_p4 im)) i = 0" "i < 512 \<Longrightarrow> entry_at m (ucast (boot_p3 im)) i = 0"
    "i < 512 \<Longrightarrow> entry_at m (ucast (boot_p2 im)) i = 0"
    "(ucast (boot_p4 im) :: u64) \<noteq> ucast (boot_p3 im)" "(ucast (boot_p4 im) :: u64) \<noteq> ucast (boot_p2 im)"
    "(ucast (boot_p3 im) :: u64) \<noteq> ucast (boot_p2 im)"
  using assms ucast_aligned by (auto simp: image_ok_def blank_table_def dest!: arg_cong [where f = unat] simp: unat_ucast32 word_unat_eq_iff)

lemma ucast_slot:
  assumes "4096 dvd unat (t :: u32)" "k < 512"
  shows "(ucast (t + of_nat k * 8) :: u64) = ucast t + 8 * of_nat k"
proof -
  obtain q where q: "unat t = 4096 * q" using assms(1) by blast
  have "unat t < 2 ^ 32" using unsigned_less [of t] by simp
  then have t: "unat t + 4096 \<le> 2 ^ 32" using q by simp
  have k: "unat (of_nat k * 8 :: u32) = 8 * k" "unat (8 * of_nat k :: u64) = 8 * k"
    using assms(2) by (simp_all add: unat_word_ariths unat_of_nat)
  have "unat (t + of_nat k * 8) = unat t + 8 * k" using k(1) t assms(2) by (simp add: unat_word_ariths)
  moreover have "unat (ucast t + 8 * of_nat k :: u64) = unat t + 8 * k"
    using k(2) t assms(2) by (subst unat_plus64) (simp_all add: unat_ucast32)
  ultimately show ?thesis by (simp add: word_unat_eq_iff unat_ucast32)
qed

lemma st32_entry:
  "entry_at m t i = 0 \<Longrightarrow> st32 m (t + 8 * i) x = put_entry t i (ucast x) m"
  by (simp add: st32_blank put_entry_def entry_at_def)

definition huge_entry :: "u64 \<Rightarrow> u64" where
  "huge_entry i = ucast (0x200000 * of_nat (unat i) OR 0x83 :: u32)"

lemma p2_entries:
  assumes p2: "4096 dvd unat (boot_p2 im)" "blank_table m (ucast (boot_p2 im))"
    and t: "page_aligned t" "i < 512"
  shows "n \<le> 512 \<Longrightarrow> entry_at (fold (map_p2_table im) [0..<n] m) t i =
    (if t = ucast (boot_p2 im) \<and> unat i < n then huge_entry i else entry_at m t i)"
  using t
proof (induction n arbitrary: t i)
  case (Suc n)
  let ?m = "fold (map_p2_table im) [0..<n] m" and ?p = "ucast (boot_p2 im) :: u64"
  have n: "unat (of_nat n :: u64) = n" "(of_nat n :: u64) < 512"
    using Suc.prems(1) by (simp_all add: unat_of_nat word_less_nat_alt)
  have p: "page_aligned ?p" using p2(1) by (rule ucast_aligned)
  have z: "entry_at ?m ?p (of_nat n) = 0"
    using Suc.IH [OF _ p n(2)] Suc.prems(1) p2(2) n by (simp add: blank_table_def)
  have "map_p2_table im n ?m = put_entry ?p (of_nat n) (huge_entry (of_nat n)) ?m"
    using Suc.prems(1) n(1) by (simp add: map_p2_table_def ucast_slot [OF p2(1)] st32_entry [OF z] huge_entry_def)
  moreover have "i = of_nat n \<longleftrightarrow> unat i = n" using n(1) by auto
  ultimately show ?case
    using Suc.IH [OF _ Suc.prems(2,3)] Suc.prems p n by (auto simp: entry_at_put less_Suc_eq)
qed simp

text \<open>All entries of the tables \<open>_start\<close> hands over.\<close>

definition boot_entry :: "boot_image \<Rightarrow> u64 \<Rightarrow> u64 \<Rightarrow> u64 option" where
  "boot_entry im t i =
     (if t = ucast (boot_p4 im) then Some (if i = 0 then ucast (boot_p3 im OR 3) else if i = 511 then ucast (boot_p4 im OR 3) else 0)
      else if t = ucast (boot_p3 im) then Some (if i = 0 then ucast (boot_p2 im OR 3) else 0)
      else if t = ucast (boot_p2 im) then Some (huge_entry i) else None)"

lemma boot_entries:
  assumes im: "image_ok im (phys s)" and t: "page_aligned t" "i < 512"
  shows "entry_at (phys (enable_paging im (set_up_page_tables im s))) t i =
    (case boot_entry im t i of Some e \<Rightarrow> e | None \<Rightarrow> entry_at (phys s) t i)"
proof -
  let ?p4 = "ucast (boot_p4 im) :: u64" and ?p3 = "ucast (boot_p3 im) :: u64" and ?p2 = "ucast (boot_p2 im) :: u64"
  note d = image_okD [OF im]
  have al: "4096 dvd unat (boot_p4 im)" "4096 dvd unat (boot_p2 im)" using im by (simp_all add: image_ok_def)
  let ?m1 = "put_entry ?p4 0 (ucast (boot_p3 im OR 3)) (phys s)"
  let ?m2 = "put_entry ?p3 0 (ucast (boot_p2 im OR 3)) ?m1"
  let ?m3 = "fold (map_p2_table im) [0..<512] ?m2"
  have m1: "st32 (phys s) ?p4 (boot_p3 im OR 3) = ?m1"
    using st32_entry [OF d(4), of 0] by simp
  have e1: "entry_at ?m1 t i = (if t = ?p4 \<and> i = 0 then ucast (boot_p3 im OR 3) else entry_at (phys s) t i)"
    if "page_aligned t" "i < 512" for t i using that d(1) by (simp add: entry_at_put)
  have m2: "st32 ?m1 ?p3 (boot_p2 im OR 3) = ?m2"
    using st32_entry [of ?m1 ?p3 0] e1 [OF d(2), of 0] d(5,7) by simp
  have e2: "entry_at ?m2 t i = (if t = ?p3 \<and> i = 0 then ucast (boot_p2 im OR 3) else entry_at ?m1 t i)"
    if "page_aligned t" "i < 512" for t i using that d(2) by (simp add: entry_at_put)
  have "blank_table ?m2 ?p2" using e1 e2 d by (simp add: blank_table_def)
  note e3 = p2_entries [OF al(2) this _ _ order_refl]
  have "entry_at ?m3 ?p4 511 = 0" using e3 [OF d(1), of 511] e2 [OF d(1), of 511] e1 [OF d(1), of 511] d by simp
  then have m4: "st32 ?m3 (ucast (boot_p4 im + 511 * 8)) (boot_p4 im OR 3) = put_entry ?p4 511 (ucast (boot_p4 im OR 3)) ?m3"
    using st32_entry [of ?m3 ?p4 511] ucast_slot [OF al(1), of 511] by simp
  have ph: "phys (enable_paging im (set_up_page_tables im s)) = put_entry ?p4 511 (ucast (boot_p4 im OR 3)) ?m3"
    by (simp add: enable_paging_def set_up_page_tables_def Let_def m1 m2 m4 [simplified])
  have "unat i < 512" using t(2) by (simp add: word_less_nat_alt)
  then show ?thesis
    unfolding ph using d t e1 [OF t] e2 [OF t] e3 [OF t] by (auto simp: entry_at_put boot_entry_def)
qed

section \<open>What the processor makes of them\<close>

lemma low_bits: "bit (3 :: int) n \<longleftrightarrow> n < 2" "bit (0x83 :: int) n \<longleftrightarrow> n \<in> {0, 1, 7}"
proof -
  have n: "(3 :: int) = mask 2" "(0x83 :: int) = push_bit 7 1 OR mask 2"
    by (simp_all add: mask_eq_exp_minus_1)
  show "bit (3 :: int) n \<longleftrightarrow> n < 2" "bit (0x83 :: int) n \<longleftrightarrow> n \<in> {0, 1, 7}"
    unfolding n bit_or_iff bit_push_bit_iff bit_mask_iff bit_1_iff by auto
qed

lemma boot_link:
  assumes "4096 dvd unat (t :: u32)"
  shows "hangs nx (ucast (t OR 3)) (ucast t)"
proof -
  have t: "\<not> bit t n" if "n < 12" for n
    using ucast_aligned [OF assms] that by (auto simp: page_aligned_bits bit_simps)
  have "entry_addr (ucast (t OR 3)) = ucast t"
    by (rule bit_word_eqI) (use t in \<open>auto simp: entry_addr_def bit_and_iff bit_phys_mask bit_ucast_iff bit_or_iff low_bits dest: bit_imp_le_length intro: leI\<close>)
  moreover have "entry_ok nx (ucast (t OR 3))" "\<not> is_huge (ucast (t OR 3))"
    using t [of 7] bit_imp_le_length [of t 63] by (auto simp: entry_ok_def is_huge_def bit_ucast_iff bit_or_iff low_bits)
  ultimately show ?thesis by (simp add: hangs_def)
qed

lemma bit_huge_entry:
  assumes "i < 512"
  shows "bit (huge_entry i) n \<longleftrightarrow> n \<in> {0, 1, 7} \<or> 21 \<le> n \<and> bit i (n - 21)"
proof -
  have "(of_nat (unat i) :: u32) = ucast i" by simp
  then have h: "huge_entry i = ucast (push_bit 21 (ucast i :: u32) OR 0x83)"
    by (simp add: huge_entry_def push_bit_eq_mult mult.commute)
  show ?thesis
    unfolding h using bit_lt512 [OF assms, of "n - 21"]
    by (auto simp: bit_ucast_iff bit_or_iff bit_push_bit_iff low_bits)
qed

lemma huge_entry_facts:
  assumes "i < 512"
  shows "entry_ok nx (huge_entry i)" "is_huge (huge_entry i)" "drop_bit 21 (entry_addr (huge_entry i)) = i"
proof -
  show "entry_ok nx (huge_entry i)" "is_huge (huge_entry i)"
    using bit_lt512 [OF assms, of 42] by (auto simp: entry_ok_def is_huge_def bit_huge_entry [OF assms])
  show "drop_bit 21 (entry_addr (huge_entry i)) = i"
    by (rule bit_word_eqI) (auto simp: bit_drop_bit_eq entry_addr_def bit_and_iff bit_phys_mask bit_huge_entry [OF assms]
      dest: bit_lt512 [OF assms])
qed

text \<open>The addresses of the first gigabyte.\<close>

lemma low_gib: "v < 2 ^ 30 \<longleftrightarrow> canonical v \<and> index 4 v = 0 \<and> index 3 v = 0" for v :: u64
proof
  assume "v < 2 ^ 30"
  then have "take_bit 30 v = v" by (simp add: word_less_nat_alt take_bit_eq_mod word_unat_eq_iff unat_mod)
  then have "\<not> bit v n" if "30 \<le> n" for n using that by (metis bit_take_bit_iff leD)
  then show "canonical v \<and> index 4 v = 0 \<and> index 3 v = 0"
    by (auto simp: canonical_def bit_index intro!: bit_word_eqI)
next
  assume a: "canonical v \<and> index 4 v = 0 \<and> index 3 v = 0"
  have "\<not> bit v n" if "30 \<le> n" "n < 48" for n
  proof -
    have "\<not> bit (index 4 v) (n - 39)" "\<not> bit (index 3 v) (n - 30)" using a by simp_all
    then show ?thesis using that by (cases "n < 39") (auto simp: bit_index)
  qed
  moreover have "\<not> bit v n" if "48 \<le> n" for n
    using a calculation [of 47] that by (cases "n < 64") (auto simp: canonical_def dest: bit64_len)
  ultimately have "take_bit 30 v = v"
    by (intro bit_word_eqI) (auto simp: bit_take_bit_iff, metis not_le)
  moreover have "unat (take_bit 30 v) = unat v mod 2 ^ 30" by (simp add: take_bit_eq_mod unat_mod)
  ultimately have "unat v = unat v mod 2 ^ 30" by simp
  then show "v < 2 ^ 30" by (simp add: word_less_nat_alt)
qed

lemma low_gib_parts: "v < 2 ^ 30 \<Longrightarrow> index 2 v * 2 ^ 21 + take_bit 21 v = v" for v :: u64
proof -
  assume v: "v < 2 ^ 30"
  then have "unat v div 2 ^ 21 < 512" by (simp add: word_less_nat_alt)
  then have i: "unat (index 2 v) = unat v div 2 ^ 21"
    by (simp add: index_def take_bit_eq_mod drop_bit_eq_div unat_mod unat_div)
  have "unat v < 2 ^ 30" using v by (simp add: word_less_nat_alt)
  then have "unat (index 2 v * 2 ^ 21) = unat v div 2 ^ 21 * 2 ^ 21"
    using i by (simp add: unat_word_ariths)
  moreover have "unat (take_bit 21 v) = unat v mod 2 ^ 21" by (simp add: take_bit_eq_mod unat_mod)
  ultimately show ?thesis
    using div_mult_mod_eq [of "unat v" "2 ^ 21"] unat64_lt [of v]
    by (simp add: word_unat_eq_iff unat_word_ariths)
qed

text \<open>The machine \<open>_start\<close> hands over, by the entries of its tables.\<close>

definition boot_machine :: "boot_image \<Rightarrow> machine \<Rightarrow> machine" where
  "boot_machine im s = enable_paging im (set_up_page_tables im (sse_on (show_ok s)))"

lemma boot_machine_views:
  assumes "4096 dvd unat (boot_p4 im)"
  shows "root (boot_machine im s) = ucast (boot_p4 im)" "cr3 (boot_machine im s) = ucast (boot_p4 im OR 3)"
    "frames (boot_machine im s) = frames s"
    "nx_enabled (boot_machine im s) = nx_enabled s"
  using boot_link [OF assms]
  by (simp_all add: boot_machine_def enable_paging_def set_up_page_tables_def Let_def sse_on_def show_ok_def root_def hangs_def
    nx_enabled_def ia32_msfr_def bit_or_iff)

lemma boot_machine_entries:
  assumes "image_ok im (phys s)" "page_aligned t" "i < 512"
  shows "entry_at (phys (boot_machine im s)) t i = (case boot_entry im t i of Some e \<Rightarrow> e | None \<Rightarrow> entry_at (phys s) t i)"
proof -
  have p: "phys (sse_on (show_ok s)) = phys s" by (simp add: sse_on_def show_ok_def)
  show ?thesis using boot_entries [of im "sse_on (show_ok s)" t i] assms unfolding boot_machine_def p by blast
qed

lemma boot_table_entries:
  assumes im: "image_ok im (phys s)" and i: "i < 512"
  defines "m \<equiv> phys (boot_machine im s)"
  shows "entry_at m (ucast (boot_p4 im)) i =
      (if i = 0 then ucast (boot_p3 im OR 3) else if i = 511 then ucast (boot_p4 im OR 3) else 0)"
    "entry_at m (ucast (boot_p3 im)) i = (if i = 0 then ucast (boot_p2 im OR 3) else 0)"
    "entry_at m (ucast (boot_p2 im)) i = huge_entry i"
  using boot_machine_entries [OF im _ i] image_okD [OF im] by (auto simp: boot_entry_def m_def)

lemma boot_links:
  assumes "image_ok im (phys s)"
  shows "hangs nx (ucast (boot_p4 im OR 3)) (ucast (boot_p4 im))" "hangs nx (ucast (boot_p3 im OR 3)) (ucast (boot_p3 im))"
    "hangs nx (ucast (boot_p2 im OR 3)) (ucast (boot_p2 im))"
  using assms by (auto simp: image_ok_def intro: boot_link)

lemma walk_levels:
  "walk nx 4 m t v = (let e = entry_at m t (index 4 v) in
     if entry_ok nx e \<and> \<not> is_huge e then walk nx 3 m (entry_addr e) v else None)"
  "walk nx 3 m t v = (let e = entry_at m t (index 3 v) in if \<not> entry_ok nx e then None
     else if is_huge e then Some (drop_bit 30 (entry_addr e) * 2 ^ 30 + take_bit 30 v) else walk nx 2 m (entry_addr e) v)"
  "walk nx 2 m t v = (let e = entry_at m t (index 2 v) in if \<not> entry_ok nx e then None
     else if is_huge e then Some (drop_bit 21 (entry_addr e) * 2 ^ 21 + take_bit 21 v) else walk nx 1 m (entry_addr e) v)"
  using walk.simps(2) [of nx 3 m t v] walk.simps(2) [of nx 2 m t v] walk.simps(2) [of nx 1 m t v]
  by (simp_all add: Let_def numeral_2_eq_2 [symmetric])

lemma boot_walk:
  assumes im: "image_ok im (phys s)" and v: "index 4 v \<noteq> 511"
  shows "walk nx 4 (phys (boot_machine im s)) (ucast (boot_p4 im)) v =
    (if index 4 v = 0 \<and> index 3 v = 0 then Some (index 2 v * 2 ^ 21 + take_bit 21 v) else None)"
proof -
  let ?m = "phys (boot_machine im s)"
  note e = boot_table_entries [OF im index_lt] and l = boot_links [OF im, of nx, unfolded hangs_def]
  have two: "walk nx 2 ?m (ucast (boot_p2 im)) v = Some (index 2 v * 2 ^ 21 + take_bit 21 v)"
    using huge_entry_facts [of "index 2 v"] by (simp add: walk_levels e Let_def)
  have three: "walk nx 3 ?m (ucast (boot_p3 im)) v = (if index 3 v = 0 then walk nx 2 ?m (ucast (boot_p2 im)) v else None)"
    using l(3) by (simp add: walk_levels(2) e Let_def)
  have "walk nx 4 ?m (ucast (boot_p4 im)) v = (if index 4 v = 0 then walk nx 3 ?m (ucast (boot_p3 im)) v else None)"
    using l(2) v by (simp add: walk_levels(1) e Let_def)
  then show ?thesis by (simp add: three two)
qed

lemma boot_mmu:
  assumes im: "image_ok im (phys s)" and v: "index 4 v \<noteq> 511"
  shows "mmu (boot_machine im s) v = (if v < 2 ^ 30 then Some v else None)"
proof -
  have "4096 dvd unat (boot_p4 im)" using im by (simp add: image_ok_def)
  note r = boot_machine_views(1) [OF this, of s]
  show ?thesis
    unfolding mmu_def r boot_walk [OF im v] using low_gib [of v] low_gib_parts [of v] by auto
qed

lemma boot_follow:
  assumes im: "image_ok im (phys s)" and q: "table_path q"
    and f: "follow nx (phys (boot_machine im s)) (ucast (boot_p4 im)) q = Some t"
  shows "(q, t) \<in> {([], ucast (boot_p4 im)), ([0], ucast (boot_p3 im)), ([0, 0], ucast (boot_p2 im))}"
proof (cases q)
  case (Cons i p)
  note e = boot_table_entries [OF im] and l = boot_links [OF im, of nx, unfolded hangs_def]
  have i: "i = 0" "follow nx (phys (boot_machine im s)) (ucast (boot_p3 im)) p = Some t"
    using f q l(2) by (auto simp: Cons e table_path_def Let_def split: if_splits)
  show ?thesis
  proof (cases p)
    case (Cons j p')
    have j: "j = 0" "follow nx (phys (boot_machine im s)) (ucast (boot_p2 im)) p' = Some t"
      using i(2) q l(3) by (auto simp: \<open>q = i # p\<close> Cons e table_path_def Let_def split: if_splits)
    have "p' = []"
    proof (rule ccontr)
      assume "p' \<noteq> []"
      then obtain k p'' where "p' = k # p''" by (cases p') auto
      then show False
        using j(2) q huge_entry_facts(2) [of k] by (auto simp: \<open>q = i # p\<close> Cons e table_path_def Let_def split: if_splits)
    qed
    then show ?thesis using i(1) j by (simp add: \<open>q = i # p\<close> Cons)
  qed (use i Cons in simp)
qed (use f in simp)

lemma boot_tree:
  assumes im: "image_ok im (phys s)"
  shows "recursive nx (phys (boot_machine im s)) (ucast (boot_p4 im))" "tree_ok nx (phys (boot_machine im s)) (ucast (boot_p4 im))"
proof -
  note d = image_okD [OF im]
  show "recursive nx (phys (boot_machine im s)) (ucast (boot_p4 im))"
    using boot_links(1) [OF im] by (simp add: recursive_def d(1) boot_table_entries(1) [OF im])
  have "p = q" if "table_path p" "table_path q" "follow nx (phys (boot_machine im s)) (ucast (boot_p4 im)) p = Some t"
    "follow nx (phys (boot_machine im s)) (ucast (boot_p4 im)) q = Some t" for p q t
    using boot_follow [OF im that(1,3)] boot_follow [OF im that(2,4)] d(7-9) by auto
  then show "tree_ok nx (phys (boot_machine im s)) (ucast (boot_p4 im))"
    using d(1) unfolding tree_ok_def by blast
qed

lemma boot_tables_ok: "image_ok im (phys s) \<Longrightarrow> tables_ok (boot_machine im s)"
  using boot_machine_views(1) [of im s] boot_tree by (simp add: tables_ok_def image_ok_def)

text \<open>The processor runs 64-bit code: paging with physical-address extension and long mode on, in a 64-bit code segment.\<close>

definition long_mode :: "machine \<Rightarrow> bool" where
  "long_mode s \<longleftrightarrow> bit (cr0 s) 31 \<and> bit (cr0 s) 0 \<and> bit (cr4 s) 5 \<and> bit (msr s ia32_msfr) 8"

definition code_segment_64 :: "u16 \<Rightarrow> bool" where
  "code_segment_64 sel \<longleftrightarrow> unat sel mod 8 = 0 \<and> unat sel div 8 < length gdt64 \<and>
     (let d = gdt64 ! (unat sel div 8) in bit d 43 \<and> bit d 44 \<and> bit d 47 \<and> bit d 53 \<and> \<not> bit d 54)"

lemma boot_long_mode:
  assumes "bit (cr0 s) 0"
  shows "long_mode (boot_machine im s)"
proof -
  have "bit (0xFFFFFFFB :: int) 0" by (simp add: bit_0)
  then show ?thesis
    using assms by (simp add: long_mode_def boot_machine_def enable_paging_def set_up_page_tables_def Let_def sse_on_def
      show_ok_def ia32_msfr_def bit_or_iff bit_and_iff bit_ucast_iff)
qed

lemma gdt_code_64: "code_segment_64 gdt_code"
  by (simp add: code_segment_64_def gdt64_def gdt_code_def Let_def)

section \<open>Properties\<close>

text \<open>C21. The checks of \<open>_start\<close>: if the loader did not leave the multiboot magic, or the processor lacks
  cpuid, long mode or SSE, the machine halts as it was, with \<open>ERR:\<close> and the letter of the first
  missing requirement on the screen; otherwise \<open>_start\<close> goes on to the kernel.\<close>

theorem boot_checks:
  "case boot_letter cpu ax of
     Some c \<Rightarrow> \<exists>s'. boot_start cpu im ax s = Inl s' \<and> s'\<lparr>tty := tty s\<rparr> = s \<and> shown 7 (tty s') = ''ERR:  '' @ [c]
   | None \<Rightarrow> \<exists>s'. boot_start cpu im ax s = Inr (s', gdt_code, gdt_data)"
  using boot_start_goes boot_start_stops by (simp split: option.split)

text \<open>C14. The first page tables: on a processor with all that is needed, entered in protected mode with
  three zeroed pages for the tables, \<open>_start\<close> ends in long mode and in a 64-bit code segment; the
  first gigabyte is mapped to itself and nothing else outside the recursive region, and the
  tables form a tree whose root refers to itself.\<close>

theorem boot_maps_low_gib:
  assumes "boot_letter cpu ax = None" "bit (cr0 s) 0" "image_ok im (phys s)"
  shows "\<exists>s'. boot_start cpu im ax s = Inr (s', gdt_code, gdt_data) \<and> long_mode s' \<and> code_segment_64 gdt_code \<and>
    tables_ok s' \<and> root s' = ucast (boot_p4 im) \<and>
    (\<forall>v. index 4 v \<noteq> 511 \<longrightarrow> mmu s' v = (if v < 2 ^ 30 then Some v else None))"
proof -
  have "4096 dvd unat (boot_p4 im)" using assms(3) by (simp add: image_ok_def)
  then show ?thesis
    using boot_start_goes [OF assms(1), of im s] boot_long_mode [OF assms(2), of im] boot_tables_ok [OF assms(3)]
      boot_mmu [OF assms(3)] boot_machine_views(1) [of im s] gdt_code_64
    by (intro exI [of _ "boot_machine im s"]) (simp add: boot_machine_def)
qed

definition sample_boot_image :: boot_image where
  "sample_boot_image = \<lparr>boot_p4 = 0x2000, boot_p3 = 0x3000, boot_p2 = 0x4000\<rparr>"

definition sample_processor :: processor where
  "sample_processor = \<lparr>eflags = 0x2, flags_settable = 0x200000,
     cpuid = (\<lambda>l. if l = 0x80000000 then (0x80000008, 0) else if l = 0x80000001 then (0, 0x20000000) else (0, 0x2000000))\<rparr>"

definition zero_machine :: machine where
  "zero_machine = \<lparr>phys = (\<lambda>_. 0), tlb = Map.empty, cr0 = 0x11, cr3 = 0, cr4 = 0, msr = (\<lambda>_. 0), frames = sample_allocator, tty = sample_terminal\<rparr>"

lemma sample_boot:
  "boot_letter sample_processor 0x36d76289 = None" "bit (cr0 zero_machine) 0" "image_ok sample_boot_image (phys zero_machine)"
  by (simp_all add: boot_letter_def has_cpuid_def has_long_mode_def has_sse_def sample_processor_def zero_machine_def bit_0
    image_ok_def sample_boot_image_def blank_table_def)

theorem boot_maps_low_gib_witness:
  "\<exists>s'. boot_start sample_processor sample_boot_image 0x36d76289 zero_machine = Inr (s', gdt_code, gdt_data) \<and>
     mmu s' 0xb8000 = Some 0xb8000 \<and> mmu s' 0x40000000 = None"
proof -
  have i: "index 4 0xb8000 \<noteq> 511" "index 4 0x40000000 \<noteq> 511" by (simp_all add: index_def)
  show ?thesis using boot_maps_low_gib [OF sample_boot] i by auto
qed

end
