(* ===== verification/Power_On.thy ===== *)
theory Power_On
  imports Bring_Up Boot
begin

text \<open>
  From the boot loader to the kernel's loop: \<open>_start\<close> (src/arch/x86_64/boot.s), the 64-bit entry
  \<open>long_mode_start\<close> (src/arch/x86_64/boot64.s), and \<open>kernel_main\<close>. The first page tables are
  what the paging code assumes of the machine, so that all that is left to assume is what the
  loader and the linker provide: the boot information, zeroed tables inside the kernel's
  sections, and zeroed free memory.
\<close>

section \<open>The 64-bit entry\<close>

text \<open>What is done before \<open>kernel_main\<close> is called.\<close>

definition enter_kernel :: "layout \<Rightarrow> routines \<Rightarrow> 'd kernel \<Rightarrow> 'd kernel" where
  "enter_kernel lk rt s = s\<lparr>mach := show_ok (mach s), tables := default_routine lk rt (tables s)\<rparr>"

text \<open>
  The whole run; \<open>ax\<close> and \<open>bx\<close> are what the loader leaves in eax and ebx. A failed check halts
  for ever; after a return of \<open>kernel_main\<close>, the processor would halt as well.
\<close>

definition power_on ::
  "processor \<Rightarrow> boot_image \<Rightarrow> u32 \<Rightarrow> u32 \<Rightarrow> 'd bus \<Rightarrow> layout \<Rightarrow> routines \<Rightarrow> mem \<Rightarrow> (nat \<Rightarrow> u64) \<Rightarrow> frame \<Rightarrow> 'd kernel \<Rightarrow> unit out" where
  "power_on cpu im ax bx bus lk rt bi lit g s =
     (case boot_start cpu im ax (mach s) of
        Inl _ \<Rightarrow> None
      | Inr (m, _) \<Rightarrow> obind (kernel_main bus lk rt bi lit (ucast bx) g (enter_kernel lk rt (s\<lparr>mach := m\<rparr>))) (\<lambda>_. None))"

section \<open>The first page tables are ready to be replaced\<close>

text \<open>The boot information, the image and the memory the kernel starts from.\<close>

definition loaded :: "mem \<Rightarrow> (nat \<Rightarrow> u64) \<Rightarrow> boot_image \<Rightarrow> u64 \<Rightarrow> u64 list \<Rightarrow> 'd kernel \<Rightarrow> bool" where
  "loaded bi lit im p ps s \<longleftrightarrow>
     (let d = boot_tables bi p ((p + 8) # ps) (boot s)
      in tag_chain bi ((p + 8) # ps) \<and> (\<forall>q \<in> set ((p + 8) # ps). printable_tag bi q) \<and>
         symbols_printable bi lit (last_tag bi 9 ((p + 8) # ps) (symbols (boot s))) \<and> boot_image_ok bi d \<and>
         bit (cr0 (mach s)) 0 \<and> image_ok im (phys (mach s)) \<and>
         (\<forall>t \<in> {boot_p4 im, boot_p3 im, boot_p2 im}. section_byte bi (md_elf_symbols d) (ucast t)) \<and>
         get_frame_for_addr (ucast (boot_p4 im)) \<in> kernel_pages bi d \<and>
         (\<exists>al. init_allocator bi p d = ret al \<and> allocator_ready bi (al, tty (mach s)) \<and>
            35 + 3 * kernel_calls bi d \<le> card (frame_pool bi al) \<and>
            (\<forall>f \<in> frame_pool bi al. unat f < 2 ^ 40 \<and> blank_table (phys (mach s)) (get_frame_start_addr f))))"

lemma frame_of_start: "unat f < 2 ^ 40 \<Longrightarrow> get_frame_for_addr (get_frame_start_addr f) = f"
  by (simp add: get_frame_for_addr_def get_frame_start_addr_def PAGE_SIZE_def word_unat_eq_iff unat_div unat_word_ariths)

lemma root_frame_number:
  assumes "4096 dvd unat (t :: u32)"
  shows "get_frame_for_addr (ucast (t OR 3)) = get_frame_for_addr (ucast t)"
proof -
  have "drop_bit 12 (ucast (t OR 3) :: u64) = drop_bit 12 (ucast t)"
    by (rule bit_word_eqI) (auto simp: bit_drop_bit_eq bit_ucast_iff bit_or_iff low_bits)
  then show ?thesis by (simp add: get_frame_for_addr_def page_drop)
qed

text \<open>An address with another root index than 0 and 511 has nothing in its way.\<close>

lemma boot_way_clear:
  assumes im: "image_ok im (phys s)" and s': "phys s' = phys (boot_machine im s)" "root s' = ucast (boot_p4 im)"
    and v: "index 4 v \<noteq> 0" "index 4 v \<noteq> 511"
  shows "way_clear s' v"
  unfolding way_clear_iff
proof (intro allI impI)
  fix p i q u
  assume a: "path_to 1 v = p @ i # q" "table_at s' p = Some u" "bit (entry_at (phys s') u i) 0"
  have "p = [] \<or> (\<exists>p'. p = index 4 v # p')" using a(1) by (cases p) (auto simp: path_to_def)
  moreover have "p \<noteq> index 4 v # p'" for p'
    using boot_follow [OF im path_1_prefix(1) [OF a(1) v(2)], of _ u] a(2) v(1) by (auto simp: table_at_def s')
  ultimately have p: "p = []" by blast
  then have "i = index 4 v" "u = ucast (boot_p4 im)" using a(1,2) by (simp_all add: path_to_def table_at_def s')
  then have False using a(3) v boot_table_entries(1) [OF im, of i] by (simp add: s')
  then show "entry_ok (nx_enabled s') (entry_at (phys s') u i) \<and> \<not> is_huge (entry_at (phys s') u i)" ..
qed

lemma boot_paging_ok:
  assumes im: "image_ok im (phys s)" and s': "phys s' = phys (boot_machine im s)" "root s' = ucast (boot_p4 im)" "frames s' = al"
    and al: "init_allocator bi p d = ret al" "allocator_ready bi (al, t)"
    and pool: "\<forall>f \<in> frame_pool bi al. unat f < 2 ^ 40 \<and> blank_table (phys s) (get_frame_start_addr f)"
    and secs: "\<forall>t \<in> {boot_p4 im, boot_p3 im, boot_p2 im}. section_byte bi (md_elf_symbols d) (ucast t)"
  shows "paging_ok bi s'"
proof -
  have "tables_ok s'" using boot_tree [OF im] by (simp add: tables_ok_def s')
  moreover have "allocator_ready bi (frames s', tty s')" using al(2) by (simp add: allocator_ready_def s')
  moreover have "unat f < 2 ^ 40 \<and> blank_table (phys s') (get_frame_start_addr f) \<and>
      (\<forall>q. table_path q \<longrightarrow> table_at s' q \<noteq> Some (get_frame_start_addr f))" if f: "f \<in> frame_pool bi al" for f
  proof -
    have apart: "get_frame_start_addr f \<noteq> ucast t" if "t \<in> {boot_p4 im, boot_p3 im, boot_p2 im}" for t
    proof
      assume "get_frame_start_addr f = ucast t"
      then have "get_frame_for_addr (ucast t) = f" using frame_of_start f pool by metis
      then have "reserved al f" using init_allocator_reserves [OF al(1)] secs that by blast
      then show False using f by (simp add: frame_pool_def can_issue_def)
    qed
    then have "blank_table (phys s') (get_frame_start_addr f)"
      using f pool boot_machine_entries [OF im frame_start_aligned] by (simp add: blank_table_def s' boot_entry_def)
    moreover have "table_at s' q \<noteq> Some (get_frame_start_addr f)" if "table_path q" for q
      using boot_follow [OF im that] apart by (fastforce simp: table_at_def s')
    ultimately show ?thesis using f pool by blast
  qed
  ultimately show ?thesis by (simp add: paging_ok_def s')
qed

lemma boot_remap_ready:
  assumes im: "image_ok im (phys (mach s))" and p: "boot_image_ok bi d" "get_frame_for_addr (ucast (boot_p4 im)) \<in> kernel_pages bi d"
    and al: "init_allocator bi p d = ret al" "allocator_ready bi (al, t)" "7 + 3 * kernel_calls bi d \<le> card (frame_pool bi al)"
    and pool: "\<forall>f \<in> frame_pool bi al. unat f < 2 ^ 40 \<and> blank_table (phys (mach s)) (get_frame_start_addr f)"
    and secs: "\<forall>t \<in> {boot_p4 im, boot_p3 im, boot_p2 im}. section_byte bi (md_elf_symbols d) (ucast t)"
  shows "remap_ready bi d (enable_no_exec ((show_ok (boot_machine im (mach s)))\<lparr>frames := al\<rparr>))"
proof -
  let ?s = "enable_no_exec ((show_ok (boot_machine im (mach s)))\<lparr>frames := al\<rparr>)"
  have a: "4096 dvd unat (boot_p4 im)" using im by (simp add: image_ok_def)
  have s': "phys ?s = phys (boot_machine im (mach s))" "root ?s = ucast (boot_p4 im)" "frames ?s = al"
    "cr3 ?s = ucast (boot_p4 im OR 3)"
    using boot_machine_views(1,2) [OF a, of "mach s"] by (simp_all add: enable_no_exec_def show_ok_def root_def)
  have "unat (boot_p4 im OR 3) < 2 ^ 32" using unsigned_less [of "boot_p4 im OR 3"] by simp
  then have "unat (cr3 ?s) < 2 ^ 52" by (simp add: s'(4) unat_ucast32)
  moreover have "paging_ok bi ?s" by (rule boot_paging_ok [OF im s'(1-3) al(1,2) pool secs])
  moreover have "way_clear ?s (0xdeadbeef * PAGE_SIZE)" "way_clear ?s (0xdddd0000 * PAGE_SIZE)"
    by (rule boot_way_clear [OF im s'(1,2)]; simp add: index_def PAGE_SIZE_def)+
  ultimately show ?thesis
    using p al(3) root_frame_number [OF a] by (simp add: remap_ready_def s'(3,4))
qed

lemma entered_boot_ready:
  assumes "loaded bi lit im p ps s"
  shows "boot_ready bi lit p ps (enter_kernel lk rt (s\<lparr>mach := boot_machine im (mach s)\<rparr>))"
proof -
  let ?d = "boot_tables bi p ((p + 8) # ps) (boot s)"
  note l = assms [unfolded loaded_def Let_def]
  obtain al where al: "init_allocator bi p ?d = ret al" "allocator_ready bi (al, tty (mach s))"
    "35 + 3 * kernel_calls bi ?d \<le> card (frame_pool bi al)"
    "\<forall>f \<in> frame_pool bi al. unat f < 2 ^ 40 \<and> blank_table (phys (mach s)) (get_frame_start_addr f)"
    using l by blast
  have "7 + 3 * kernel_calls bi ?d \<le> card (frame_pool bi al)" using al(3) by simp
  then have "remap_ready bi ?d (enable_no_exec ((show_ok (boot_machine im (mach s)))\<lparr>frames := al\<rparr>))"
    using boot_remap_ready [OF _ _ _ al(1,2) _ al(4)] l by blast
  then show ?thesis
    using l al(1,3) unfolding boot_ready_def Let_def by (auto simp: enter_kernel_def)
qed

section \<open>Properties\<close>

text \<open>C1. From the loader to the loop: on a capable processor with the loader's magic, the boot code enters
  long mode and the kernel's initialisation returns. Then interrupts are on and every vector
  reaches its routine, the heap is empty and ready on 25 different frames, and the processor
  translates the kernel's pages (but for the page of the first root, now a guard page) to
  themselves, the heap to its frames, and nothing else outside the recursive region. The run as
  a whole never returns. What is assumed of the memory is the boot information, the tables' pages
  in the kernel's sections, zeroed, and enough zeroed free frames. The run is one without
  interrupts: none is taken between the instruction that switches them on and the end of the
  initialisation (a key pressed there would halt the kernel, see \<open>early_key_halts\<close>).\<close>

theorem kernel_boots:
  assumes "boot_letter cpu ax = None" "loaded bi lit im (ucast bx) ps s" "layout_ok lk"
  shows "\<exists>m s' fr. boot_start cpu im ax (mach s) = Inr (m, gdt_code, gdt_data) \<and> long_mode m \<and>
    kernel_start pc_bus lk rt bi lit (ucast bx) g (enter_kernel lk rt (s\<lparr>mach := m\<rparr>)) = ret s' \<and>
    power_on cpu im ax bx pc_bus lk rt bi lit g s = None \<and>
    interrupts_on s' \<and> (\<forall>v < 256. interrupt_target lk (tables s') v = Some (vector_routine rt v)) \<and>
    heap_rel (heap s') initial \<and> paging_ok bi (mach s') \<and> inj_on fr {..<25} \<and>
    (\<forall>v. index 4 v \<noteq> 511 \<longrightarrow> mmu (mach s') v =
       kernel_space (kernel_pages bi (data (boot s')) - {get_frame_for_addr (ucast (boot_p4 im))}) fr v)"
proof -
  let ?m = "boot_machine im (mach s)"
  let ?s = "enter_kernel lk rt (s\<lparr>mach := ?m\<rparr>)"
  have im: "image_ok im (phys (mach s))" "bit (cr0 (mach s)) 0" using assms(2) by (simp_all add: loaded_def Let_def)
  then have a: "4096 dvd unat (boot_p4 im)" by (simp add: image_ok_def)
  have b: "boot_start cpu im ax (mach s) = Inr (?m, gdt_code, gdt_data)"
    using boot_start_goes [OF assms(1)] by (simp add: boot_machine_def)
  have c: "get_frame_for_addr (cr3 (mach ?s)) = get_frame_for_addr (ucast (boot_p4 im))"
    using boot_machine_views(2) [OF a] root_frame_number [OF a] by (simp add: enter_kernel_def show_ok_def)
  obtain s1 s' fr where k: "start_interrupts pc_bus lk rt (start_screen ?s) = ret s1"
    "kernel_start pc_bus lk rt bi lit (ucast bx) g ?s = ret s'" "interrupts_on s'" "heap_rel (heap s') initial"
    "paging_ok bi (mach s')" "inj_on fr {..<25}" "tables s' = tables (install_drivers lk rt s1)"
    "\<forall>v. index 4 v \<noteq> 511 \<longrightarrow> mmu (mach s') v =
       kernel_space (kernel_pages bi (data (boot s')) - {get_frame_for_addr (cr3 (mach ?s))}) fr v"
    using kernel_start_state [OF entered_boot_ready [OF assms(2)], of lk rt lk rt g] by blast
  have t: "tables ?s = default_routine lk rt (tables s)" by (simp add: enter_kernel_def)
  have "interrupt_target lk (tables s') v = Some (vector_routine rt v)" if "v < 256" for v
    unfolding k(7) by (rule installed_vectors [OF assms(3) t k(1) that])
  moreover have "power_on cpu im ax bx pc_bus lk rt bi lit g s = None"
    by (simp add: power_on_def b kernel_main_def k(2))
  ultimately show ?thesis
    using b boot_long_mode [OF im(2)] k(2-6,8) unfolding c by blast
qed

text \<open>Boot information at 0x1000 as in the sample image, with a section from 0x2000 to 0x4fff that holds the tables.\<close>

definition loaded_image :: mem where
  "loaded_image = bytes_mem 0x1000
     (le32 160 @ le32 0 @
      le32 6 @ le32 40 @ le32 24 @ le32 0 @ le64 0x100000 @ le64 0x7000000 @ le32 1 @ le32 0 @
      le32 9 @ le32 84 @ le32 1 @ le32 64 @ le32 0 @
      le32 0 @ le32 1 @ le64 7 @ le64 0x2000 @ le64 0 @ le64 0x3000 @ le32 0 @ le32 0 @ le64 0 @ le64 0)"

definition loaded_allocator :: frame_allocator where
  "loaded_allocator = sample_allocator\<lparr>kernel_end := 5\<rparr>"

definition loaded_kernel :: "pc kernel" where
  "loaded_kernel = sample_kernel\<lparr>mach := zero_machine\<rparr>"

lemma loaded_header:
  "section_header_at loaded_image 0x1044 = \<lparr>sh_name = 0, sh_type = 1, sh_flags = 7, sh_addr = 0x2000, sh_offset = 0,
     sh_size = 0x3000, sh_link = 0, sh_info = 0, sh_addralign = 0, sh_entsize = 0\<rparr>"
  by (simp add: section_header_at_def loaded_image_def load_eval)

lemma loaded_facts:
  "map_size loaded_image 0x1008 = 40" "map_entry_size loaded_image 0x1008 = 24" "elf_num loaded_image 0x1030 = 1"
  "elf_entsize loaded_image 0x1030 = 64" "elf_shndx loaded_image 0x1030 = 0" "total_size_at loaded_image 0x1000 = 160"
  "base_addr (memory_maps loaded_image 0x1008 0) = 0x100000" "entry_length (memory_maps loaded_image 0x1008 0) = 0x7000000"
  by (simp_all add: loaded_image_def map_size_def map_entry_size_def elf_num_def elf_entsize_def elf_shndx_def total_size_at_def
      memory_maps_def map_entry_at_def load_eval)

lemma loaded_tags:
  "tag_at loaded_image 0x1008 = \<lparr>tag_type = 6, tag_size = 40\<rparr>" "tag_at loaded_image 0x1030 = \<lparr>tag_type = 9, tag_size = 84\<rparr>"
  "tag_at loaded_image 0x1088 = \<lparr>tag_type = 0, tag_size = 0\<rparr>"
  by (simp_all add: loaded_image_def tag_at_def load_eval)

lemma loaded_section:
  "sectionheaders loaded_image 0x1030 0 = section_header_at loaded_image 0x1044"
  "kernel_section loaded_image sample_tables 0 = section_header_at loaded_image 0x1044"
  "section_number loaded_image sample_tables = 1" "boot_last loaded_image sample_tables = 0x1500"
  by (simp_all add: sectionheaders_def kernel_section_def sample_tables_def section_number_def boot_last_def loaded_facts)

lemma loaded_boot_tables: "boot_tables loaded_image 0x1000 [0x1008, 0x1030, 0x1088] (boot loaded_kernel) = sample_tables"
  by (simp add: boot_tables_def last_tag_def loaded_tags sample_tables_def)

lemma loaded_init: "init_allocator loaded_image 0x1000 sample_tables = ret loaded_allocator"
  by (simp add: init_allocator_def sample_tables_def loaded_allocator_def sample_allocator_def entry_count_def loaded_facts
      loaded_section loaded_header int_loop_def int_range_def lowest_area_def kernel_bounds_def get_frame_for_addr_def PAGE_SIZE_def)

lemma loaded_pool: "f \<in> frame_pool loaded_image loaded_allocator \<longleftrightarrow> f = 0 \<or> 6 \<le> f \<and> f \<le> 0x70FF"
proof -
  have last: "get_frame_for_addr (area_last (area loaded_image 0x1008 0)) = 0x70FF"
    by (simp add: area_last_def area_def loaded_facts get_frame_for_addr_def PAGE_SIZE_def)
  have "map_ok loaded_image 0x1008 1" "big_area loaded_image 0x1008 0"
    by (simp_all add: map_ok_def big_area_def area_base_def area_len_def area_def loaded_facts)
  then have ahead: "areas_ahead loaded_image 0x1008 1 0 = {0}" by (auto simp: areas_ahead_def)
  have "f \<in> frame_pool loaded_image loaded_allocator \<longleftrightarrow> \<not> (2 \<le> f \<and> f \<le> 5) \<and> f \<noteq> 1 \<and> f \<le> 0x70FF"
    using ahead last by (auto simp: frame_pool_def can_issue_def reserved_def loaded_allocator_def sample_allocator_def)
  also have "\<dots> \<longleftrightarrow> f = 0 \<or> 6 \<le> f \<and> f \<le> 0x70FF"
    by (auto simp: word_le_nat_alt word_unat_eq_iff)
  finally show ?thesis .
qed

lemma loaded_counts:
  "kernel_calls loaded_image sample_tables = 5" "50 \<le> card (frame_pool loaded_image loaded_allocator)"
proof -
  have "elf_section_is_allocated (section_header_at loaded_image 0x1044)"
    by (simp add: elf_section_is_allocated_def loaded_header)
  then show "kernel_calls loaded_image sample_tables = 5"
    by (simp add: kernel_calls_def loaded_section loaded_header section_calls_def section_page_count_def boot_page_count_def)
      (simp add: sample_tables_def)
  have "card ((\<lambda>k. of_nat k :: frame) ` {6..<64}) \<le> card (frame_pool loaded_image loaded_allocator)"
    by (rule card_mono) (auto simp: loaded_pool word_le_nat_alt unat_of_nat64)
  moreover have "card ((\<lambda>k. of_nat k :: frame) ` {6..<64}) = 58"
    by (subst card_image) (auto simp: inj_on_def of_nat64_eq_iff)
  ultimately show "50 \<le> card (frame_pool loaded_image loaded_allocator)" by simp
qed

lemma loaded_strings: "symbols_printable loaded_image (\<lambda>_. 0) 0x1030"
proof -
  have "stored_string loaded_image 0 []" "stored_string loaded_image 0x2000 []"
    by (simp_all add: loaded_image_def bytes_mem_def le32_def le64_def)
  moreover have "as_int 0 = 0" "as_int 0x2000 = 0x2000" by (simp_all add: as_int_def)
  ultimately show ?thesis
    by (auto simp: symbols_printable_def section_string_table_def loaded_facts loaded_header intro: exI [of _ "[]"])
qed

lemma loaded_memory:
  "allocator_ready loaded_image (loaded_allocator, t)"
  "f \<in> frame_pool loaded_image loaded_allocator \<Longrightarrow> unat f < 2 ^ 40"
  "2 \<in> kernel_pages loaded_image sample_tables" "boot_image_ok loaded_image sample_tables"
  "section_byte loaded_image 0x1030 0x2000" "section_byte loaded_image 0x1030 0x3000" "section_byte loaded_image 0x1030 0x4000"
proof -
  have "map_ok loaded_image 0x1008 1"
    by (simp add: map_ok_def area_base_def area_len_def area_def loaded_facts)
  then show "allocator_ready loaded_image (loaded_allocator, t)"
    by (simp add: allocator_ready_def loaded_allocator_def sample_allocator_def)
  show "unat f < 2 ^ 40" if "f \<in> frame_pool loaded_image loaded_allocator"
    using that by (auto simp: loaded_pool word_le_nat_alt)
  have "2 \<in> section_pages (section_header_at loaded_image 0x1044)"
    by (simp add: section_pages_def elf_section_is_allocated_def loaded_header) (intro exI [of _ "0x2000"], simp add: PAGE_SIZE_def)
  then show "2 \<in> kernel_pages loaded_image sample_tables" by (auto simp: kernel_pages_def loaded_section)
  show "boot_image_ok loaded_image sample_tables"
    by (simp add: boot_image_ok_def loaded_section loadable_def loaded_header page_aligned_def)
qed (simp_all add: section_byte_def loaded_facts loaded_section loaded_header)

lemma loaded_sample: "loaded loaded_image (\<lambda>_. 0) sample_boot_image 0x1000 [0x1030, 0x1088] loaded_kernel"
proof -
  let ?ps = "[0x1008, 0x1030, 0x1088]"
  have chain: "tag_chain loaded_image ?ps" by (simp add: find_next_tag_address_def loaded_tags)
  have print: "\<forall>q \<in> set ?ps. printable_tag loaded_image q"
    by (simp add: printable_tag_def loaded_tags loaded_facts)
  have last: "last_tag loaded_image 9 ?ps x = 0x1030" for x by (simp add: last_tag_def loaded_tags)
  have m: "mach loaded_kernel = zero_machine" by (simp add: loaded_kernel_def)
  have z: "blank_table (phys zero_machine) t" for t by (simp add: blank_table_def zero_machine_def)
  have root: "get_frame_for_addr (ucast (boot_p4 sample_boot_image)) = 2"
    by (simp add: sample_boot_image_def get_frame_for_addr_def PAGE_SIZE_def)
  have secs: "\<forall>t \<in> {boot_p4 sample_boot_image, boot_p3 sample_boot_image, boot_p2 sample_boot_image}.
      section_byte loaded_image (md_elf_symbols sample_tables) (ucast t)"
    using loaded_memory(5-7) by (simp add: sample_boot_image_def sample_tables_def)
  have pool: "\<exists>al. init_allocator loaded_image 0x1000 sample_tables = ret al \<and> allocator_ready loaded_image (al, tty zero_machine) \<and>
      35 + 3 * kernel_calls loaded_image sample_tables \<le> card (frame_pool loaded_image al) \<and>
      (\<forall>f \<in> frame_pool loaded_image al. unat f < 2 ^ 40 \<and> blank_table (phys zero_machine) (get_frame_start_addr f))"
    using loaded_init loaded_memory(1,2) loaded_counts z by auto
  have eight: "(0x1000 + 8 :: u64) = 0x1008" by simp
  show ?thesis
    unfolding loaded_def Let_def eight loaded_boot_tables last m root
    using chain print loaded_strings loaded_memory(3,4) sample_boot(2,3) secs pool by blast
qed

theorem kernel_boots_witness:
  "\<exists>m s'. boot_start sample_processor sample_boot_image 0x36d76289 zero_machine = Inr (m, gdt_code, gdt_data) \<and>
     kernel_start pc_bus sample_layout sample_routines loaded_image (\<lambda>_. 0) 0x1000 0
       (enter_kernel sample_layout sample_routines (loaded_kernel\<lparr>mach := m\<rparr>)) = ret s' \<and>
     interrupt_target sample_layout (tables s') 14 = Some 0x2300E0 \<and> mmu (mach s') 0x2008 = None"
proof -
  have p: "(ucast (0x1000 :: u32) :: u64) = 0x1000" by simp
  have root: "get_frame_for_addr (ucast (boot_p4 sample_boot_image)) = 2"
    by (simp add: sample_boot_image_def get_frame_for_addr_def PAGE_SIZE_def)
  have m: "mach loaded_kernel = zero_machine" by (simp add: loaded_kernel_def)
  note boots = kernel_boots [where cpu = sample_processor and ax = "0x36d76289" and bi = loaded_image and lit = "\<lambda>_. 0"
      and im = sample_boot_image and bx = "0x1000" and ps = "[0x1030, 0x1088]" and s = loaded_kernel and lk = sample_layout
      and rt = sample_routines and g = 0, unfolded p root m, OF sample_boot(1) loaded_sample sample_layout_ok]
  obtain m' s' fr where s': "boot_start sample_processor sample_boot_image 0x36d76289 zero_machine = Inr (m', gdt_code, gdt_data)"
    "Kernel.kernel_start pc_bus sample_layout sample_routines loaded_image (\<lambda>_. 0) 0x1000 0
       (enter_kernel sample_layout sample_routines (loaded_kernel\<lparr>mach := m'\<rparr>)) = ret s'"
    "\<forall>v < 256. interrupt_target sample_layout (tables s') v = Some (vector_routine sample_routines v)"
    "\<forall>v. index 4 v \<noteq> 511 \<longrightarrow> mmu (mach s') v = kernel_space (kernel_pages loaded_image (data (boot s')) - {2}) fr v"
    using boots by (elim exE conjE) (rule that; assumption)
  have "vector_routine sample_routines 14 = 0x2300E0"
    by (simp add: vector_routine_def exception_order_def sample_routines_def)
  moreover have "index 4 0x2008 \<noteq> 511" by (rule low_address(2)) simp
  moreover have "\<not> in_heap 0x2008 1" by (simp add: in_heap_def heap_numbers)
  ultimately show ?thesis
    using s' by (intro exI [of _ m'] exI [of _ s']) (simp add: kernel_space_def PAGE_SIZE_def)
qed

end
