(* ===== verification/Assertions.thy ===== *)
theory Assertions
  imports Boot
begin

text \<open>
  What a failed \<open>assert\<close> (src/assert.h) leaves on the screen: \<open>_os_assert\<close>
  (src/arch/x86_64/boot64.s) switches interrupts off, writes the line, the file and the
  expression into the first three rows of the video memory, and halts. In the rest of the
  library a failed assertion is the fault \<open>Assert_failed\<close>.
\<close>

section \<open>\<open>_os_assert\<close>\<close>

text \<open>One of its three loops: the bytes of a string, light on green, from a cell on.\<close>

partial_function (option) copy_text :: "mem \<Rightarrow> u64 \<Rightarrow> u64 \<Rightarrow> terminal \<Rightarrow> terminal out" where
  "copy_text m p c t =
     (if m p = 0 then ret t
      else copy_text m (p + 1) (c + 1) (t\<lparr>buffer := (buffer t)(c := 0x2f00 OR ucast (m p))\<rparr>))"

definition assert_labels :: "terminal \<Rightarrow> terminal" where
  "assert_labels t =
     (let t1 = show_cells 4 0x2f002f00 (show_cells 2 0x2f652f6e (show_cells 0 0x2f692f4c t));
          t2 = show_cells 84 0x2f002f00 (show_cells 82 0x2f652f6c (show_cells 80 0x2f692f46 t1))
      in show_cells 164 0x2f002f00 (show_cells 162 0x2f6c2f69 (show_cells 160 0x2f612f46 t2)))"

text \<open>The arguments are the addresses of the expression, the file and the line; the result is the screen at the \<open>hlt\<close>.\<close>

definition os_assert :: "mem \<Rightarrow> u64 \<Rightarrow> u64 \<Rightarrow> u64 \<Rightarrow> terminal \<Rightarrow> terminal out" where
  "os_assert m ex file line t =
     obind (copy_text m line 6 (assert_labels t)) (\<lambda>t1.
     obind (copy_text m file 86 t1) (\<lambda>t2. copy_text m ex 166 t2))"

section \<open>The screen after it\<close>

definition text_cells :: "u64 \<Rightarrow> u8 list \<Rightarrow> (u64 \<Rightarrow> u16) \<Rightarrow> u64 \<Rightarrow> u16" where
  "text_cells c bs b = (\<lambda>i. if unat (i - c) < length bs then 0x2f00 OR ucast (bs ! unat (i - c)) else b i)"

lemma text_cells_Cons:
  assumes "length bs < 2 ^ 64 - 1"
  shows "text_cells c (x # bs) b = text_cells (c + 1) bs (b(c := 0x2f00 OR ucast x))"
proof
  fix i
  have "unat (- 1 :: u64) = 2 ^ 64 - 1" by (simp add: unsigned_minus_1_eq_mask mask_eq_exp_minus_1)
  then have z: "\<not> unat (c - (c + 1)) < length bs" using assms by simp
  have "unat (i - c) = Suc (unat (i - (c + 1)))" if "i \<noteq> c"
  proof -
    have "i - (c + 1) = (i - c) - 1" "i - c \<noteq> 0" using that by simp_all
    then show ?thesis by (metis Suc_pred' unat_minus_one unat_gt_0)
  qed
  then show "text_cells c (x # bs) b i = text_cells (c + 1) bs (b(c := 0x2f00 OR ucast x)) i"
    using z by (cases "i = c") (simp_all add: text_cells_def)
qed

lemma copy_text_stored:
  "stored_string m p bs \<Longrightarrow> length bs < 2 ^ 64 \<Longrightarrow>
     copy_text m p c t = ret (t\<lparr>buffer := text_cells c bs (buffer t)\<rparr>)"
proof (induction bs arbitrary: p c t)
  case (Cons x bs)
  then show ?case by (subst copy_text.simps) (simp add: text_cells_Cons)
qed (subst copy_text.simps, simp add: text_cells_def)

lemma text_cells_at:
  assumes "a < 2 ^ 32" "c < 2 ^ 32" "length bs < 2 ^ 32"
  shows "text_cells (of_nat c) bs b (of_nat a) =
    (if c \<le> a \<and> a < c + length bs then 0x2f00 OR ucast (bs ! (a - c)) else b (of_nat a))"
proof (cases "c \<le> a")
  case True
  then have "(of_nat a - of_nat c :: u64) = of_nat (a - c)" by (simp add: of_nat_diff)
  moreover have "unat (of_nat (a - c) :: u64) = a - c" using assms by (intro unat_of_nat64) simp
  ultimately show ?thesis using True by (auto simp: text_cells_def)
next
  case False
  have "unat (of_nat a :: u64) = a" "unat (of_nat c :: u64) = c" using assms by (simp_all add: unat_of_nat64)
  then have "unat (of_nat a - of_nat c :: u64) = 2 ^ 64 + a - c" using False by (simp add: unat_sub_if')
  moreover have "\<not> 2 ^ 64 + a - c < length bs" using assms by simp
  ultimately show ?thesis using False by (simp add: text_cells_def)
qed

text \<open>The characters of a row.\<close>

definition row_text :: "nat \<Rightarrow> nat \<Rightarrow> terminal \<Rightarrow> string" where
  "row_text r n t = map (\<lambda>i. char_of (unat (buffer t (of_nat (80 * r + i))) mod 256)) [0..<n]"

definition byte_text :: "u8 list \<Rightarrow> string" where
  "byte_text bs = map (\<lambda>b. char_of (unat b)) bs"

lemma low_byte_light: "(ucast (0x2f00 OR ucast c :: u16) :: u8) = c"
proof -
  have "(0x2f00 :: int) = push_bit 8 0x2f" by (simp add: push_bit_eq_mult)
  then have "bit (0x2f00 :: int) n \<longleftrightarrow> bit (push_bit 8 0x2f :: int) n" for n by simp
  then have "bit (0x2f00 :: int) n \<Longrightarrow> 8 \<le> n" for n unfolding bit_push_bit_iff by blast
  then have "\<not> bit (0x2f00 :: int) n" if "n < 8" for n using that leD by blast
  then show ?thesis by (intro bit_word_eqI) (auto simp: bit_simps)
qed

lemma row_written:
  assumes "\<forall>i < 6. char_of (unat (b (of_nat (80 * r + i))) mod 256) = (lab @ [CHR 0x00, CHR 0x00]) ! i" "length lab = 4"
    and "\<And>i. 6 \<le> i \<Longrightarrow> i < 6 + length bs \<Longrightarrow> b (of_nat (80 * r + i)) = 0x2f00 OR ucast (bs ! (i - 6))"
  shows "row_text r (6 + length bs) (t\<lparr>buffer := b\<rparr>) = lab @ [CHR 0x00, CHR 0x00] @ byte_text bs"
proof (rule nth_equalityI)
  fix i assume "i < length (row_text r (6 + length bs) (t\<lparr>buffer := b\<rparr>))"
  then have i: "i < 6 + length bs" by (simp add: row_text_def)
  show "row_text r (6 + length bs) (t\<lparr>buffer := b\<rparr>) ! i = (lab @ [CHR 0x00, CHR 0x00] @ byte_text bs) ! i"
  proof (cases "i < 6")
    case True
    then have "(lab @ [CHR 0x00, CHR 0x00] @ byte_text bs) ! i = (lab @ [CHR 0x00, CHR 0x00]) ! i"
      using nth_append [of "lab @ [CHR 0x00, CHR 0x00]" "byte_text bs" i] assms(2) by (simp only: append_assoc) simp
    then show ?thesis using assms(1) True i by (simp add: row_text_def)
  next
    case False
    then have "(lab @ [CHR 0x00, CHR 0x00] @ byte_text bs) ! i = char_of (unat (bs ! (i - 6)))"
      using assms(2) i by (simp add: nth_append byte_text_def nth_Cons')
    then show ?thesis
      using assms(3) [of i] False i by (simp add: row_text_def low_byte low_byte_light)
  qed
qed (use assms(2) in \<open>simp add: row_text_def byte_text_def\<close>)

lemma os_assert_cells:
  fixes t :: terminal
  assumes "stored_string m line l" "stored_string m file f" "stored_string m ex e"
    and "length l \<le> 74" "length f \<le> 74" "length e \<le> 74"
  defines "b \<equiv> text_cells 166 e (text_cells 86 f (text_cells 6 l (buffer (assert_labels t))))"
  shows "os_assert m ex file line t = ret ((assert_labels t)\<lparr>buffer := b\<rparr>)"
    "a < 2 ^ 32 \<Longrightarrow> b (of_nat a) =
      (if 166 \<le> a \<and> a < 166 + length e then 0x2f00 OR ucast (e ! (a - 166))
       else if 86 \<le> a \<and> a < 86 + length f then 0x2f00 OR ucast (f ! (a - 86))
       else if 6 \<le> a \<and> a < 6 + length l then 0x2f00 OR ucast (l ! (a - 6)) else buffer (assert_labels t) (of_nat a))"
proof -
  have n: "length l < 2 ^ 64" "length f < 2 ^ 64" "length e < 2 ^ 64" using assms(4-6) by simp_all
  show "os_assert m ex file line t = ret ((assert_labels t)\<lparr>buffer := b\<rparr>)"
    by (simp add: os_assert_def b_def copy_text_stored [OF assms(1) n(1)] copy_text_stored [OF assms(2) n(2)]
      copy_text_stored [OF assms(3) n(3)])
  show "a < 2 ^ 32 \<Longrightarrow> b (of_nat a) =
      (if 166 \<le> a \<and> a < 166 + length e then 0x2f00 OR ucast (e ! (a - 166))
       else if 86 \<le> a \<and> a < 86 + length f then 0x2f00 OR ucast (f ! (a - 86))
       else if 6 \<le> a \<and> a < 6 + length l then 0x2f00 OR ucast (l ! (a - 6)) else buffer (assert_labels t) (of_nat a))"
    using assms(4-6) text_cells_at [of a 166 e] text_cells_at [of a 86 f] text_cells_at [of a 6 l] by (simp add: b_def)
qed

lemma label_cells:
  "\<forall>i < 6. char_of (unat (buffer (assert_labels t) (of_nat (80 * 0 + i))) mod 256) = (''Line'' @ [CHR 0x00, CHR 0x00]) ! i"
  "\<forall>i < 6. char_of (unat (buffer (assert_labels t) (of_nat (80 * 1 + i))) mod 256) = (''File'' @ [CHR 0x00, CHR 0x00]) ! i"
  "\<forall>i < 6. char_of (unat (buffer (assert_labels t) (of_nat (80 * 2 + i))) mod 256) = (''Fail'' @ [CHR 0x00, CHR 0x00]) ! i"
  "240 \<le> c \<Longrightarrow> c < 2 ^ 32 \<Longrightarrow> buffer (assert_labels t) (of_nat c) = buffer t (of_nat c)"
proof -
  have six: "(\<forall>i < 6. P i) \<longleftrightarrow> P 0 \<and> P 1 \<and> P 2 \<and> P 3 \<and> P 4 \<and> P (5 :: nat)" for P
    by (simp add: All_less_Suc eval_nat_numeral) blast
  show "\<forall>i < 6. char_of (unat (buffer (assert_labels t) (of_nat (80 * 0 + i))) mod 256) = (''Line'' @ [CHR 0x00, CHR 0x00]) ! i"
    "\<forall>i < 6. char_of (unat (buffer (assert_labels t) (of_nat (80 * 1 + i))) mod 256) = (''File'' @ [CHR 0x00, CHR 0x00]) ! i"
    "\<forall>i < 6. char_of (unat (buffer (assert_labels t) (of_nat (80 * 2 + i))) mod 256) = (''Fail'' @ [CHR 0x00, CHR 0x00]) ! i"
    unfolding six by (simp_all add: assert_labels_def Let_def show_cells_def char_of_def bit_0)
  assume c: "240 \<le> c" "c < 2 ^ 32"
  have "(of_nat c :: u64) \<noteq> of_nat k" if "k < 240" for k using c that of_nat64_eq_iff [of c k] by simp
  from this [of 0] this [of 1] this [of 2] this [of 3] this [of 4] this [of 5] this [of 80] this [of 81] this [of 82] this [of 83]
    this [of 84] this [of 85] this [of 160] this [of 161] this [of 162] this [of 163] this [of 164] this [of 165]
  show "buffer (assert_labels t) (of_nat c) = buffer t (of_nat c)"
    by (simp add: assert_labels_def Let_def show_cells_def)
qed

section \<open>Properties\<close>

text \<open>C28. A failed assertion names itself: when the line, the file and the expression are texts of at most
  74 bytes, \<open>_os_assert\<close> shows them in the first three rows, behind the labels Line, File and
  Fail, and changes no cell below.\<close>

theorem assertion_shown:
  assumes "stored_string m line l" "stored_string m file f" "stored_string m ex e"
    and "length l \<le> 74" "length f \<le> 74" "length e \<le> 74"
  shows "\<exists>t'. os_assert m ex file line t = ret t' \<and>
    row_text 0 (6 + length l) t' = ''Line'' @ [CHR 0x00, CHR 0x00] @ byte_text l \<and>
    row_text 1 (6 + length f) t' = ''File'' @ [CHR 0x00, CHR 0x00] @ byte_text f \<and>
    row_text 2 (6 + length e) t' = ''Fail'' @ [CHR 0x00, CHR 0x00] @ byte_text e \<and>
    (\<forall>c. 240 \<le> c \<longrightarrow> c < 2 ^ 32 \<longrightarrow> buffer t' (of_nat c) = buffer t (of_nat c))"
proof -
  note b = os_assert_cells [OF assms, where t = t]
  let ?b = "text_cells 166 e (text_cells 86 f (text_cells 6 l (buffer (assert_labels t))))"
  let ?t = "(assert_labels t)\<lparr>buffer := ?b\<rparr>"
  have "row_text 0 (6 + length l) ?t = ''Line'' @ [CHR 0x00, CHR 0x00] @ byte_text l"
    using label_cells(1) [of t] assms(4) by (intro row_written) (simp_all add: b(2) del: of_nat_add of_nat_mult)
  moreover have "row_text 1 (6 + length f) ?t = ''File'' @ [CHR 0x00, CHR 0x00] @ byte_text f"
    using label_cells(2) [of t] assms(4,5) by (intro row_written) (simp_all add: b(2) del: of_nat_add of_nat_mult)
  moreover have "row_text 2 (6 + length e) ?t = ''Fail'' @ [CHR 0x00, CHR 0x00] @ byte_text e"
    using label_cells(3) [of t] assms(4-6) by (intro row_written) (simp_all add: b(2) del: of_nat_add of_nat_mult)
  moreover have "buffer ?t (of_nat c) = buffer t (of_nat c)" if "240 \<le> c" "c < 2 ^ 32" for c
    using b(2) [of c] label_cells(4) [where c = c and t = t] that assms(4-6) by simp
  ultimately show ?thesis using b(1) by blast
qed

text \<open>The strings 21, m.c and a>0 at 16, 32 and 48.\<close>

definition sample_texts :: mem where
  "sample_texts = (\<lambda>_. 0)(16 := 50, 17 := 49, 32 := 109, 33 := 46, 34 := 99, 48 := 97, 49 := 62, 50 := 48)"

theorem assertion_shown_witness:
  "\<exists>t'. os_assert sample_texts 48 32 16 sample_terminal = ret t' \<and>
     row_text 0 8 t' = ''Line'' @ [CHR 0x00, CHR 0x00] @ ''21'' \<and> row_text 1 9 t' = ''File'' @ [CHR 0x00, CHR 0x00] @ ''m.c''"
proof -
  have "stored_string sample_texts 16 [50, 49]" "stored_string sample_texts 32 [109, 46, 99]"
    "stored_string sample_texts 48 [97, 62, 48]"
    by (simp_all add: sample_texts_def)
  from assertion_shown [OF this, of sample_terminal] show ?thesis
    by (auto simp: byte_text_def char_of_def bit_0)
qed

end
