(* ===== verification/Spec2Isabelle.thy ===== *)
theory Spec2Isabelle
  imports Running Tlb Power_On Assertions
begin

text \<open>
  A verification library for a small x86-64 kernel: the C sources under src/src and the assembly
  of src/src/arch/x86_64 (boot.s, boot64.s) they start from and call.

  The program. GRUB loads the kernel; boot.s enters long mode with first page tables, whose root
  refers to itself in entry 511, and boot64.s fills the interrupt tables and calls
  \<open>kernel_main\<close>. That function starts the VGA terminal, programs the interrupt controllers,
  installs the exception handlers, switches interrupts on, installs the timer and keyboard
  handlers, reads the multiboot2 boot information, starts the frame allocator on its memory map,
  builds page tables of its own, maps and starts the heap, and loops for ever. All parts print to
  the terminal; paging takes frames from the frame allocator; the heap takes pages from paging.

  The model. Machine integers are words of their C width. A C call is a function from a state to
  an outcome (\<open>'a out\<close> of Prelude): it returns, it stops with a fault (a failed \<open>assert\<close>, a page
  fault, an access outside an array, undefined behaviour), or it never returns (\<open>None\<close>). Loops the
  code bounds are \<open>foldM\<close> over their indices; loops whose end is a claim (tag walk, frame search,
  page loops, free-list search) are \<open>partial_function (option)\<close>, so that no fuel is needed and not
  returning is a value. Uninitialised variables are arguments. Memory is a map from 64-bit
  addresses to bytes with little-endian loads and stores (Memory).

  The theories, in the order they build on each other.
    Prelude, Memory: words, outcomes, loops, loads after stores.
    Terminal (terminal.c, terminal.h): the \<open>Terminal\<close> struct and the cells. Refinement of newline,
      scrolling and character output to an abstract screen.
    Printf (terminal.c): parsing of conversions and the printers of \<open>terminal_printf\<close>. Formatted
      output writes only the screen; hexadecimal output denotes its number.
    Multiboot (multiboot.c, multiboot.h): the tag walk and the globals it sets.
    Frame_Allocator (frame_allocator.c, frame_allocator.h): the bump allocation over the memory
      map; the locales \<open>frame_source\<close>, \<open>frame_supply\<close> and \<open>frame_stock\<close> are what paging relies on.
    Mmu: the machine of the paging code, with the translations the processor has cached; the
      four-level translation, page tables as trees of tables.
    Registers (paging.c): the control registers, their bits and the functions that access them.
    Paging, Paging_Laws (paging.c, paging.h): the operations through the recursive mapping, the
      invariant \<open>paging_ok\<close> (tables form a tree, free frames are blank and hang nowhere), and what
      mapping, unmapping and translating do to the processor's translation.
    Tlb (paging.c): a step relation of the operations and of a processor that fills and drops its
      cached translations as it likes. The loads of cr3 in the code empty the cache; they keep it
      from ever disagreeing with the tables as long as only absent pages are mapped.
    Remap, Window, Remap_Laws (paging.c): \<open>remap_kernel\<close>. Remap has its definitions and page loops.
      Window shows that the operations, run while the recursive entry of the old root points at
      the new root, do to the new tables what they do to active ones. Remap_Laws follows
      \<open>remap_kernel\<close> from its first allocation to the guard page.
    Kmalloc, Kmalloc_Laws (kmalloc.c): the heap. Its free list lives in byte memory (locale
      \<open>node_store\<close>); \<open>heap_rel\<close> relates it to lists of blocks, on which first fit is the abstract
      specification; \<open>heap_step\<close> is a step relation over allocations, frees, resizings and writes.
    Heap_Init (kmalloc.c): \<open>init_heap\<close> on the machine of the paging code, and what an allocation
      without room does to the heap it leaves.
    Ports (util.h, pic.c, pit.c): port input and output over a bus of devices, which is a
      parameter; two 8259A chips in the protocol of their data sheet are the instance
      (locale \<open>mask_register\<close>).
    Interrupts (interrupts.c, interrupts.h, boot64.s): the table of handlers and the gates the
      processor reads; which routine a vector reaches; the controllers at work as the step
      relation \<open>device_step\<close>.
    Exceptions (exceptions.c, boot64.s): frames, handlers and their installation; the way of an
      exception from the words the processor pushes through the shim to the handler, and back to
      the interrupted instruction where the handler returns.
    Keyboard (keyboard.c): the scan code table and the handler, refined to key events.
    Kernel (kernel.c): the steps of \<open>kernel_main\<close> over the states of all parts; the interrupt vectors.
    Bring_Up (kernel.c): the run of \<open>kernel_main\<close> from the entry to its last loop, which rests on the
      theorems of the parts: boot information, frame allocator, new tables, heap. Every run of the
      heap from there keeps its blocks apart.
    Boot (boot.s): the checks of \<open>_start\<close> and their error messages, the first page tables and the
      switch to long mode; what those tables translate.
    Power_On (boot.s, boot64.s): from the loader's jump to \<open>_start\<close> to the kernel's last loop. It shows
      that the first page tables are what the theorems on \<open>remap_kernel\<close> assume.
    Assertions (assert.h, boot64.s): the screen \<open>_os_assert\<close> leaves.
    Running (boot64.s, kernel.c): interrupts served after the start, through controller, gate, shim
      and routine; the kernel as a console.

  Hypotheses. Statements about paging assume \<open>paging_ok\<close>, which the boot code establishes
  (\<open>boot_paging_ok\<close>) and every operation keeps; free frames must hold no stale entries, as the code does not clear a new
  table (\<open>stale_entry_maps\<close> shows what happens otherwise). \<open>remap_ready\<close> adds what \<open>remap_kernel\<close> needs
  of the kernel image: sections that start on pages of the lower half, and enough free frames.
  \<open>boot_ready\<close> adds what the steps before it need: a terminated chain of tags with printable
  texts. Statements about exhausted heaps need that nothing is mapped behind the heap as far as a
  request of fewer than 2 ^ 63 bytes reaches (\<open>unmapped_behind\<close>); the started kernel meets it when
  its image lies below the heap (\<open>image_below_heap\<close>). \<open>loaded\<close> is what \<open>kernel_boots\<close> is left with: the same of the boot information, and that the
  pages of the first tables are zeroed and lie in the kernel's sections. Statements about the
  interrupt tables assume that they are aligned and fit below the top
  of memory. Each has a witness on a concrete state.

  Not modelled. Timing and concurrency: an interrupt handler runs between two steps of the kernel,
  never inside one, and none is taken while \<open>kernel_main\<close> initialises. Of cached translations those
  of whole addresses are modelled, which the processor uses between the paging operations; inside
  one the code's own loads and stores walk the tables. The stack of an exception handler lies
  below the registers its shim saved and has no part in the memory of the model.
  The terminal's cells are a component of their own, not the bytes at 0xb8000 of the machine's
  memory. The boot code's stack and segment registers are left out; what the processor answers to
  cpuid and the addresses the linker script leads to are parameters. The multiboot header, the
  linker script and the build files have no counterpart. Structures of multiboot.h that no code
  reads, the enumerations of page-fault codes and gate flags that no code uses, the uncalled
  printers of int and unsigned char, the busy loops and the uncalled \<open>pf_test\<close>,
  \<open>handle_something\<close>, \<open>set_handler\<close> and the wide port functions of util.h are left out. Nothing
  else of the C code is left to be modelled: what remains uncovered are comments, declarations and
  these unused parts.
\<close>

end
